(* ===== verification/Prelude.thy ===== *)
theory Prelude
  imports Main "HOL-Library.Monad_Syntax" "HOL-Library.Word"
begin

text \<open>
  What every component theory shares: the names of the machine types, the
  checked operations of Rust's slices and unsigned integers (a panic is
  \<^term>\<open>None\<close>), and the generic lemmas on lists and options that the component
  proofs rely on.

  Sizes and indices of in-memory buffers (\<^verbatim>\<open>usize\<close>) are natural numbers: they
  are bounded by the memory that holds the buffer, so only the subtractions can
  go wrong, and those are written with \<open>usub\<close> below.  Bytes are \<open>8 word\<close> where
  the code works on their bits.
\<close>

unbundle bit_operations_syntax

type_synonym u8 = "8 word"
type_synonym u16 = "16 word"
type_synonym u64 = "64 word"

named_theorems rust_simps \<open>equations of the checked operations of the Rust core library\<close>

subsection \<open>Checked slice and integer operations\<close>

text \<open>\<^verbatim>\<open>v[i]\<close>: an index out of range panics.\<close>

definition index :: "'a list \<Rightarrow> nat \<Rightarrow> 'a option" where
  "index xs i = (if i < length xs then Some (xs ! i) else None)"

text \<open>\<^verbatim>\<open>v[i] = x\<close>.\<close>

definition store :: "'a list \<Rightarrow> nat \<Rightarrow> 'a \<Rightarrow> 'a list option" where
  "store xs i x = (if i < length xs then Some (xs[i := x]) else None)"

text \<open>\<^verbatim>\<open>a - b\<close> on \<^verbatim>\<open>usize\<close>: going below zero is an arithmetic overflow.\<close>

definition usub :: "nat \<Rightarrow> nat \<Rightarrow> nat option" where
  "usub a b = (if b \<le> a then Some (a - b) else None)"

text \<open>\<^verbatim>\<open>&v[a..b]\<close>: panics when \<^verbatim>\<open>a > b\<close> or \<^verbatim>\<open>b > v.len()\<close>.\<close>

definition slice :: "'a list \<Rightarrow> nat \<Rightarrow> nat \<Rightarrow> 'a list option" where
  "slice xs a b = (if a \<le> b \<and> b \<le> length xs then Some (take (b - a) (drop a xs)) else None)"

text \<open>\<^verbatim>\<open>Option::expect\<close> and \<^verbatim>\<open>unwrap\<close> panic on \<^verbatim>\<open>None\<close>, which is what an option
  already says here; a boolean guard panics when it is false.\<close>

definition guard :: "bool \<Rightarrow> unit option" where
  "guard b = (if b then Some () else None)"

lemma index_in [rust_simps]: "i < length xs \<Longrightarrow> index xs i = Some (xs ! i)"
  by (simp add: index_def)

lemma store_in [rust_simps]: "i < length xs \<Longrightarrow> store xs i x = Some (xs[i := x])"
  by (simp add: store_def)

lemma usub_le [rust_simps]: "b \<le> a \<Longrightarrow> usub a b = Some (a - b)"
  by (simp add: usub_def)

lemma slice_in [rust_simps]:
  "a \<le> b \<Longrightarrow> b \<le> length xs \<Longrightarrow> slice xs a b = Some (take (b - a) (drop a xs))"
  by (simp add: slice_def)

lemma guard_True [rust_simps]: "b \<Longrightarrow> guard b = Some ()"
  by (simp add: guard_def)

lemma index_Some_iff [simp]: "index xs i = Some x \<longleftrightarrow> i < length xs \<and> xs ! i = x"
  by (auto simp: index_def)

lemma store_Some_iff [simp]: "store xs i x = Some ys \<longleftrightarrow> i < length xs \<and> ys = xs[i := x]"
  by (auto simp: store_def)

lemma usub_Some_iff [simp]: "usub a b = Some c \<longleftrightarrow> b \<le> a \<and> c = a - b"
  by (auto simp: usub_def)

lemma unat_u8: "unat (b :: u8) < 256"
  using unsigned_less [of b, where 'a = nat] by simp

subsection \<open>Lists of options\<close>

text \<open>The values a vector of optional slots holds, in order
  (\<^verbatim>\<open>filter_map(|x| x.as_ref())\<close>).\<close>

fun somes :: "'a option list \<Rightarrow> 'a list" where
  "somes [] = []"
| "somes (None # xs) = somes xs"
| "somes (Some x # xs) = x # somes xs"

lemma somes_append [simp]: "somes (xs @ ys) = somes xs @ somes ys"
  by (induction xs rule: somes.induct) simp_all

lemma somes_map_Some [simp]: "somes (map Some xs) = xs"
  by (induction xs) simp_all

lemma length_somes: "length (somes xs) = length (filter (\<lambda>x. x \<noteq> None) xs)"
  by (induction xs rule: somes.induct) simp_all

lemma set_somes: "set (somes xs) = {x. Some x \<in> set xs}"
  by (induction xs rule: somes.induct) auto

lemma somes_split:
  assumes "i < length xs"
  shows "somes xs = somes (take i xs) @ (case xs ! i of None \<Rightarrow> [] | Some x \<Rightarrow> [x])
    @ somes (drop (Suc i) xs)"
proof -
  have "somes xs = somes (take i xs @ (xs ! i) # drop (Suc i) xs)"
    using assms by (simp add: Cons_nth_drop_Suc)
  then show ?thesis by (cases "xs ! i") simp_all
qed

lemma nth_update_if: "xs[i := y] ! j = (if i = j \<and> j < length xs then y else xs ! j)"
  by (cases "i < length xs") (auto simp: nth_list_update list_update_beyond)

lemma length_somes_update:
  assumes "i < length xs"
  shows "length (somes (xs[i := y])) + (if xs ! i = None then 0 else 1)
    = length (somes xs) + (if y = None then 0 else 1)"
  using assms somes_split [OF assms] somes_split [of i "xs[i := y]"]
  by (auto split: option.splits)

lemma length_somes_map_option:
  "i < length xs \<Longrightarrow> length (somes (xs[i := map_option f (xs ! i)])) = length (somes xs)"
  using length_somes_update [of i xs "map_option f (xs ! i)"] by (auto split: if_splits)

subsection \<open>Strings\<close>

text \<open>A string is the list of its code points (Rust's \<^verbatim>\<open>char\<close>s).\<close>

type_synonym ustring = "nat list"

definition str :: "string \<Rightarrow> ustring" where
  "str s = map of_char s"

definition ascii_lower :: "nat \<Rightarrow> nat" where
  "ascii_lower c = (if 0x41 \<le> c \<and> c \<le> 0x5A then c + 32 else c)"

definition ascii_upper :: "nat \<Rightarrow> nat" where
  "ascii_upper c = (if 0x61 \<le> c \<and> c \<le> 0x7A then c - 32 else c)"

definition is_ascii_whitespace :: "nat \<Rightarrow> bool" where
  "is_ascii_whitespace c \<longleftrightarrow> c = 32 \<or> c = 9 \<or> c = 10 \<or> c = 12 \<or> c = 13"

definition trim_matches :: "(nat \<Rightarrow> bool) \<Rightarrow> ustring \<Rightarrow> ustring" where
  "trim_matches P s = rev (dropWhile P (rev (dropWhile P s)))"

end
