(* ===== verification/ReuseList.thy ===== *)
theory ReuseList
  imports Prelude
begin

text \<open>
  \<^verbatim>\<open>libs/llrt_utils/src/reuse_list.rs\<close>: a vector of slots with a free list, in
  which \<^verbatim>\<open>llrt_net\<close> keeps the open sockets of a server.  The free list \<open>rl_slots\<close>
  holds one-based indices, zero marks an entry that was used up, and
  \<open>rl_last_slot_idx\<close> is where its top is thought to be.

  The section on the invariant shows that no index of the code is ever out of
  range; the abstract view \<open>rl_map\<close> shows that the structure is a finite map from
  slot numbers to values; the locale \<open>slot_store\<close> is the interface the clients
  rely on.
\<close>

record 'a reuse_list =
  rl_items :: "'a option list"
  rl_slots :: "nat list"
  rl_last_slot_idx :: nat
  rl_len :: nat
  rl_slot_size :: nat

definition rl_with_capacity :: "nat \<Rightarrow> 'a reuse_list" where
  "rl_with_capacity capacity =
     \<lparr>rl_items = [], rl_slots = [], rl_last_slot_idx = 0, rl_len = 0, rl_slot_size = 0\<rparr>"

definition rl_new :: "'a reuse_list" where
  "rl_new = rl_with_capacity 0"

definition rl_is_empty :: "'a reuse_list \<Rightarrow> bool" where
  "rl_is_empty l \<longleftrightarrow> rl_len l = 0"

text \<open>\<^verbatim>\<open>append\<close>: the reuse branch, and the push it falls through to.\<close>

definition rl_append :: "'a reuse_list \<Rightarrow> 'a \<Rightarrow> (nat \<times> 'a reuse_list) option" where
  "rl_append l item = do {
     reused \<leftarrow>
       (if 0 < rl_slot_size l then do {
          top \<leftarrow> usub (rl_last_slot_idx l) 1;
          slot \<leftarrow> index (rl_slots l) top;
          (if 0 < slot then do {
             its \<leftarrow> store (rl_items l) (slot - 1) (Some item);
             sls \<leftarrow> store (rl_slots l) top 0;
             Some (Some (slot - 1,
               l\<lparr>rl_items := its, rl_slots := sls,
                 rl_last_slot_idx :=
                   (if 1 < rl_last_slot_idx l then rl_last_slot_idx l - 1
                    else rl_last_slot_idx l),
                 rl_len := rl_len l + 1\<rparr>)) }
           else Some None) }
        else Some None);
     (case reused of
        Some r \<Rightarrow> Some r
      | None \<Rightarrow>
          (let l' = l\<lparr>rl_items := rl_items l @ [Some item], rl_len := rl_len l + 1\<rparr>
           in Some (length (rl_items l') - 1, l'))) }"

definition rl_remove :: "'a reuse_list \<Rightarrow> nat \<Rightarrow> ('a option \<times> 'a reuse_list) option" where
  "rl_remove l i =
     (if length (rl_items l) \<le> i then Some (None, l)
      else (let item = rl_items l ! i;
                l1 = l\<lparr>rl_items := (rl_items l)[i := None]\<rparr>
            in if item = None then Some (None, l1)
               else do {
                 top_free \<leftarrow>
                   (if 0 < rl_slot_size l1 then do {
                      top \<leftarrow> usub (rl_last_slot_idx l1) 1;
                      slot \<leftarrow> index (rl_slots l1) top;
                      Some (slot = 0) }
                    else Some False);
                 l2 \<leftarrow>
                   (if top_free then do {
                      sls \<leftarrow> store (rl_slots l1) (rl_last_slot_idx l1 - 1) (i + 1);
                      Some (l1\<lparr>rl_slots := sls\<rparr>) }
                    else Some (l1\<lparr>rl_slots := rl_slots l1 @ [i + 1],
                                 rl_last_slot_idx := rl_last_slot_idx l1 + 1,
                                 rl_slot_size := rl_slot_size l1 + 1\<rparr>));
                 n \<leftarrow> usub (rl_len l2) 1;
                 Some (item, l2\<lparr>rl_len := n\<rparr>) }))"

definition rl_get :: "'a reuse_list \<Rightarrow> nat \<Rightarrow> 'a option" where
  "rl_get l i = (if length (rl_items l) \<le> i then None else rl_items l ! i)"

text \<open>\<^verbatim>\<open>get_mut\<close> hands out a mutable reference; \<open>f\<close> is what the caller does to it.\<close>

definition rl_get_mut :: "('a \<Rightarrow> 'a) \<Rightarrow> 'a reuse_list \<Rightarrow> nat \<Rightarrow> 'a reuse_list" where
  "rl_get_mut f l i =
     (if length (rl_items l) \<le> i then l
      else l\<lparr>rl_items := (rl_items l)[i := map_option f (rl_items l ! i)]\<rparr>)"

definition rl_iter :: "'a reuse_list \<Rightarrow> 'a list" where
  "rl_iter l = somes (rl_items l)"

definition rl_iter_mut :: "('a \<Rightarrow> 'a) \<Rightarrow> 'a reuse_list \<Rightarrow> 'a reuse_list" where
  "rl_iter_mut f l = l\<lparr>rl_items := map (map_option f) (rl_items l)\<rparr>"

definition rl_clear :: "'a reuse_list \<Rightarrow> 'a reuse_list" where
  "rl_clear l = l\<lparr>rl_items := [], rl_slots := [], rl_last_slot_idx := 0, rl_len := 0,
     rl_slot_size := 0\<rparr>"

definition rl_optimize :: "'a reuse_list \<Rightarrow> 'a reuse_list" where
  "rl_optimize l = l\<lparr>rl_items := filter (\<lambda>a. a \<noteq> None) (rl_items l), rl_slots := [],
     rl_last_slot_idx := 0, rl_slot_size := 0\<rparr>"

subsection \<open>The invariant\<close>

text \<open>No slot number is listed twice in the free list.\<close>

definition once_listed :: "nat list \<Rightarrow> bool" where
  "once_listed xs \<longleftrightarrow>
     (\<forall>i j. i < length xs \<longrightarrow> j < length xs \<longrightarrow> i \<noteq> j \<longrightarrow> 0 < xs ! i \<longrightarrow> xs ! i \<noteq> xs ! j)"

definition rl_inv :: "'a reuse_list \<Rightarrow> bool" where
  "rl_inv l \<longleftrightarrow>
     rl_len l = length (somes (rl_items l)) \<and>
     rl_slot_size l = length (rl_slots l) \<and>
     (if rl_slots l = [] then rl_last_slot_idx l = 0
      else 1 \<le> rl_last_slot_idx l \<and> rl_last_slot_idx l \<le> length (rl_slots l)) \<and>
     once_listed (rl_slots l) \<and>
     (\<forall>i < length (rl_slots l). 0 < rl_slots l ! i \<longrightarrow>
        rl_slots l ! i - 1 < length (rl_items l) \<and> rl_items l ! (rl_slots l ! i - 1) = None)"

lemma once_listedD:
  "once_listed xs \<Longrightarrow> i < length xs \<Longrightarrow> j < length xs \<Longrightarrow> j \<noteq> i \<Longrightarrow> xs ! i = Suc k \<Longrightarrow> xs ! j \<noteq> Suc k"
  by (fastforce simp: once_listed_def)

lemma once_listed_zero: "once_listed xs \<Longrightarrow> once_listed (xs[i := 0])"
  by (auto simp: once_listed_def nth_update_if split: if_splits)

lemma once_listed_new: "once_listed xs \<Longrightarrow> v \<notin> set xs \<Longrightarrow> once_listed (xs[i := v])"
  by (auto simp: once_listed_def nth_update_if in_set_conv_nth split: if_splits)

lemma once_listed_snoc: "once_listed xs \<Longrightarrow> v \<notin> set xs \<Longrightarrow> once_listed (xs @ [v])"
  by (auto simp: once_listed_def nth_append in_set_conv_nth less_Suc_eq)

text \<open>A slot in use is not in the free list.\<close>

lemma used_not_listed:
  assumes "rl_inv l" "i < length (rl_items l)" "rl_items l ! i \<noteq> None"
  shows "Suc i \<notin> set (rl_slots l)"
  using assms by (auto simp: rl_inv_def in_set_conv_nth)

lemma rl_inv_new: "rl_inv rl_new"
  by (simp add: rl_new_def rl_with_capacity_def rl_inv_def once_listed_def)

lemma rl_inv_clear: "rl_inv (rl_clear l)"
  by (simp add: rl_clear_def rl_inv_def once_listed_def)

lemma rl_inv_optimize: "rl_inv l \<Longrightarrow> rl_inv (rl_optimize l)"
  by (simp add: rl_optimize_def rl_inv_def once_listed_def length_somes)

lemma rl_inv_get_mut: "rl_inv l \<Longrightarrow> rl_inv (rl_get_mut f l i)"
  by (auto simp: rl_get_mut_def rl_inv_def length_somes_map_option nth_update_if not_le)

lemma rl_inv_iter_mut: "rl_inv l \<Longrightarrow> rl_inv (rl_iter_mut f l)"
proof -
  have "length (somes (map (map_option f) xs)) = length (somes xs)" for xs :: "'a option list"
    by (induction xs rule: somes.induct) simp_all
  then show "rl_inv l \<Longrightarrow> rl_inv (rl_iter_mut f l)"
    by (auto simp: rl_iter_mut_def rl_inv_def)
qed

text \<open>
  Appending: the two branches of the code, under the invariant.  Either the top
  of the free list names an unused slot, or the value goes to a new last slot.
\<close>

lemma rl_append_cases:
  assumes "rl_inv l"
  obtains (reuse) i where "i < length (rl_items l)" "rl_items l ! i = None"
      "0 < rl_slot_size l" "rl_slots l ! (rl_last_slot_idx l - 1) = Suc i"
      "rl_last_slot_idx l - 1 < length (rl_slots l)"
      "rl_append l x = Some (i, l\<lparr>rl_items := (rl_items l)[i := Some x],
         rl_slots := (rl_slots l)[rl_last_slot_idx l - 1 := 0],
         rl_last_slot_idx := (if 1 < rl_last_slot_idx l then rl_last_slot_idx l - 1
           else rl_last_slot_idx l), rl_len := rl_len l + 1\<rparr>)"
    | (push) "rl_append l x = Some (length (rl_items l),
         l\<lparr>rl_items := rl_items l @ [Some x], rl_len := rl_len l + 1\<rparr>)"
proof (cases "0 < rl_slot_size l \<and> 0 < rl_slots l ! (rl_last_slot_idx l - 1)")
  case True
  let ?t = "rl_last_slot_idx l - 1"
  obtain i where i: "rl_slots l ! ?t = Suc i"
    using True gr0_implies_Suc by blast
  have t: "?t < length (rl_slots l)" "1 \<le> rl_last_slot_idx l"
    using assms True by (auto simp: rl_inv_def split: if_splits)
  then have "i < length (rl_items l)" "rl_items l ! i = None"
    using assms i by (auto simp: rl_inv_def)
  with True i t show thesis
    by (intro reuse [of i]) (auto simp: rl_append_def rust_simps)
next
  case False
  have "rl_last_slot_idx l - 1 < length (rl_slots l) \<and> 1 \<le> rl_last_slot_idx l"
    if "0 < rl_slot_size l"
    using assms that by (auto simp: rl_inv_def split: if_splits)
  with False show thesis
    by (intro push) (auto simp: rl_append_def rust_simps Let_def)
qed

lemma rl_append_inv:
  assumes "rl_inv l" "rl_append l x = Some (i, l')"
  shows "rl_inv l'"
  using assms(1)
proof (cases rule: rl_append_cases [where x = x])
  case (reuse k)
  let ?t = "rl_last_slot_idx l - 1"
  have "\<forall>j. j < length (rl_slots l) \<longrightarrow> j \<noteq> ?t \<longrightarrow> 0 < rl_slots l ! j \<longrightarrow> k \<noteq> rl_slots l ! j - Suc 0"
  proof (intro allI impI notI)
    fix j
    assume j: "j < length (rl_slots l)" "j \<noteq> ?t" "0 < rl_slots l ! j" "k = rl_slots l ! j - Suc 0"
    have "rl_slots l ! j \<noteq> Suc k"
      using assms(1) reuse j by (intro once_listedD [of _ ?t]) (auto simp: rl_inv_def)
    with j show False by simp
  qed
  moreover have "length (somes ((rl_items l)[k := Some x])) = Suc (length (somes (rl_items l)))"
    using length_somes_update [of k "rl_items l" "Some x"] reuse by simp
  ultimately show ?thesis
    using assms reuse
    by (auto simp: rl_inv_def once_listed_zero nth_update_if split: if_splits)
next
  case push
  with assms show ?thesis
    by (auto simp: rl_inv_def nth_append split: if_splits)
qed

lemma rl_append_map:
  assumes "rl_inv l" "rl_append l x = Some (i, l')"
  shows "rl_get l i = None \<and> rl_get l' = (rl_get l)(i \<mapsto> x)"
  using assms(1)
proof (cases rule: rl_append_cases [where x = x])
  case (reuse k)
  with assms show ?thesis by (auto simp: rl_get_def fun_eq_iff nth_update_if)
next
  case push
  with assms show ?thesis by (auto simp: rl_get_def fun_eq_iff nth_append less_Suc_eq_le)
qed

text \<open>Removing: nothing to do, or one of the two ways of recording the free slot.\<close>

lemma rl_remove_cases:
  assumes "rl_inv l"
  obtains (absent) "rl_get l i = None" "rl_remove l i = Some (None, l)"
    | (top) v where "rl_get l i = Some v" "i < length (rl_items l)" "rl_items l ! i = Some v"
      "rl_last_slot_idx l - 1 < length (rl_slots l)" "rl_slots l ! (rl_last_slot_idx l - 1) = 0"
      "rl_remove l i = Some (Some v, l\<lparr>rl_items := (rl_items l)[i := None],
         rl_slots := (rl_slots l)[rl_last_slot_idx l - 1 := Suc i], rl_len := rl_len l - 1\<rparr>)"
    | (grow) v where "rl_get l i = Some v" "i < length (rl_items l)" "rl_items l ! i = Some v"
      "rl_remove l i = Some (Some v, l\<lparr>rl_items := (rl_items l)[i := None],
         rl_slots := rl_slots l @ [Suc i], rl_last_slot_idx := rl_last_slot_idx l + 1,
         rl_slot_size := rl_slot_size l + 1, rl_len := rl_len l - 1\<rparr>)"
proof (cases "rl_get l i")
  case None
  then show thesis
    by (intro absent) (auto simp: rl_remove_def rl_get_def Let_def list_update_same_conv split: if_splits)
next
  case (Some v)
  then have i: "i < length (rl_items l)" "rl_items l ! i = Some v"
    by (auto simp: rl_get_def split: if_splits)
  then have "v \<in> set (somes (rl_items l))"
    by (auto simp: set_somes in_set_conv_nth intro: exI [of _ i])
  then have len: "1 \<le> rl_len l"
    using assms by (cases "somes (rl_items l)") (auto simp: rl_inv_def)
  have idx: "rl_last_slot_idx l - 1 < length (rl_slots l)" "1 \<le> rl_last_slot_idx l"
    if "0 < rl_slot_size l"
    using assms that by (auto simp: rl_inv_def split: if_splits)
  show thesis
  proof (cases "0 < rl_slot_size l \<and> rl_slots l ! (rl_last_slot_idx l - 1) = 0")
    case True
    with Some i idx len show thesis
      by (intro top [of v]) (auto simp: rl_remove_def rust_simps)
  next
    case False
    with Some i idx len show thesis
      by (cases "0 < rl_slot_size l"; intro grow [of v])
        (auto simp: rl_remove_def rust_simps Let_def)
  qed
qed

lemma rl_remove_inv:
  assumes "rl_inv l" "rl_remove l i = Some (r, l')"
  shows "rl_inv l'"
  using assms(1)
proof (cases rule: rl_remove_cases [where i = i])
  case absent
  with assms show ?thesis by simp
next
  case (top v)
  have "Suc i \<notin> set (rl_slots l)"
    using assms(1) top(2,3) by (intro used_not_listed) auto
  then have "once_listed ((rl_slots l)[rl_last_slot_idx l - 1 := Suc i])"
    using assms(1) by (intro once_listed_new) (auto simp: rl_inv_def)
  moreover have "Suc (length (somes ((rl_items l)[i := None]))) = length (somes (rl_items l))"
    using length_somes_update [of i "rl_items l" None] top by simp
  ultimately show ?thesis
    using assms top by (auto simp: rl_inv_def nth_update_if split: if_splits)
next
  case (grow v)
  have "Suc i \<notin> set (rl_slots l)"
    using assms(1) grow(2,3) by (intro used_not_listed) auto
  then have "once_listed (rl_slots l @ [Suc i])"
    using assms(1) by (intro once_listed_snoc) (auto simp: rl_inv_def)
  moreover have "Suc (length (somes ((rl_items l)[i := None]))) = length (somes (rl_items l))"
    using length_somes_update [of i "rl_items l" None] grow by simp
  ultimately show ?thesis
    using assms grow by (auto simp: rl_inv_def nth_update_if nth_append split: if_splits)
qed

lemma rl_remove_map:
  assumes "rl_inv l" "rl_remove l i = Some (r, l')"
  shows "r = rl_get l i \<and> rl_get l' = (rl_get l)(i := None)"
  using assms(1)
proof (cases rule: rl_remove_cases [where i = i])
  case absent
  with assms show ?thesis by (auto simp: fun_upd_idem)
next
  case (top v)
  with assms show ?thesis by (auto simp: rl_get_def fun_eq_iff nth_update_if)
next
  case (grow v)
  with assms show ?thesis by (auto simp: rl_get_def fun_eq_iff nth_update_if)
qed

lemma rl_append_total:
  assumes "rl_inv l"
  shows "\<exists>i l'. rl_append l x = Some (i, l')"
  using assms by (cases rule: rl_append_cases [where x = x]) blast+

lemma rl_remove_total:
  assumes "rl_inv l"
  shows "\<exists>r l'. rl_remove l i = Some (r, l')"
  using assms by (cases rule: rl_remove_cases [where i = i]) blast+

subsection \<open>The interface the clients use\<close>

text \<open>
  A server keeps the index \<^verbatim>\<open>append\<close> gave it for a socket and later calls
  \<^verbatim>\<open>remove\<close> with it.  What it relies on is stated over any two operations of this
  shape: a new index is unused, and the store behaves as a finite map.
\<close>

datatype 'a slot_op = SlotAppend 'a | SlotRemove nat

fun exec_slots ::
  "('s \<Rightarrow> 'a \<Rightarrow> (nat \<times> 's) option) \<Rightarrow> ('s \<Rightarrow> nat \<Rightarrow> ('a option \<times> 's) option) \<Rightarrow>
   's \<Rightarrow> 'a slot_op list \<Rightarrow> 's option" where
  "exec_slots ins del s [] = Some s"
| "exec_slots ins del s (SlotAppend x # ops) =
     (case ins s x of None \<Rightarrow> None | Some (_, s') \<Rightarrow> exec_slots ins del s' ops)"
| "exec_slots ins del s (SlotRemove i # ops) =
     (case del s i of None \<Rightarrow> None | Some (_, s') \<Rightarrow> exec_slots ins del s' ops)"

locale slot_store =
  fixes ins :: "'s \<Rightarrow> 'a \<Rightarrow> (nat \<times> 's) option"
    and del :: "'s \<Rightarrow> nat \<Rightarrow> ('a option \<times> 's) option"
    and lookup :: "'s \<Rightarrow> nat \<Rightarrow> 'a option"
    and invar :: "'s \<Rightarrow> bool"
  assumes ins_total: "invar s \<Longrightarrow> \<exists>i s'. ins s x = Some (i, s')"
    and ins_invar: "invar s \<Longrightarrow> ins s x = Some (i, s') \<Longrightarrow> invar s'"
    and ins_lookup: "invar s \<Longrightarrow> ins s x = Some (i, s') \<Longrightarrow>
      lookup s i = None \<and> lookup s' = (lookup s)(i \<mapsto> x)"
    and del_total: "invar s \<Longrightarrow> \<exists>r s'. del s i = Some (r, s')"
    and del_invar: "invar s \<Longrightarrow> del s i = Some (r, s') \<Longrightarrow> invar s'"
    and del_lookup: "invar s \<Longrightarrow> del s i = Some (r, s') \<Longrightarrow>
      r = lookup s i \<and> lookup s' = (lookup s)(i := None)"
begin

lemma exec_total: "invar s \<Longrightarrow> \<exists>s'. exec_slots ins del s ops = Some s' \<and> invar s'"
proof (induction ops arbitrary: s)
  case Nil
  then show ?case by simp
next
  case (Cons p ops)
  show ?case
  proof (cases p)
    case (SlotAppend x)
    with Cons show ?thesis using ins_total [of s x] ins_invar [of s x] by fastforce
  next
    case (SlotRemove i)
    with Cons show ?thesis using del_total [of s i] del_invar [of s i] by fastforce
  qed
qed

lemma exec_keeps:
  "invar s \<Longrightarrow> lookup s i = Some v \<Longrightarrow> SlotRemove i \<notin> set ops \<Longrightarrow>
   exec_slots ins del s ops = Some s' \<Longrightarrow> lookup s' i = Some v"
proof (induction ops arbitrary: s)
  case Nil
  then show ?case by simp
next
  case (Cons p ops)
  show ?case
  proof (cases p)
    case (SlotAppend x)
    with Cons obtain j s1 where "ins s x = Some (j, s1)" "exec_slots ins del s1 ops = Some s'"
      by (auto split: option.splits)
    with Cons SlotAppend show ?thesis
      using ins_invar [of s x j s1] ins_lookup [of s x j s1] by (intro Cons.IH [of s1]) auto
  next
    case (SlotRemove j)
    with Cons obtain r s1 where "del s j = Some (r, s1)" "exec_slots ins del s1 ops = Some s'"
      by (auto split: option.splits)
    with Cons SlotRemove show ?thesis
      using del_invar [of s j r s1] del_lookup [of s j r s1] by (intro Cons.IH [of s1]) auto
  qed
qed

lemma insert_then_remove:
  assumes "invar s" "ins s x = Some (i, s1)" "SlotRemove i \<notin> set ops"
    and "exec_slots ins del s1 ops = Some s2"
  shows "\<exists>s3. del s2 i = Some (Some x, s3)"
proof -
  have "invar s1" and "lookup s1 i = Some x"
    using ins_invar [OF assms(1,2)] ins_lookup [OF assms(1,2)] by simp_all
  then have "lookup s2 i = Some x"
    using assms(3,4) by (rule exec_keeps)
  moreover have "invar s2"
    using exec_total [OF \<open>invar s1\<close>, of ops] assms(4) by simp
  ultimately show ?thesis
    using del_total [of s2 i] del_lookup [of s2 i] by auto
qed

end

interpretation reuse: slot_store rl_append rl_remove rl_get rl_inv
proof unfold_locales
  fix l :: "'a reuse_list" and x
  assume "rl_inv l"
  then show "\<exists>i l'. rl_append l x = Some (i, l')" by (rule rl_append_total)
next
  fix l :: "'a reuse_list" and i
  assume "rl_inv l"
  then show "\<exists>r l'. rl_remove l i = Some (r, l')" by (rule rl_remove_total)
qed (auto dest: rl_append_inv rl_remove_inv rl_append_map rl_remove_map)

subsection \<open>Properties\<close>

datatype 'a rl_op =
    RlAppend 'a | RlRemove nat | RlGetMut "'a \<Rightarrow> 'a" nat | RlIterMut "'a \<Rightarrow> 'a" | RlClear | RlOptimize

fun rl_step :: "'a reuse_list \<Rightarrow> 'a rl_op \<Rightarrow> 'a reuse_list option" where
  "rl_step l (RlAppend x) = map_option snd (rl_append l x)"
| "rl_step l (RlRemove i) = map_option snd (rl_remove l i)"
| "rl_step l (RlGetMut f i) = Some (rl_get_mut f l i)"
| "rl_step l (RlIterMut f) = Some (rl_iter_mut f l)"
| "rl_step l RlClear = Some (rl_clear l)"
| "rl_step l RlOptimize = Some (rl_optimize l)"

fun rl_exec :: "'a reuse_list \<Rightarrow> 'a rl_op list \<Rightarrow> 'a reuse_list option" where
  "rl_exec l [] = Some l"
| "rl_exec l (p # ps) = (case rl_step l p of None \<Rightarrow> None | Some l' \<Rightarrow> rl_exec l' ps)"

lemma rl_step_inv: "rl_inv l \<Longrightarrow> \<exists>l'. rl_step l p = Some l' \<and> rl_inv l'"
proof (cases p)
  case (RlAppend x)
  assume "rl_inv l"
  with RlAppend show ?thesis
    using rl_append_total [of l x] rl_append_inv [of l x] by auto
next
  case (RlRemove i)
  assume "rl_inv l"
  with RlRemove show ?thesis
    using rl_remove_total [of l i] rl_remove_inv [of l i] by auto
qed (simp_all add: rl_inv_get_mut rl_inv_iter_mut rl_inv_clear rl_inv_optimize)

lemma rl_exec_inv: "rl_inv l \<Longrightarrow> \<exists>l'. rl_exec l ps = Some l' \<and> rl_inv l'"
proof (induction ps arbitrary: l)
  case (Cons p ps)
  then show ?case using rl_step_inv [of l p] by auto
qed simp

lemma rl_dom_finite: "dom (rl_get l) \<subseteq> {..< length (rl_items l)}"
  by (auto simp: rl_get_def dom_def)

lemma card_dom_somes:
  "card {i. i < length xs \<and> xs ! i \<noteq> None} = length (somes xs)"
  by (simp add: length_somes length_filter_conv_card conj_commute)

lemma rl_len_card: "rl_inv l \<Longrightarrow> rl_len l = card (dom (rl_get l))"
proof -
  assume "rl_inv l"
  moreover have "dom (rl_get l) = {i. i < length (rl_items l) \<and> rl_items l ! i \<noteq> None}"
    by (auto simp: rl_get_def dom_def)
  ultimately show ?thesis
    using card_dom_somes [of "rl_items l"] by (simp add: rl_inv_def)
qed

text \<open>
  (C12) A list built by any sequence of appends, removals, in-place updates,
  clears and compactions never indexes out of range, and its cached length is
  the number of slots in use.
\<close>

theorem rl_exec_safe:
  "\<exists>l. rl_exec rl_new ps = Some l \<and> rl_inv l \<and> rl_len l = card (dom (rl_get l))
     \<and> rl_len l = length (rl_iter l)"
proof -
  obtain l where "rl_exec rl_new ps = Some l" "rl_inv l"
    using rl_exec_inv [OF rl_inv_new, of ps] by blast
  then show ?thesis
    using rl_len_card [of l] by (auto simp: rl_iter_def rl_inv_def)
qed



text \<open>
  Compaction keeps the stored values in their order and the length, and
  leaves no unused slot.
\<close>

lemma rl_optimize_compacts:
  "rl_iter (rl_optimize l) = rl_iter l \<and> rl_len (rl_optimize l) = rl_len l
     \<and> rl_items (rl_optimize l) = map Some (rl_iter l)"
proof -
  have "filter (\<lambda>a. a \<noteq> None) xs = map Some (somes xs)" for xs :: "'a option list"
    by (induction xs rule: somes.induct) simp_all
  then show ?thesis by (simp add: rl_optimize_def rl_iter_def)
qed

text \<open>
  The free list loses track of free slots: after slots 0 and 1 have been
  freed, refilled and freed again, both are unused, yet the next append does not
  take either of them but extends the vector.
\<close>

lemma rl_free_slots_not_reused:
  "\<exists>l l'. rl_exec rl_new [RlAppend (0::int), RlAppend 1, RlAppend 2, RlRemove 0, RlRemove 1,
       RlAppend 3, RlAppend 4, RlRemove 0, RlRemove 1] = Some l
     \<and> rl_get l 0 = None \<and> rl_get l 1 = None \<and> rl_append l 5 = Some (3, l')
     \<and> length (rl_items l') = 4"
proof -
  let ?l = "\<lparr>rl_items = [None, None, Some (2::int)], rl_slots = [1, 0, 2],
    rl_last_slot_idx = 2, rl_len = 1, rl_slot_size = 3\<rparr>"
  let ?l' = "\<lparr>rl_items = [None, None, Some 2, Some (5::int)], rl_slots = [1, 0, 2],
    rl_last_slot_idx = 2, rl_len = 2, rl_slot_size = 3\<rparr>"
  have "rl_exec rl_new [RlAppend (0::int), RlAppend 1, RlAppend 2, RlRemove 0, RlRemove 1,
       RlAppend 3, RlAppend 4, RlRemove 0, RlRemove 1] = Some ?l" by code_simp
  moreover have "rl_get ?l 0 = None" "rl_get ?l 1 = None" "rl_append ?l 5 = Some (3, ?l')"
    by code_simp+
  ultimately show ?thesis by force
qed

end
