(* ===== verification/JsonEscape.thy ===== *)
theory JsonEscape
  imports Prelude
begin

text \<open>
  \<^verbatim>\<open>libs/llrt_json/src/escape.rs\<close>: the escaper behind \<^verbatim>\<open>JSON.stringify\<close>.  It walks
  the bytes of a WTF-8 string eight at a time, finds the bytes that need escaping
  with a SWAR mask on a 64-bit word, and copies the stretches in between.

  The operations are translated with their cursor state (\<open>esc_state\<close>); the
  unchecked slice accesses of the code are guarded here, so that \<open>None\<close> would be
  undefined behaviour.  \<open>json_escape\<close> is the reference: one byte (or one surrogate)
  after the other.  The main results are that the SWAR code computes the reference
  on every input, and that the reference is undone by a JSON string reader.
\<close>

unbundle bit_operations_syntax

subsection \<open>Tables\<close>

definition JSON_ESCAPE_CHARS :: "nat list" where
  "JSON_ESCAPE_CHARS = [0..<32] @ [34, 34, 32] @ replicate 57 34 @ [33] @ replicate 163 34"

definition hex_digit :: "u8 \<Rightarrow> u8" where
  "hex_digit h = (if h < 10 then 0x30 + h else 0x61 + h - 10)"

definition u_escape :: "nat \<Rightarrow> u8 list" where
  "u_escape n = [0x5C, 0x75, 0x30, 0x30, hex_digit (of_nat (n div 16)), hex_digit (of_nat (n mod 16))]"

definition JSON_ESCAPE_QUOTES :: "u8 list list" where
  "JSON_ESCAPE_QUOTES =
     map u_escape [0..<8] @
     [[0x5C, 0x62], [0x5C, 0x74], [0x5C, 0x6E], u_escape 11, [0x5C, 0x66], [0x5C, 0x72]] @
     map u_escape [14..<32] @ [[0x5C, 0x22], [0x5C, 0x5C]]"

definition ESCAPE_LEN :: nat where
  "ESCAPE_LEN = 34"

subsection \<open>The cursor state and one byte\<close>

record esc_state =
  es_result :: "u8 list"
  es_i :: nat
  es_start :: nat

text \<open>The four hexadecimal digits of a 16-bit code point, most significant first.\<close>

definition surrogate_code_point :: "u8 \<Rightarrow> u8 \<Rightarrow> u8 \<Rightarrow> u16" where
  "surrogate_code_point b0 b1 b2 =
     push_bit 12 (ucast b0 AND 0x0F) OR push_bit 6 (ucast b1 AND 0x3F) OR (ucast b2 AND 0x3F)"

definition surrogate_hex :: "u16 \<Rightarrow> u8 list" where
  "surrogate_hex cp = map hex_digit
     [ucast (drop_bit 12 cp), ucast (drop_bit 8 cp AND 0xF), ucast (drop_bit 4 cp AND 0xF),
      ucast (cp AND 0xF)]"

definition write_surrogate_escape :: "u8 list \<Rightarrow> u8 list \<Rightarrow> nat \<Rightarrow> (u8 list \<times> nat) option" where
  "write_surrogate_escape result bytes i = do {
     b0 \<leftarrow> index bytes i;
     b1 \<leftarrow> index bytes (i + 1);
     b2 \<leftarrow> index bytes (i + 2);
     Some (result @ [0x5C, 0x75] @ surrogate_hex (surrogate_code_point b0 b1 b2), 3) }"

definition process_byte :: "u8 list \<Rightarrow> u8 \<Rightarrow> esc_state \<Rightarrow> esc_state option" where
  "process_byte bytes byte st = do {
     c \<leftarrow> index JSON_ESCAPE_CHARS (unat byte);
     (if c < ESCAPE_LEN then do {
        esc \<leftarrow> index JSON_ESCAPE_QUOTES c;
        pending \<leftarrow> slice bytes (es_start st) (es_i st);
        Some \<lparr>es_result = es_result st @ pending @ esc, es_i = es_i st + 1, es_start = es_i st + 1\<rparr> }
      else if byte = 0xED \<and> es_i st + 2 < length bytes \<and> 0xA0 \<le> (bytes ! (es_i st + 1)) AND 0xF0
      then do {
        flushed \<leftarrow> (if es_start st < es_i st then slice bytes (es_start st) (es_i st) else Some []);
        (result, n) \<leftarrow> write_surrogate_escape (es_result st @ flushed) bytes (es_i st);
        Some \<lparr>es_result = result, es_i = es_i st + n, es_start = es_i st + n\<rparr> }
      else Some (st\<lparr>es_i := es_i st + 1\<rparr>)) }"

lemma process_byte_advances: "process_byte bytes b st = Some st' \<Longrightarrow> es_i st < es_i st'"
  by (auto simp: process_byte_def write_surrogate_escape_def bind_eq_Some_conv split: if_splits)

subsection \<open>The SWAR mask\<close>

definition u64_from_le_bytes :: "u8 list \<Rightarrow> u64" where
  "u64_from_le_bytes bs = foldr (\<lambda>b acc. ucast b OR push_bit 8 acc) bs 0"

abbreviation SWAR_ONES :: u64 where "SWAR_ONES \<equiv> 0x0101010101010101"
abbreviation SWAR_HIGH :: u64 where "SWAR_HIGH \<equiv> 0x8080808080808080"

definition chunk_escape_mask :: "u8 list \<Rightarrow> u64" where
  "chunk_escape_mask chunk =
     (let x = u64_from_le_bytes chunk;
          lt32 = (x - 0x20 * SWAR_ONES) AND NOT x;
          eq34 = (let y = x XOR (0x22 * SWAR_ONES) in (y - SWAR_ONES) AND NOT y);
          eq92 = (let y = x XOR (0x5C * SWAR_ONES) in (y - SWAR_ONES) AND NOT y);
          eqed = (let y = x XOR (0xED * SWAR_ONES) in (y - SWAR_ONES) AND NOT y)
      in (lt32 OR eq34 OR eq92 OR eqed) AND SWAR_HIGH)"

definition trailing_zeros :: "u64 \<Rightarrow> nat" where
  "trailing_zeros m = length (takeWhile (\<lambda>n. \<not> bit m n) [0..<64])"

definition count_ones :: "u64 \<Rightarrow> nat" where
  "count_ones m = length (filter (bit m) [0..<64])"

lemma trailing_zeros_bit:
  assumes "m \<noteq> 0"
  shows "trailing_zeros m < 64" "bit m (trailing_zeros m)" "\<And>n. n < trailing_zeros m \<Longrightarrow> \<not> bit m n"
proof -
  obtain n where n: "n < 64" "bit m n"
    using assms by (auto simp: bit_eq_iff dest: bit_imp_le_length)
  let ?P = "\<lambda>n. \<not> bit m n"
  have lt: "length (takeWhile ?P [0..<64]) < length [0..<64::nat]"
  proof (rule ccontr)
    assume "\<not> ?thesis"
    then have "takeWhile ?P [0..<64] = [0..<64]"
      by (metis length_takeWhile_le linorder_neqE_nat not_less takeWhile_eq_take take_all)
    then have "\<forall>x \<in> set [0..<64]. ?P x" by (metis takeWhile_eq_all_conv)
    with n show False by simp
  qed
  then show "trailing_zeros m < 64" by (simp add: trailing_zeros_def)
  show "bit m (trailing_zeros m)"
    using nth_length_takeWhile [OF lt] lt by (simp add: trailing_zeros_def)
  fix k
  assume "k < trailing_zeros m"
  then have "takeWhile ?P [0..<64] ! k \<in> set (takeWhile ?P [0..<64])" and k: "k < length (takeWhile ?P [0..<64])"
    by (auto simp: trailing_zeros_def)
  then have "?P (takeWhile ?P [0..<64] ! k)" using set_takeWhileD [of _ ?P "[0..<64]"] by blast
  moreover have "takeWhile ?P [0..<64] ! k = k"
    using k lt by (simp add: takeWhile_nth)
  ultimately show "\<not> bit m k" by simp
qed

subsection \<open>A half: eight bytes swept by their mask\<close>

text \<open>\<^verbatim>\<open>(!0u64).checked_shl(n).unwrap_or(0)\<close>.\<close>

definition ones_from :: "nat \<Rightarrow> u64" where
  "ones_from n = (if n < 64 then push_bit n (- 1) else 0)"

lemma bit_ones_from [simp]: "bit (ones_from n) k \<longleftrightarrow> n \<le> k \<and> k < 64"
  by (auto simp: ones_from_def bit_not_iff bit_mask_iff possible_bit_def)

text \<open>The loop \<^verbatim>\<open>while m != 0\<close>; every round clears the lowest bit of the mask.\<close>

function dirty_loop :: "u8 list \<Rightarrow> nat \<Rightarrow> u64 \<Rightarrow> esc_state \<Rightarrow> esc_state option" where
  "dirty_loop bytes half_start m st =
     (if m = 0 then Some st
      else do {
        let st1 = st\<lparr>es_i := half_start + trailing_zeros m div 8\<rparr>;
        byte \<leftarrow> index bytes (es_i st1);
        st2 \<leftarrow> process_byte bytes byte st1;
        consumed \<leftarrow> usub (es_i st2) half_start;
        dirty_loop bytes half_start (m AND ones_from (consumed * 8)) st2 })"
  by pat_completeness auto
termination
proof (relation "measure (\<lambda>(bytes, half_start, m, st). unat m)", simp)
  fix bytes :: "u8 list" and half_start m and st st1 st2 :: esc_state and byte consumed
  assume m: "m \<noteq> 0" and st1: "st1 = st\<lparr>es_i := half_start + trailing_zeros m div 8\<rparr>"
    and "process_byte bytes byte st1 = Some st2" and c: "usub (es_i st2) half_start = Some consumed"
  then have "es_i st1 < es_i st2" by (intro process_byte_advances)
  with st1 c have "trailing_zeros m div 8 < consumed" by auto
  then have lt: "trailing_zeros m < consumed * 8" by simp
  have "m AND ones_from (consumed * 8) \<noteq> m"
  proof
    assume "m AND ones_from (consumed * 8) = m"
    then have "bit (m AND ones_from (consumed * 8)) (trailing_zeros m)"
      using trailing_zeros_bit(2) [OF m] by simp
    with lt show False by (simp add: bit_and_iff)
  qed
  moreover have "m AND ones_from (consumed * 8) \<le> m"
    by (rule word_and_le2)
  ultimately show "((bytes, half_start, m AND ones_from (consumed * 8), st2), bytes, half_start, m, st)
      \<in> measure (\<lambda>(bytes, half_start, m, st). unat m)"
    by (simp add: word_le_nat_alt word_unat_eq_iff order.strict_iff_order)
qed

declare dirty_loop.simps [simp del]

definition process_dirty_half :: "u8 list \<Rightarrow> nat \<Rightarrow> u64 \<Rightarrow> esc_state \<Rightarrow> esc_state option" where
  "process_dirty_half bytes half_start msk st =
     (let half_end = half_start + 8 in
      if msk = 0 then Some (st\<lparr>es_i := max (es_i st) half_end\<rparr>)
      else do {
        d \<leftarrow> usub (es_i st) half_start;
        guard (d * 8 < 64);
        let m = msk AND push_bit (d * 8) (- 1);
        (if count_ones m = 1 then do {
           let st1 = st\<lparr>es_i := half_start + trailing_zeros m div 8\<rparr>;
           byte \<leftarrow> index bytes (es_i st1);
           st2 \<leftarrow> process_byte bytes byte st1;
           Some (st2\<lparr>es_i := max (es_i st2) half_end\<rparr>) }
         else do {
           st2 \<leftarrow> dirty_loop bytes half_start m st;
           Some (st2\<lparr>es_i := max (es_i st2) half_end\<rparr>) }) })"

subsection \<open>The whole string\<close>

definition chunk_at :: "u8 list \<Rightarrow> nat \<Rightarrow> u8 list" where
  "chunk_at bytes p = take 8 (drop p bytes)"

text \<open>A run of halves, the unrolled dispatch of a 64-byte chunk and the sweep of the tail.\<close>

fun process_halves :: "u8 list \<Rightarrow> nat list \<Rightarrow> esc_state \<Rightarrow> esc_state option" where
  "process_halves bytes [] st = Some st"
| "process_halves bytes (p # ps) st =
     do { st' \<leftarrow> process_dirty_half bytes p (chunk_escape_mask (chunk_at bytes p)) st;
          process_halves bytes ps st' }"

definition half_offsets :: "nat list" where
  "half_offsets = [0, 8, 16, 24, 32, 40, 48, 56]"

definition process_chunk64 :: "u8 list \<Rightarrow> nat \<Rightarrow> esc_state \<Rightarrow> esc_state option" where
  "process_chunk64 bytes base st =
     (if foldr (\<lambda>off acc. chunk_escape_mask (chunk_at bytes (base + off)) OR acc) half_offsets 0 = 0
      then Some (st\<lparr>es_i := base + 64\<rparr>)
      else process_halves bytes (map (\<lambda>off. base + off) half_offsets) st)"

fun process_chunks64 :: "u8 list \<Rightarrow> nat \<Rightarrow> nat \<Rightarrow> esc_state \<Rightarrow> esc_state option" where
  "process_chunks64 bytes base 0 st = Some st"
| "process_chunks64 bytes base (Suc n) st =
     do { st' \<leftarrow> process_chunk64 bytes base st; process_chunks64 bytes (base + 64) n st' }"

text \<open>\<^verbatim>\<open>while i < len\<close>.\<close>

function process_rest :: "u8 list \<Rightarrow> esc_state \<Rightarrow> esc_state option" where
  "process_rest bytes st =
     (if es_i st < length bytes then do {
        st' \<leftarrow> process_byte bytes (bytes ! es_i st) st;
        process_rest bytes st' }
      else Some st)"
  by pat_completeness auto
termination
  by (relation "measure (\<lambda>(bytes, st). length bytes - es_i st)")
    (auto dest: process_byte_advances)

declare process_rest.simps [simp del]

definition escape_json_string_simple :: "u8 list \<Rightarrow> u8 list \<Rightarrow> u8 list option" where
  "escape_json_string_simple result bytes = do {
     let n64 = length bytes div 64;
     let base = n64 * 64;
     st1 \<leftarrow> process_chunks64 bytes 0 n64 \<lparr>es_result = result, es_i = 0, es_start = 0\<rparr>;
     st2 \<leftarrow> process_halves bytes (map (\<lambda>k. base + k * 8) [0..<(length bytes - base) div 8]) st1;
     st3 \<leftarrow> process_rest bytes st2;
     (if es_start st3 < length bytes then do {
        pending \<leftarrow> slice bytes (es_start st3) (length bytes);
        Some (es_result st3 @ pending) }
      else Some (es_result st3)) }"

definition escape_json_string :: "u8 list \<Rightarrow> u8 list \<Rightarrow> u8 list option" where
  "escape_json_string result bytes = escape_json_string_simple result bytes"

definition escape_json :: "u8 list \<Rightarrow> u8 list option" where
  "escape_json bytes = escape_json_string [] bytes"

subsection \<open>The reference escaper\<close>

text \<open>What RFC 8259 asks of one byte: quotation mark, backslash and the control
  characters are escaped, with the two-character form where there is one.\<close>

definition needs_escape :: "u8 \<Rightarrow> bool" where
  "needs_escape b \<longleftrightarrow> b < 0x20 \<or> b = 0x22 \<or> b = 0x5C"

definition byte_escape :: "u8 \<Rightarrow> u8 list" where
  "byte_escape b =
     (if b = 0x22 then [0x5C, 0x22]
      else if b = 0x5C then [0x5C, 0x5C]
      else if b = 0x08 then [0x5C, 0x62]
      else if b = 0x09 then [0x5C, 0x74]
      else if b = 0x0A then [0x5C, 0x6E]
      else if b = 0x0C then [0x5C, 0x66]
      else if b = 0x0D then [0x5C, 0x72]
      else u_escape (unat b))"

definition starts_surrogate :: "u8 list \<Rightarrow> bool" where
  "starts_surrogate bs \<longleftrightarrow> 2 < length bs \<and> bs ! 0 = 0xED \<and> 0xA0 \<le> bs ! 1 AND 0xF0"

fun json_escape :: "u8 list \<Rightarrow> u8 list" where
  "json_escape [] = []"
| "json_escape (b # bs) =
     (if needs_escape b then byte_escape b @ json_escape bs
      else if starts_surrogate (b # bs)
      then [0x5C, 0x75] @ surrogate_hex (surrogate_code_point b (bs ! 0) (bs ! 1)) @ json_escape (drop 2 bs)
      else b # json_escape bs)"

declare json_escape.simps(2) [simp del]

definition plain :: "u8 \<Rightarrow> bool" where
  "plain b \<longleftrightarrow> \<not> needs_escape b \<and> b \<noteq> 0xED"

lemma json_escape_plain: "(\<forall>b \<in> set xs. plain b) \<Longrightarrow> json_escape (xs @ ys) = xs @ json_escape ys"
  by (induction xs) (auto simp: json_escape.simps(2) plain_def starts_surrogate_def)

subsection \<open>The tables say what the reference says\<close>

lemma escape_chars_table: "index JSON_ESCAPE_CHARS (unat b) =
   Some (if b < 0x20 then unat b else if b = 0x22 then 32 else if b = 0x5C then 33 else 34)" for b :: u8
proof -
  have "unat b < 256" by (rule unat_u8)
  then show ?thesis
    by (auto simp: index_def JSON_ESCAPE_CHARS_def nth_append nth_Cons' word_less_nat_alt
        word_unat_eq_iff)
qed

lemma escape_chars_quotes: "index JSON_ESCAPE_CHARS 34 = Some 32" "index JSON_ESCAPE_CHARS 92 = Some 33"
  by code_simp+

lemma escape_quotes_table:
  "n < 32 \<Longrightarrow> index JSON_ESCAPE_QUOTES n = Some (byte_escape (of_nat n))"
proof -
  have "\<forall>n \<in> set [0..<32]. index JSON_ESCAPE_QUOTES n = Some (byte_escape (of_nat n))"
    by code_simp
  then show "n < 32 \<Longrightarrow> index JSON_ESCAPE_QUOTES n = Some (byte_escape (of_nat n))" by simp
qed

lemma escape_quotes_last:
  "index JSON_ESCAPE_QUOTES 32 = Some (byte_escape 0x22)"
  "index JSON_ESCAPE_QUOTES 33 = Some (byte_escape 0x5C)"
  by code_simp+

lemma process_byte_eq:
  "process_byte bytes b st =
     (if needs_escape b then
        map_option (\<lambda>pending. \<lparr>es_result = es_result st @ pending @ byte_escape b,
            es_i = es_i st + 1, es_start = es_i st + 1\<rparr>) (slice bytes (es_start st) (es_i st))
      else if b = 0xED \<and> es_i st + 2 < length bytes \<and> 0xA0 \<le> (bytes ! (es_i st + 1)) AND 0xF0
      then do {
        flushed \<leftarrow> (if es_start st < es_i st then slice bytes (es_start st) (es_i st) else Some []);
        (result, n) \<leftarrow> write_surrogate_escape (es_result st @ flushed) bytes (es_i st);
        Some \<lparr>es_result = result, es_i = es_i st + n, es_start = es_i st + n\<rparr> }
      else Some (st\<lparr>es_i := es_i st + 1\<rparr>))"
proof -
  consider "b < 0x20" | "b = 0x22" | "b = 0x5C" | "\<not> needs_escape b"
    by (auto simp: needs_escape_def)
  then show ?thesis
  proof cases
    case 1
    then have "unat b < 32" by (simp add: word_less_nat_alt)
    with 1 show ?thesis
      by (simp add: process_byte_def escape_chars_table escape_quotes_table needs_escape_def
          ESCAPE_LEN_def map_conv_bind_option comp_def)
  qed (auto simp: process_byte_def escape_chars_table escape_chars_quotes escape_quotes_last needs_escape_def
      ESCAPE_LEN_def map_conv_bind_option comp_def)
qed

subsection \<open>The cursor invariant\<close>

text \<open>What is written, what is pending between \<open>start\<close> and \<open>i\<close> and the reference
  output of the rest make up the final output.\<close>

definition pending :: "u8 list \<Rightarrow> esc_state \<Rightarrow> u8 list" where
  "pending bytes st = take (es_i st - es_start st) (drop (es_start st) bytes)"

definition esc_inv :: "u8 list \<Rightarrow> u8 list \<Rightarrow> esc_state \<Rightarrow> bool" where
  "esc_inv bytes out st \<longleftrightarrow> es_start st \<le> es_i st \<and> es_i st \<le> length bytes
     \<and> es_result st @ pending bytes st @ json_escape (drop (es_i st) bytes) = out"

lemma take_drop_extend:
  "a \<le> b \<Longrightarrow> b \<le> c \<Longrightarrow> take (c - a) (drop a xs) = take (b - a) (drop a xs) @ take (c - b) (drop b xs)"
  using take_add [of "b - a" "c - b" "drop a xs"] by simp

lemma esc_inv_skip:
  assumes "esc_inv bytes out st" "es_i st \<le> j" "j \<le> length bytes"
    and plain: "\<And>k. es_i st \<le> k \<Longrightarrow> k < j \<Longrightarrow> plain (bytes ! k)"
  shows "esc_inv bytes out (st\<lparr>es_i := j\<rparr>)"
proof -
  let ?xs = "take (j - es_i st) (drop (es_i st) bytes)"
  have "\<forall>b \<in> set ?xs. plain b"
    using assms(2,3) plain by (auto simp: in_set_conv_nth)
  moreover have "drop (es_i st) bytes = ?xs @ drop j bytes"
    using assms(2) by (metis append_take_drop_id drop_drop le_add_diff_inverse2)
  ultimately have "json_escape (drop (es_i st) bytes) = ?xs @ json_escape (drop j bytes)"
    using json_escape_plain by metis
  then show ?thesis
    using assms take_drop_extend [of "es_start st" "es_i st" j bytes]
    by (simp add: esc_inv_def pending_def)
qed

lemma process_byte_inv:
  assumes inv: "esc_inv bytes out st" and i: "es_i st < length bytes"
  shows "\<exists>st'. process_byte bytes (bytes ! es_i st) st = Some st' \<and> esc_inv bytes out st'
    \<and> es_i st < es_i st' \<and> es_i st' \<le> es_i st + 3"
proof -
  let ?b = "bytes ! es_i st"
  have d: "drop (es_i st) bytes = ?b # drop (Suc (es_i st)) bytes"
    using i by (simp add: Cons_nth_drop_Suc)
  have sl: "slice bytes (es_start st) (es_i st) = Some (pending bytes st)"
    using inv by (simp add: esc_inv_def pending_def slice_in)
  consider (esc) "needs_escape ?b"
    | (sur) "\<not> needs_escape ?b" "starts_surrogate (drop (es_i st) bytes)"
    | (copy) "\<not> needs_escape ?b" "\<not> starts_surrogate (drop (es_i st) bytes)" by blast
  then show ?thesis
  proof cases
    case esc
    then show ?thesis using inv i sl d
      by (auto simp: process_byte_eq esc_inv_def pending_def json_escape.simps(2))
  next
    case sur
    then have "?b = 0xED" "es_i st + 2 < length bytes" "0xA0 \<le> bytes ! (es_i st + 1) AND 0xF0"
      using i by (auto simp: starts_surrogate_def)
    moreover have "(if es_start st < es_i st then slice bytes (es_start st) (es_i st) else Some [])
        = Some (pending bytes st)"
      using sl inv by (auto simp: esc_inv_def pending_def)
    ultimately show ?thesis using inv i d sur
      by (auto simp: process_byte_eq write_surrogate_escape_def esc_inv_def pending_def
          json_escape.simps(2) rust_simps numeral_3_eq_3)
  next
    case copy
    then have "process_byte bytes ?b st = Some (st\<lparr>es_i := es_i st + 1\<rparr>)"
      using i by (auto simp: process_byte_eq starts_surrogate_def)
    moreover have "pending bytes (st\<lparr>es_i := es_i st + 1\<rparr>) = pending bytes st @ [?b]"
      using inv i take_drop_extend [of "es_start st" "es_i st" "es_i st + 1" bytes]
      by (simp add: pending_def esc_inv_def take_Suc_conv_app_nth [of 0] d)
    ultimately show ?thesis using inv i d copy
      by (simp add: esc_inv_def json_escape.simps(2))
  qed
qed

subsection \<open>The mask has no false negatives\<close>

text \<open>An interface for byte masks: bits are set at the top of a byte only, and at
  every byte that is not plain.  The sweep below relies on nothing else.\<close>

locale swar_mask =
  fixes mask_of :: "u8 list \<Rightarrow> u64"
  assumes mask_top: "length bs = 8 \<Longrightarrow> bit (mask_of bs) n \<Longrightarrow> n mod 8 = 7"
    and mask_complete: "length bs = 8 \<Longrightarrow> k < 8 \<Longrightarrow> \<not> plain (bs ! k) \<Longrightarrow> bit (mask_of bs) (8 * k + 7)"

lemma bit_from_le_bytes:
  "length bs \<le> 8 \<Longrightarrow>
   bit (u64_from_le_bytes bs) n \<longleftrightarrow> n < 8 * length bs \<and> bit (bs ! (n div 8)) (n mod 8)"
proof (induction bs arbitrary: n)
  case Nil
  then show ?case by (simp add: u64_from_le_bytes_def)
next
  case (Cons b bs)
  have step: "u64_from_le_bytes (b # bs) = ucast b OR push_bit 8 (u64_from_le_bytes bs)"
    by (simp add: u64_from_le_bytes_def)
  show ?case
  proof (cases "n < 8")
    case True
    then show ?thesis by (simp add: step bit_or_iff bit_push_bit_iff bit_ucast_iff)
  next
    case False
    then obtain m where m: "n = m + 8" by (metis add.commute le_add_diff_inverse not_less)
    have "\<not> bit b (m + 8)" by (auto dest: bit_imp_le_length)
    then have "bit (u64_from_le_bytes (b # bs)) n \<longleftrightarrow> m + 8 < 64 \<and> bit (u64_from_le_bytes bs) m"
      by (simp add: step m bit_or_iff bit_push_bit_iff bit_ucast_iff)
    moreover have "n div 8 = Suc (m div 8)" "n mod 8 = m mod 8"
      by (simp_all add: m)
    ultimately show ?thesis using Cons.IH [of m] Cons.prems by (auto simp: m)
  qed
qed

lemma from_le_bytes_xor:
  assumes "length bs = 8"
  shows "u64_from_le_bytes bs XOR u64_from_le_bytes (replicate 8 c)
    = u64_from_le_bytes (map (\<lambda>b. b XOR c) bs)"
  by (rule bit_eqI) (auto simp: bit_xor_iff bit_from_le_bytes assms)

lemma swar_constants:
  "0x20 * SWAR_ONES = of_int (32 * 0x0101010101010101)"
  "0x22 * SWAR_ONES = u64_from_le_bytes (replicate 8 0x22)"
  "0x5C * SWAR_ONES = u64_from_le_bytes (replicate 8 0x5C)"
  "0xED * SWAR_ONES = u64_from_le_bytes (replicate 8 0xED)"
  "SWAR_ONES = of_int (1 * 0x0101010101010101)"
  by code_simp+

lemma bit_high_int: "bit (h * 2 ^ Suc m + r) m" if "- (2 ^ m) \<le> r" "r < 0" for r :: int
proof -
  have "(h * 2 ^ Suc m + r) div 2 ^ m = 2 * h - 1"
  proof (rule int_div_pos_eq)
    show "h * 2 ^ Suc m + r = 2 ^ m * (2 * h - 1) + (r + 2 ^ m)" by (simp add: algebra_simps)
  qed (use that in auto)
  then show ?thesis by (simp add: bit_iff_odd)
qed

text \<open>Subtracting \<open>c\<close> from every byte borrows at a byte below \<open>c\<close>, whatever the
  lower bytes borrow.\<close>

abbreviation ones_to :: "nat \<Rightarrow> int" where
  "ones_to k \<equiv> (\<Sum>j\<le>k. 2 ^ (8 * j))"

lemma ones_to_bound: "255 * ones_to k = 2 ^ (8 * k + 8) - 1"
  by (induction k) (simp_all add: power_add algebra_simps)

lemma ones_to_split:
  assumes "k < 8"
  obtains h where "(0x0101010101010101 :: int) = h * 2 ^ (8 * k + 8) + ones_to k"
proof -
  have "k \<in> {0, 1, 2, 3, 4, 5, 6, 7}" using assms by auto
  then have "(0x0101010101010101 :: int) =
      (0x0101010101010101 div 2 ^ (8 * k + 8)) * 2 ^ (8 * k + 8) + ones_to k"
    by (elim insertE) (simp_all add: eval_nat_numeral)
  then show thesis by (rule that)
qed

lemma byte_of_from_le_bytes:
  assumes "length bs = 8" "k < 8"
  shows "uint (u64_from_le_bytes bs) div 2 ^ (8 * k) mod 2 ^ 8 = uint (bs ! k)"
proof -
  have "take_bit 8 (drop_bit (8 * k) (uint (u64_from_le_bytes bs))) = uint (bs ! k)"
  proof (rule bit_eqI)
    fix n
    show "bit (take_bit 8 (drop_bit (8 * k) (uint (u64_from_le_bytes bs)))) n = bit (uint (bs ! k)) n"
      using assms by (auto simp: bit_take_bit_iff bit_drop_bit_eq bit_uint_iff bit_from_le_bytes)
  qed
  then show ?thesis by (simp add: take_bit_eq_mod drop_bit_eq_div)
qed

lemma swar_borrow:
  fixes c :: int
  assumes "length bs = 8" "k < 8" and c: "uint (bs ! k) < c" "c \<le> 32"
  shows "bit (u64_from_le_bytes bs - of_int (c * 0x0101010101010101)) (8 * k + 7)"
proof -
  define x where "x = uint (u64_from_le_bytes bs)"
  define b where "b = uint (bs ! k)"
  define p :: int where "p = 2 ^ (8 * k)"
  obtain h where h: "(0x0101010101010101 :: int) = h * 2 ^ (8 * k + 8) + ones_to k"
    using ones_to_split [OF assms(2)] .
  have p: "0 < p" "2 ^ (8 * k + 8) = 256 * p" "2 ^ (8 * k + 7) = 128 * p" "2 ^ Suc (8 * k + 7) = 256 * p"
    by (simp_all add: p_def power_add)
  define H L where "H = x div p div 256" and "L = x mod p"
  have x: "x = H * (256 * p) + b * p + L"
  proof -
    have "x = x div p * p + L" by (simp add: L_def)
    also have "x div p = H * 256 + b"
      using byte_of_from_le_bytes [OF assms(1,2)] div_mult_mod_eq [of "x div p" 256]
      by (simp add: x_def b_def p_def H_def)
    finally show ?thesis by (simp add: algebra_simps)
  qed
  have eq: "x - c * 0x0101010101010101 = (H - c * h) * 2 ^ Suc (8 * k + 7) + (b * p + L - c * ones_to k)"
    unfolding x h p(2,4) by (simp add: algebra_simps)
  have o: "255 * ones_to k = 256 * p - 1" using ones_to_bound [of k] p(2) by simp
  have "0 \<le> b" "b < c" using c by (simp_all add: b_def)
  then have "(b + 1) * p \<le> c * p" "c * p \<le> c * ones_to k" "c * ones_to k \<le> 32 * ones_to k" "0 \<le> b * p"
    using p o c(2) by (auto intro!: mult_right_mono mult_left_mono)
  moreover have "L < p" "0 \<le> L" using p by (simp_all add: L_def)
  ultimately have "- (2 ^ (8 * k + 7)) \<le> b * p + L - c * ones_to k" "b * p + L - c * ones_to k < 0"
    unfolding p(3) using o distrib_right [of b 1 p] by linarith+
  then have "bit (x - c * 0x0101010101010101) (8 * k + 7)"
    unfolding eq by (rule bit_high_int)
  moreover have "u64_from_le_bytes bs - of_int (c * 0x0101010101010101)
      = word_of_int (x - c * 0x0101010101010101)"
    unfolding of_int_diff by (simp add: x_def)
  ultimately show ?thesis
    using assms(2) by (simp only: bit_word_of_int_iff) simp
qed

lemma not_bit7: "uint b < 32 \<Longrightarrow> \<not> bit b 7" for b :: u8
proof -
  assume "uint b < 32"
  then have "uint b div 128 = 0" by (simp add: div_pos_pos_trivial)
  then have "\<not> bit (uint b) 7" by (simp add: bit_iff_odd)
  then show ?thesis by (simp add: bit_uint_iff)
qed

lemma swar_detect:
  fixes c :: int
  assumes bs: "length bs = 8" "k < 8" and c: "uint (bs ! k) < c" "c \<le> 32"
  shows "bit ((u64_from_le_bytes bs - of_int (c * 0x0101010101010101)) AND NOT (u64_from_le_bytes bs)) (8 * k + 7)"
  using swar_borrow [OF assms] not_bit7 [of "bs ! k"] c bs
  by (simp add: bit_and_iff bit_not_iff bit_from_le_bytes div_mult_self4)

lemma swar_high: "bit SWAR_HIGH n \<Longrightarrow> n mod 8 = 7" "k < 8 \<Longrightarrow> bit SWAR_HIGH (8 * k + 7)"
proof -
  have b: "bit (0x80 :: u8) n \<longleftrightarrow> n = 7" for n
    using bit_exp_iff [where 'a = u8, of 7 n] by auto
  have h: "SWAR_HIGH = u64_from_le_bytes (replicate 8 0x80)" by code_simp
  have r: "replicate 8 (0x80 :: u8) ! (n div 8) = 0x80" if "n < 64" for n
    using that by (intro nth_replicate) simp
  have *: "bit SWAR_HIGH n \<longleftrightarrow> n < 64 \<and> n mod 8 = 7" for n
    using bit_from_le_bytes [of "replicate 8 0x80" n] r [of n]
    unfolding h length_replicate by (cases "n < 64") (auto simp only: b)
  then show "bit SWAR_HIGH n \<Longrightarrow> n mod 8 = 7" by blast
  show "k < 8 \<Longrightarrow> bit SWAR_HIGH (8 * k + 7)" unfolding * by auto
qed

lemma swar_equals:
  assumes "length bs = 8" "k < 8" "bs ! k = c"
  shows "let y = u64_from_le_bytes bs XOR u64_from_le_bytes (replicate 8 c)
     in bit ((y - SWAR_ONES) AND NOT y) (8 * k + 7)"
  unfolding Let_def from_le_bytes_xor [OF assms(1)] swar_constants(5)
  by (rule swar_detect) (use assms in auto)

interpretation esc_mask: swar_mask chunk_escape_mask
proof
  show "n mod 8 = 7" if "bit (chunk_escape_mask bs) n" for bs n
    using that swar_high(1) by (simp add: chunk_escape_mask_def Let_def bit_and_iff)
  show "bit (chunk_escape_mask bs) (8 * k + 7)" if bs: "length bs = 8" "k < 8" "\<not> plain (bs ! k)" for bs k
  proof -
    consider "uint (bs ! k) < 32" | "bs ! k = 0x22" | "bs ! k = 0x5C" | "bs ! k = 0xED"
      using bs(3) by (auto simp: plain_def needs_escape_def word_less_alt)
    then show ?thesis
    proof cases
      case 1
      from swar_detect [OF bs(1,2) 1] swar_high(2) [OF bs(2)] show ?thesis
        unfolding chunk_escape_mask_def Let_def swar_constants(1) by (simp add: bit_and_iff bit_or_iff)
    next
      case 2
      from swar_equals [OF bs(1,2) 2] swar_high(2) [OF bs(2)] show ?thesis
        unfolding chunk_escape_mask_def Let_def swar_constants(2) by (simp add: bit_and_iff bit_or_iff)
    next
      case 3
      from swar_equals [OF bs(1,2) 3] swar_high(2) [OF bs(2)] show ?thesis
        unfolding chunk_escape_mask_def Let_def swar_constants(3) by (simp add: bit_and_iff bit_or_iff)
    next
      case 4
      from swar_equals [OF bs(1,2) 4] swar_high(2) [OF bs(2)] show ?thesis
        unfolding chunk_escape_mask_def Let_def swar_constants(4) by (simp add: bit_and_iff bit_or_iff)
    qed
  qed
qed

subsection \<open>The sweep of one half\<close>

text \<open>\<open>m\<close> is a mask for the half at \<open>p\<close> from position \<open>i\<close> on.\<close>

definition sweep_ok :: "u8 list \<Rightarrow> nat \<Rightarrow> u64 \<Rightarrow> nat \<Rightarrow> bool" where
  "sweep_ok bytes p m i \<longleftrightarrow> p \<le> i \<and> p + 8 \<le> length bytes
     \<and> (\<forall>n. bit m n \<longrightarrow> n mod 8 = 7 \<and> i \<le> p + n div 8)
     \<and> (\<forall>k<8. i \<le> p + k \<longrightarrow> \<not> plain (bytes ! (p + k)) \<longrightarrow> bit m (8 * k + 7))"

lemma sweep_ok_restrict:
  "sweep_ok bytes p m i \<Longrightarrow> i \<le> i' \<Longrightarrow> sweep_ok bytes p (m AND ones_from ((i' - p) * 8)) i'"
  by (auto simp: sweep_ok_def bit_and_iff)

lemma sweep_ok_plain:
  assumes "sweep_ok bytes p m i" "i \<le> k" "k < p + 8" "\<not> bit m (8 * (k - p) + 7)"
  shows "plain (bytes ! k)"
proof -
  have "k - p < 8" "p + (k - p) = k" using assms by (auto simp: sweep_ok_def)
  with assms show ?thesis unfolding sweep_ok_def by metis
qed

lemma sweep_ok_first:
  assumes ok: "sweep_ok bytes p m i" and m: "m \<noteq> 0"
  defines "j \<equiv> p + trailing_zeros m div 8"
  shows "i \<le> j" "j < p + 8" "j < length bytes" "\<And>k. i \<le> k \<Longrightarrow> k < j \<Longrightarrow> plain (bytes ! k)"
proof -
  note tz = trailing_zeros_bit [OF m]
  show "i \<le> j" and *: "j < p + 8" and "j < length bytes"
    using ok tz(1,2) by (auto simp: sweep_ok_def j_def)
  fix k
  assume k: "i \<le> k" "k < j"
  have "trailing_zeros m mod 8 = 7" using ok tz(2) by (simp add: sweep_ok_def)
  then have "trailing_zeros m = 8 * (trailing_zeros m div 8) + 7"
    using mult_div_mod_eq [of 8 "trailing_zeros m"] by simp
  moreover have "k - p < trailing_zeros m div 8" using k ok unfolding j_def sweep_ok_def by linarith
  ultimately have "8 * (k - p) + 7 < trailing_zeros m" by linarith
  then show "plain (bytes ! k)" using ok k * tz(3) by (intro sweep_ok_plain [of bytes p m i]) auto
qed

text \<open>One round: jump to the next marked byte and process it.\<close>

lemma sweep_round:
  assumes inv: "esc_inv bytes out st" and ok: "sweep_ok bytes p m (es_i st)" and m: "m \<noteq> 0"
  defines "j \<equiv> p + trailing_zeros m div 8"
  shows "\<exists>st'. process_byte bytes (bytes ! j) (st\<lparr>es_i := j\<rparr>) = Some st' \<and> esc_inv bytes out st'
    \<and> j < es_i st' \<and> es_i st' \<le> j + 3"
proof -
  note first = sweep_ok_first [OF ok m, folded j_def]
  have "esc_inv bytes out (st\<lparr>es_i := j\<rparr>)"
    using inv first by (intro esc_inv_skip) auto
  from process_byte_inv [OF this] first(3) show ?thesis by simp
qed

lemma sweep_done:
  assumes "esc_inv bytes out st" "sweep_ok bytes p m (es_i st)" "m = 0"
  shows "esc_inv bytes out (st\<lparr>es_i := max (es_i st) (p + 8)\<rparr>)"
proof (rule esc_inv_skip [OF assms(1)])
  show "max (es_i st) (p + 8) \<le> length bytes" using assms by (simp add: sweep_ok_def esc_inv_def)
  fix k
  assume "es_i st \<le> k" "k < max (es_i st) (p + 8)"
  then show "plain (bytes ! k)" using assms(2,3) by (intro sweep_ok_plain) auto
qed simp

lemma dirty_loop_inv:
  assumes "esc_inv bytes out st" "sweep_ok bytes p m (es_i st)" "es_i st \<le> p + 10"
  shows "\<exists>st'. dirty_loop bytes p m st = Some st' \<and> es_i st' \<le> p + 10
    \<and> esc_inv bytes out st' \<and> sweep_ok bytes p 0 (es_i st')"
  using assms
proof (induction bytes p m st rule: dirty_loop.induct)
  case (1 bytes p m st)
  show ?case
  proof (cases "m = 0")
    case True
    with 1 show ?thesis by (simp add: dirty_loop.simps)
  next
    case False
    let ?j = "p + trailing_zeros m div 8"
    note first = sweep_ok_first [OF "1.prems"(2) False]
    obtain st' where st': "process_byte bytes (bytes ! ?j) (st\<lparr>es_i := ?j\<rparr>) = Some st'"
      "esc_inv bytes out st'" "?j < es_i st'" "es_i st' \<le> ?j + 3"
      using sweep_round [OF "1.prems"(1,2) False] by auto
    have u: "usub (es_i st') p = Some (es_i st' - p)" using st'(3) by simp
    have "sweep_ok bytes p (m AND ones_from ((es_i st' - p) * 8)) (es_i st')"
      using "1.prems"(2) first st'(3) by (intro sweep_ok_restrict) auto
    moreover have "es_i st' \<le> p + 10" using st'(4) first(2) by simp
    ultimately show ?thesis
      using "1.IH" [OF False refl, of "bytes ! ?j" st'] st' u first False
      by (subst dirty_loop.simps) (simp add: rust_simps Let_def)
  qed
qed

lemma count_ones_one:
  assumes "count_ones m = 1" "bit m n" "bit m k"
  shows "n = k"
proof -
  obtain a where "filter (bit m) [0..<64] = [a]"
    using assms(1) by (auto simp: count_ones_def length_Suc_conv)
  then have "set (filter (bit m) [0..<64]) = {a}" by (simp only: list.set)
  moreover have "n < 64" "k < 64" using assms(2,3) by (auto dest: bit_imp_le_length)
  then have "n \<in> set (filter (bit m) [0..<64])" "k \<in> set (filter (bit m) [0..<64])"
    using assms(2,3) by (simp_all only: set_filter set_upt) auto
  ultimately show ?thesis by simp
qed

text \<open>After the single marked byte nothing is left to sweep.\<close>

lemma single_bit_done:
  assumes ok: "sweep_ok bytes p m i" and one: "count_ones m = 1" and j: "p + trailing_zeros m div 8 < i'"
    "i \<le> i'" and m: "m \<noteq> 0"
  shows "sweep_ok bytes p 0 i'"
proof -
  have tz: "bit m (trailing_zeros m)" using trailing_zeros_bit(2) [OF m] .
  have "plain (bytes ! (p + k))" if k: "k < 8" "i' \<le> p + k" for k
  proof (rule ccontr)
    assume "\<not> plain (bytes ! (p + k))"
    then have "bit m (8 * k + 7)" using ok k j by (simp add: sweep_ok_def)
    then have "trailing_zeros m = 8 * k + 7" using count_ones_one [OF one tz] by blast
    with j k show False by simp
  qed
  then show ?thesis using ok j by (auto simp: sweep_ok_def)
qed

subsection \<open>A half, a chunk, the whole string\<close>

lemma sweep_push_bit:
  "d * 8 < 64 \<Longrightarrow> m AND NOT (mask (d * 8)) = m AND ones_from (d * 8)" for m :: u64
  by (simp add: ones_from_def)

context swar_mask
begin

lemma mask_sweep_ok:
  assumes "p + 8 \<le> length bytes"
  shows "sweep_ok bytes p (mask_of (chunk_at bytes p)) p"
  using mask_top [of "chunk_at bytes p"] mask_complete [of "chunk_at bytes p"] assms
  by (auto simp: sweep_ok_def chunk_at_def)

lemma process_dirty_half_inv:
  assumes inv: "esc_inv bytes out st" and p: "p \<le> es_i st" "es_i st \<le> p + 2" "p + 8 \<le> length bytes"
  shows "\<exists>st'. process_dirty_half bytes p (mask_of (chunk_at bytes p)) st = Some st'
    \<and> esc_inv bytes out st' \<and> p + 8 \<le> es_i st' \<and> es_i st' \<le> p + 10"
proof -
  let ?msk = "mask_of (chunk_at bytes p)"
  let ?m = "?msk AND ones_from ((es_i st - p) * 8)"
  have ok: "sweep_ok bytes p ?m (es_i st)"
    using mask_sweep_ok [OF p(3)] p(1) by (rule sweep_ok_restrict)
  have eq: "?msk AND NOT (mask ((es_i st - p) * 8)) = ?m" using p by (intro sweep_push_bit) simp
  consider (clean) "?msk = 0" | (one) "?msk \<noteq> 0" "count_ones ?m = 1" | (loop) "?msk \<noteq> 0" "count_ones ?m \<noteq> 1"
    by blast
  then show ?thesis
  proof cases
    case clean
    with sweep_done [OF inv, of p 0] ok p show ?thesis by (auto simp: process_dirty_half_def)
  next
    case one
    then have m: "?m \<noteq> 0" by (auto simp: count_ones_def)
    let ?j = "p + trailing_zeros ?m div 8"
    obtain st' where st': "process_byte bytes (bytes ! ?j) (st\<lparr>es_i := ?j\<rparr>) = Some st'"
      "esc_inv bytes out st'" "?j < es_i st'" "es_i st' \<le> ?j + 3"
      using sweep_round [OF inv ok m] by blast
    note first = sweep_ok_first [OF ok m]
    have "sweep_ok bytes p 0 (es_i st')"
      using single_bit_done [OF ok one(2) st'(3) _ m] first(1) st'(3) by simp
    from sweep_done [OF st'(2) this refl] show ?thesis
      using one p st' first(2,3)
      by (simp add: process_dirty_half_def Let_def eq usub_le guard_True index_in)
  next
    case loop
    from dirty_loop_inv [OF inv ok] p obtain st' where st': "dirty_loop bytes p ?m st = Some st'"
      "es_i st' \<le> p + 10" "esc_inv bytes out st'" "sweep_ok bytes p 0 (es_i st')" by auto
    from sweep_done [OF st'(3,4) refl] show ?thesis
      using loop p st'
      by (simp add: process_dirty_half_def Let_def eq usub_le guard_True)
  qed
qed

end

text \<open>A cursor that stands at the start of the half at \<open>p\<close>, up to the two bytes a
  surrogate may have taken from it.\<close>

definition at_half :: "u8 list \<Rightarrow> u8 list \<Rightarrow> nat \<Rightarrow> esc_state \<Rightarrow> bool" where
  "at_half bytes out p st \<longleftrightarrow> esc_inv bytes out st \<and> p \<le> es_i st \<and> es_i st \<le> p + 2"

lemma process_halves_inv:
  assumes "at_half bytes out p st" "p + 8 * n \<le> length bytes"
  shows "\<exists>st'. process_halves bytes (map (\<lambda>k. p + k * 8) [0..<n]) st = Some st'
    \<and> at_half bytes out (p + 8 * n) st'"
  using assms
proof (induction n arbitrary: p st)
  case 0
  then show ?case by simp
next
  case (Suc n)
  obtain st1 where st1: "process_dirty_half bytes p (chunk_escape_mask (chunk_at bytes p)) st = Some st1"
    "at_half bytes out (p + 8) st1"
    using esc_mask.process_dirty_half_inv [of bytes out st p] Suc.prems by (auto simp: at_half_def)
  have "map (\<lambda>k. p + k * 8) [0..<Suc n] = p # map (\<lambda>k. p + 8 + k * 8) [0..<n]"
    by (simp add: map_upt_Suc del: upt_Suc)
  with st1 Suc.IH [of "p + 8" st1] Suc.prems show ?case by (simp add: ac_simps)
qed

lemma less_8_mult: "q < 8 \<Longrightarrow> 8 * q \<in> {0, 8, 16, 24, 32, 40, 48, 56}" for q :: nat
  by auto

lemma foldr_or_0: "foldr (\<lambda>x acc. f x OR acc) xs 0 = 0 \<longleftrightarrow> (\<forall>x \<in> set xs. f x = (0 :: u64))"
  by (induction xs) (auto simp: or_eq_0_iff)

lemma process_chunk64_inv:
  assumes at: "at_half bytes out base st" and b: "base + 64 \<le> length bytes"
  shows "\<exists>st'. process_chunk64 bytes base st = Some st' \<and> at_half bytes out (base + 64) st'"
proof (cases "\<forall>off \<in> set half_offsets. chunk_escape_mask (chunk_at bytes (base + off)) = 0")
  case True
  have "plain (bytes ! k)" if k: "es_i st \<le> k" "k < base + 64" for k
  proof -
    let ?q = "(k - base) div 8" and ?r = "(k - base) mod 8"
    have k': "k = base + 8 * ?q + ?r" and "?q < 8" using at k by (auto simp: at_half_def)
    then have "8 * ?q \<in> set half_offsets" using less_8_mult [of ?q] by (simp add: half_offsets_def)
    with True have z: "chunk_escape_mask (chunk_at bytes (base + 8 * ?q)) = 0" by blast
    have "plain (bytes ! (base + 8 * ?q + ?r))"
      using esc_mask.mask_sweep_ok [of "base + 8 * ?q" bytes] b \<open>?q < 8\<close> unfolding z
      by (intro sweep_ok_plain) auto
    with k' show ?thesis by simp
  qed
  then have "esc_inv bytes out (st\<lparr>es_i := base + 64\<rparr>)"
    using at b by (intro esc_inv_skip) (auto simp: at_half_def)
  then show ?thesis
    using True by (simp add: process_chunk64_def half_offsets_def at_half_def)
next
  case False
  have offs: "map (\<lambda>off. base + off) half_offsets = map (\<lambda>k. base + k * 8) [0..<8]"
    by (simp add: half_offsets_def upt_conv_Cons)
  have "process_chunk64 bytes base st = process_halves bytes (map (\<lambda>k. base + k * 8) [0..<8]) st"
    using False unfolding process_chunk64_def offs foldr_or_0 by auto
  with process_halves_inv [OF at, of 8] b show ?thesis by simp
qed

lemma process_chunks64_inv:
  "at_half bytes out base st \<Longrightarrow> base + 64 * n \<le> length bytes \<Longrightarrow>
   \<exists>st'. process_chunks64 bytes base n st = Some st' \<and> at_half bytes out (base + 64 * n) st'"
proof (induction n arbitrary: base st)
  case (Suc n)
  then obtain st1 where "process_chunk64 bytes base st = Some st1" "at_half bytes out (base + 64) st1"
    using process_chunk64_inv [of bytes out base st] by auto
  with Suc.IH [of "base + 64" st1] Suc.prems show ?case by (simp add: ac_simps)
qed simp

lemma process_rest_inv:
  "esc_inv bytes out st \<Longrightarrow>
   \<exists>st'. process_rest bytes st = Some st' \<and> esc_inv bytes out st' \<and> es_i st' = length bytes"
proof (induction bytes st rule: process_rest.induct)
  case (1 bytes st)
  show ?case
  proof (cases "es_i st < length bytes")
    case True
    with 1 process_byte_inv [OF "1.prems" True] show ?thesis
      by (subst process_rest.simps) auto
  next
    case False
    with 1 show ?thesis by (subst process_rest.simps) (auto simp: esc_inv_def)
  qed
qed

lemma escape_json_string_eq:
  "escape_json_string result bytes = Some (result @ json_escape bytes)"
proof -
  let ?out = "result @ json_escape bytes" and ?n = "length bytes div 64"
  let ?base = "?n * 64"
  have "at_half bytes ?out 0 \<lparr>es_result = result, es_i = 0, es_start = 0\<rparr>"
    by (simp add: at_half_def esc_inv_def pending_def)
  from process_chunks64_inv [OF this, of ?n] obtain st1 where
    st1: "process_chunks64 bytes 0 ?n \<lparr>es_result = result, es_i = 0, es_start = 0\<rparr> = Some st1"
      "at_half bytes ?out ?base st1" by (auto simp: mult.commute)
  have "8 * ((length bytes - ?base) div 8) \<le> length bytes - ?base" "?base \<le> length bytes" by simp_all
  then have "?base + 8 * ((length bytes - ?base) div 8) \<le> length bytes" by linarith
  then obtain st2 where st2: "process_halves bytes (map (\<lambda>k. ?base + k * 8) [0..<(length bytes - ?base) div 8]) st1
      = Some st2" "esc_inv bytes ?out st2"
    using process_halves_inv [OF st1(2), of "(length bytes - ?base) div 8"] by (auto simp: at_half_def)
  from process_rest_inv [OF st2(2)] obtain st3 where
    st3: "process_rest bytes st2 = Some st3" "esc_inv bytes ?out st3" "es_i st3 = length bytes" by blast
  then show ?thesis using st1(1) st2(1)
    by (auto simp: escape_json_string_def escape_json_string_simple_def Let_def esc_inv_def pending_def slice_in)
qed

text \<open>
  (C1) The SWAR escaper returns on every byte string, never slices or indexes out
  of range, and its output is that of the byte-by-byte reference: no byte that has
  to be escaped is missed and no other byte is changed.
\<close>
theorem escape_json_correct:
  "escape_json_string result bytes = Some (result @ json_escape bytes)
   \<and> escape_json bytes = Some (json_escape bytes)"
  by (simp add: escape_json_def escape_json_string_eq)

subsection \<open>Reading the output back\<close>

text \<open>A reader for the contents of a JSON string (RFC 8259, section 7); code points
  are written as (generalised) UTF-8, a lone surrogate as three bytes.\<close>

definition hex_val :: "u8 \<Rightarrow> nat option" where
  "hex_val h =
     (if 0x30 \<le> h \<and> h \<le> 0x39 then Some (unat h - 48)
      else if 0x61 \<le> h \<and> h \<le> 0x66 then Some (unat h - 87)
      else if 0x41 \<le> h \<and> h \<le> 0x46 then Some (unat h - 55)
      else None)"

definition utf8_encode :: "nat \<Rightarrow> u8 list" where
  "utf8_encode n =
     (if n < 0x80 then [of_nat n]
      else if n < 0x800 then [of_nat (0xC0 + n div 64), of_nat (0x80 + n mod 64)]
      else [of_nat (0xE0 + n div 4096), of_nat (0x80 + n div 64 mod 64), of_nat (0x80 + n mod 64)])"

definition short_unescape :: "u8 \<Rightarrow> u8 option" where
  "short_unescape c = map_of [(0x22, 0x22), (0x5C, 0x5C), (0x2F, 0x2F), (0x62, 0x08), (0x66, 0x0C),
     (0x6E, 0x0A), (0x72, 0x0D), (0x74, 0x09)] c"

fun json_unescape :: "u8 list \<Rightarrow> u8 list option" where
  "json_unescape [] = Some []"
| "json_unescape (b # bs) =
     (if b = 0x5C then
        (case bs of
           c # r \<Rightarrow>
             (if c = 0x75 then
                (case r of
                   d3 # d2 # d1 # d0 # r' \<Rightarrow> do {
                     h3 \<leftarrow> hex_val d3; h2 \<leftarrow> hex_val d2; h1 \<leftarrow> hex_val d1; h0 \<leftarrow> hex_val d0;
                     rest \<leftarrow> json_unescape r';
                     Some (utf8_encode (h3 * 4096 + h2 * 256 + h1 * 16 + h0) @ rest) }
                 | _ \<Rightarrow> None)
              else do { x \<leftarrow> short_unescape c; rest \<leftarrow> json_unescape r; Some (x # rest) })
         | [] \<Rightarrow> None)
      else if b < 0x20 \<or> b = 0x22 then None
      else do { rest \<leftarrow> json_unescape bs; Some (b # rest) })"

declare json_unescape.simps(2) [simp del]

text \<open>In WTF-8 the byte \<open>0xED\<close> is followed by two continuation bytes.\<close>

definition continuation :: "u8 \<Rightarrow> bool" where
  "continuation b \<longleftrightarrow> 0x80 \<le> b \<and> b \<le> 0xBF"

fun wtf8_surrogates :: "u8 list \<Rightarrow> bool" where
  "wtf8_surrogates (b # bs) \<longleftrightarrow>
     (starts_surrogate (b # bs) \<longrightarrow> continuation (bs ! 0) \<and> continuation (bs ! 1)) \<and> wtf8_surrogates bs"
| "wtf8_surrogates [] \<longleftrightarrow> True"

lemma wtf8_surrogates_drop: "wtf8_surrogates bs \<Longrightarrow> wtf8_surrogates (drop n bs)"
  by (induction bs arbitrary: n) (auto simp: drop_Cons' split: if_splits)

lemma hex_round_trip: "h < 16 \<Longrightarrow> hex_val (hex_digit (of_nat h)) = Some h"
proof -
  have "\<forall>h \<in> set [0..<16]. hex_val (hex_digit (of_nat h)) = Some h" by code_simp
  then show "h < 16 \<Longrightarrow> hex_val (hex_digit (of_nat h)) = Some h" by simp
qed

lemma unescape_u:
  assumes "h3 < 16" "h2 < 16" "h1 < 16" "h0 < 16"
  shows "json_unescape (0x5C # 0x75 # hex_digit (of_nat h3) # hex_digit (of_nat h2) # hex_digit (of_nat h1)
      # hex_digit (of_nat h0) # bs)
    = map_option ((@) (utf8_encode (h3 * 4096 + h2 * 256 + h1 * 16 + h0))) (json_unescape bs)"
  using assms by (simp add: json_unescape.simps(2) hex_round_trip map_conv_bind_option comp_def)

lemma hex_digit_0: "hex_digit (of_nat 0) = 0x30"
  by (simp add: hex_digit_def)

lemma unescape_u_escape:
  assumes "n < 128"
  shows "json_unescape (u_escape n @ bs) = map_option ((#) (of_nat n)) (json_unescape bs)"
proof -
  have "n div 16 * 16 + n mod 16 = n" by simp
  with unescape_u [of 0 0 "n div 16" "n mod 16" bs] assms show ?thesis
    unfolding u_escape_def hex_digit_0 by (cases "json_unescape bs") (auto simp: utf8_encode_def)
qed

lemma unescape_byte_escape:
  assumes "needs_escape b"
  shows "json_unescape (byte_escape b @ bs) = map_option ((#) b) (json_unescape bs)"
proof -
  have short: "json_unescape (0x5C # c # bs) = map_option ((#) x) (json_unescape bs)"
    if "short_unescape c = Some x" "c \<noteq> 0x75" for c x
    using that by (simp add: json_unescape.simps(2) map_conv_bind_option comp_def)
  have "unat b < 128" using assms by (auto simp: needs_escape_def word_less_nat_alt)
  from unescape_u_escape [OF this] show ?thesis
    by (auto simp: byte_escape_def intro!: short) (simp_all add: short_unescape_def)
qed

lemma unescape_plain:
  "\<not> needs_escape b \<Longrightarrow> json_unescape (b # bs) = map_option ((#) b) (json_unescape bs)"
  by (simp add: json_unescape.simps(2) needs_escape_def map_conv_bind_option comp_def)

subsection \<open>Surrogates\<close>

lemma or_push_bit: "x < 2 ^ n \<Longrightarrow> push_bit n y OR x = y * 2 ^ n + x" for x y :: nat
proof -
  assume "x < 2 ^ n"
  then have "x = take_bit n x" by (simp add: take_bit_nat_eq_self)
  then have "push_bit n y AND x = 0"
    by (metis (no_types, lifting) bit_and_iff bit_eq_iff bit_push_bit_iff bit_0_eq bit_take_bit_iff bot_apply bot_bool_def not_le)
  then show ?thesis by (simp add: disjunctive_add_eq_or [symmetric] push_bit_eq_mult)
qed

lemma unat_and_mask: "unat (w AND 0x0F) = unat w mod 16" "unat (w AND 0x3F) = unat w mod 64"
  for w :: u16
proof -
  have "w AND 0x0F = take_bit 4 w" "w AND 0x3F = take_bit 6 w"
    by (simp_all add: take_bit_eq_mask mask_eq_exp_minus_1)
  then show "unat (w AND 0x0F) = unat w mod 16" "unat (w AND 0x3F) = unat w mod 64"
    by (simp_all only: unsigned_take_bit_eq) (simp_all add: take_bit_eq_mod)
qed

lemma unat_ucast_u16: "unat (ucast b :: u16) = unat b" for b :: u8
  using unat_u8 [of b] by (simp add: unsigned_ucast_eq take_bit_nat_eq_self)

lemma unat_code_point:
  "unat (surrogate_code_point b0 b1 b2) =
     unat b0 mod 16 * 4096 + unat b1 mod 64 * 64 + unat b2 mod 64"
proof -
  define x y z where "x = unat b0 mod 16" and "y = unat b1 mod 64" and "z = unat b2 mod 64"
  have lt: "x < 16" "y < 64" "z < 64" by (simp_all add: x_def y_def z_def)
  have "unat (surrogate_code_point b0 b1 b2)
      = take_bit 16 (push_bit 12 x) OR (take_bit 16 (push_bit 6 y) OR z)"
    unfolding surrogate_code_point_def
    by (simp only: unsigned_or_eq unsigned_push_bit_eq unat_and_mask unat_ucast_u16 x_def y_def z_def or.assoc)
      simp
  moreover have "take_bit 16 (push_bit 12 x) = push_bit 12 x" "take_bit 16 (push_bit 6 y) = push_bit 6 y"
    using lt by (simp_all add: take_bit_nat_eq_self push_bit_eq_mult)
  moreover have "y * 64 + z < 2 ^ 12" using lt by simp
  ultimately show ?thesis
    using or_push_bit [of z 6 y] or_push_bit [of "y * 64 + z" 12 x] lt
    by (simp flip: x_def y_def z_def)
qed

lemma surrogate_hex_digits:
  "surrogate_hex cp = map (\<lambda>d. hex_digit (of_nat d))
     [unat cp div 4096, unat cp div 256 mod 16, unat cp div 16 mod 16, unat cp mod 16]"
proof -
  have "ucast w = (of_nat (unat w) :: u8)" for w :: u16 by simp
  moreover have "unat (drop_bit 12 cp) = unat cp div 4096" "unat (drop_bit 8 cp) = unat cp div 256"
    "unat (drop_bit 4 cp) = unat cp div 16"
    by (simp_all only: unat_drop_bit_eq) (simp_all add: drop_bit_eq_div)
  ultimately show ?thesis
    by (simp only: surrogate_hex_def list.map unat_and_mask)
qed

lemma hex_recombine:
  "n div 4096 * 4096 + n div 256 mod 16 * 256 + n div 16 mod 16 * 16 + n mod 16 = n" for n :: nat
proof -
  have "n div 16 div 16 = n div 256" "n div 256 div 16 = n div 4096"
    by (simp_all flip: div_mult2_eq)
  then show ?thesis
    using div_mult_mod_eq [of n 16] div_mult_mod_eq [of "n div 16" 16] div_mult_mod_eq [of "n div 256" 16]
    by linarith
qed

lemma unescape_surrogate:
  assumes "0xA0 \<le> b1 AND 0xF0" "continuation b1" "continuation b2"
  shows "json_unescape ([0x5C, 0x75] @ surrogate_hex (surrogate_code_point 0xED b1 b2) @ bs)
    = map_option ((@) [0xED, b1, b2]) (json_unescape bs)"
proof -
  define n where "n = unat (surrogate_code_point 0xED b1 b2)"
  have n: "n = 13 * 4096 + unat b1 mod 64 * 64 + unat b2 mod 64"
    by (simp add: n_def unat_code_point)
  have lt: "n < 65536" unfolding n_def using unsigned_less [where 'a = nat, of "surrogate_code_point 0xED b1 b2"] by simp
  have *: "of_nat (0x80 + unat b mod 64) = b" if "continuation b" for b :: u8
  proof -
    have "128 \<le> unat b" "unat b < 192" using that by (auto simp: continuation_def word_le_nat_alt)
    then obtain d where "unat b = 128 + d" "d < 64" by (auto simp: le_iff_add)
    then have "0x80 + unat b mod 64 = unat b" by (simp add: mod_add_eq [of 128 64, symmetric])
    then show ?thesis by simp
  qed
  have "n = unat b2 mod 64 + (832 + unat b1 mod 64) * 64" by (simp add: n)
  then have d: "n mod 64 = unat b2 mod 64" "n div 64 = 832 + unat b1 mod 64"
    by (simp_all only: mod_mult_self1 div_mult_self1) simp_all
  then have "n div 64 mod 64 = unat b1 mod 64" "n div 4096 = 13"
    using div_mult2_eq [of n 64 64] by (simp_all add: mod_add_eq [of 832 64, symmetric])
  then have "utf8_encode n = [0xED, b1, b2]"
    using * [OF assms(2)] * [OF assms(3)] d(1) n by (simp add: utf8_encode_def)
  then show ?thesis
    using unescape_u [of "n div 4096" "n div 256 mod 16" "n div 16 mod 16" "n mod 16" bs] lt
    by (simp add: surrogate_hex_digits hex_recombine flip: n_def)
qed

text \<open>
  (C2) Round trip: whatever string the escaper is given, control characters, quotes,
  lone surrogates and all, a JSON reader gets the same bytes back from its output.
\<close>
theorem escape_json_round_trip:
  assumes "wtf8_surrogates bytes" "escape_json bytes = Some out"
  shows "json_unescape out = Some bytes"
proof -
  have "wtf8_surrogates bytes \<Longrightarrow> json_unescape (json_escape bytes) = Some bytes"
  proof (induction bytes rule: json_escape.induct)
    case (2 b bs)
    consider "needs_escape b" | "\<not> needs_escape b" "starts_surrogate (b # bs)"
      | "\<not> needs_escape b" "\<not> starts_surrogate (b # bs)" by blast
    then show ?case
    proof cases
      case 2
      then have "b = 0xED" "0xA0 \<le> bs ! 0 AND 0xF0" "2 \<le> length bs"
        by (auto simp: starts_surrogate_def)
      moreover from this have "bs = bs ! 0 # bs ! 1 # drop 2 bs"
        by (metis Cons_nth_drop_Suc Suc_1 Suc_leD drop0 less_eq_Suc_le One_nat_def)
      ultimately show ?thesis
        using 2 "2.IH"(2) "2.prems" unescape_surrogate [of "bs ! 0" "bs ! 1" "json_escape (drop 2 bs)"]
          wtf8_surrogates_drop [of bs 2]
        by (simp add: json_escape.simps(2))
    qed (use "2.IH" "2.prems" in \<open>simp_all add: json_escape.simps(2) unescape_byte_escape unescape_plain\<close>)
  qed simp
  then show ?thesis using assms escape_json_string_eq [of "[]" bytes]
    by (simp add: escape_json_def)
qed

theorem escape_json_round_trip_witness:
  "json_unescape [0x68, 0x5C, 0x6E, 0x5C, 0x75, 0x64, 0x38, 0x30, 0x30] = Some [0x68, 0x0A, 0xED, 0xA0, 0x80]"
proof (rule escape_json_round_trip)
  show "wtf8_surrogates [0x68, 0x0A, 0xED, 0xA0, 0x80]" by code_simp
  show "escape_json [0x68, 0x0A, 0xED, 0xA0, 0x80] = Some [0x68, 0x5C, 0x6E, 0x5C, 0x75, 0x64, 0x38, 0x30, 0x30]"
    unfolding escape_json_def escape_json_string_eq by code_simp
qed

text \<open>No raw control character or quotation mark is left, so the output can stand
  between quotation marks.\<close>

fun string_body :: "bool \<Rightarrow> u8 list \<Rightarrow> bool" where
  "string_body esc [] \<longleftrightarrow> \<not> esc"
| "string_body True (b # bs) \<longleftrightarrow> 0x20 \<le> b \<and> string_body False bs"
| "string_body False (b # bs) \<longleftrightarrow>
     (if b = 0x5C then string_body True bs else 0x20 \<le> b \<and> b \<noteq> 0x22 \<and> string_body False bs)"

lemma string_body_append: "string_body e xs \<Longrightarrow> string_body False ys \<Longrightarrow> string_body e (xs @ ys)"
  by (induction e xs rule: string_body.induct) (auto split: if_splits)

lemma hex_digit_body: "h < 16 \<Longrightarrow> 0x20 \<le> hex_digit (of_nat h) \<and> hex_digit (of_nat h) \<noteq> 0x22
    \<and> hex_digit (of_nat h) \<noteq> 0x5C"
proof -
  have "\<forall>h \<in> set [0..<16]. 0x20 \<le> hex_digit (of_nat h) \<and> hex_digit (of_nat h) \<noteq> 0x22
      \<and> hex_digit (of_nat h) \<noteq> 0x5C" by code_simp
  then show "h < 16 \<Longrightarrow> 0x20 \<le> hex_digit (of_nat h) \<and> hex_digit (of_nat h) \<noteq> 0x22
      \<and> hex_digit (of_nat h) \<noteq> 0x5C" by simp
qed

lemma string_body_u_escape: "n < 256 \<Longrightarrow> string_body False (u_escape n)"
  using hex_digit_body [of "n div 16"] hex_digit_body [of "n mod 16"] by (simp add: u_escape_def)

lemma string_body_surrogate: "string_body False ([0x5C, 0x75] @ surrogate_hex cp)"
proof -
  have lt: "unat cp div 4096 < 16" using unsigned_less [where 'a = nat, of cp] by simp
  show ?thesis
    unfolding surrogate_hex_digits
    using hex_digit_body [OF lt] hex_digit_body [of "unat cp div 256 mod 16"]
      hex_digit_body [of "unat cp div 16 mod 16"] hex_digit_body [of "unat cp mod 16"] by simp
qed

lemma string_body_byte_escape: "string_body False (byte_escape b)"
  using string_body_u_escape [of "unat b"] unat_u8 [of b] by (simp add: byte_escape_def)

text \<open>
  (C3) The output never contains a control character, an unescaped quotation mark or
  a dangling backslash, on any input bytes, well-formed or not.
\<close>
theorem escape_json_well_formed:
  "escape_json bytes = Some out \<Longrightarrow> string_body False out"
proof -
  have "string_body False (json_escape bytes)"
  proof (induction bytes rule: json_escape.induct)
    case (2 b bs)
    from 2 string_body_append [OF string_body_surrogate]
      string_body_append [OF string_body_byte_escape]
    show ?case by (auto simp: json_escape.simps(2) needs_escape_def)
  qed simp
  then show "escape_json bytes = Some out \<Longrightarrow> string_body False out"
    by (auto simp: escape_json_def escape_json_string_eq)
qed

theorem escape_json_well_formed_witness:
  "string_body False [0x5C, 0x22, 0x5C, 0x75, 0x30, 0x30, 0x31, 0x66]"
proof (rule escape_json_well_formed)
  show "escape_json [0x22, 0x1F] = Some [0x5C, 0x22, 0x5C, 0x75, 0x30, 0x30, 0x31, 0x66]"
    unfolding escape_json_def escape_json_string_eq by code_simp
qed

end
