(* ===== verification/Float64.thy ===== *)
theory Float64
  imports Prelude Complex_Main "HOL-Library.Log_Nat"
begin

text \<open>
  Rust's \<^verbatim>\<open>f64\<close> as far as the queue sizes of the streams need it: addition and
  subtraction round the exact result to the nearest binary64 number, ties to even;
  overflow gives an infinity and comparisons with NaN are false.  The two zeros are
  one value here: no operation below tells them apart.
\<close>

datatype f64 = Fin rat | Infinity bool | NaN

text \<open>\<open>Infinity True\<close> is the negative one.\<close>

subsection \<open>Rounding\<close>

definition round_half_even :: "rat \<Rightarrow> int" where
  "round_half_even r =
     (let n = \<lfloor>r\<rfloor>; d = r - of_int n in
      if d < 1 / 2 then n else if d > 1 / 2 then n + 1 else if even n then n else n + 1)"

text \<open>\<open>ilog2 r\<close> is the exponent of the binade of a positive rational.\<close>

definition ilog2 :: "rat \<Rightarrow> int" where
  "ilog2 r =
     (let (a, b) = quotient_of r; k = int (floorlog 2 (nat a)) - int (floorlog 2 (nat b)) in
      if 2 powi k \<le> r then k else k - 1)"

definition round64 :: "rat \<Rightarrow> f64" where
  "round64 r =
     (if r = 0 then Fin 0
      else let e = max (ilog2 \<bar>r\<bar> - 52) (- 1074);
               v = of_int (round_half_even (r / 2 powi e)) * 2 powi e
           in if 2 ^ 1024 \<le> \<bar>v\<bar> then Infinity (r < 0) else Fin v)"

subsection \<open>Operations\<close>

fun f64_neg :: "f64 \<Rightarrow> f64" where
  "f64_neg (Fin r) = Fin (- r)"
| "f64_neg (Infinity s) = Infinity (\<not> s)"
| "f64_neg NaN = NaN"

fun f64_add :: "f64 \<Rightarrow> f64 \<Rightarrow> f64" where
  "f64_add (Fin a) (Fin b) = round64 (a + b)"
| "f64_add (Infinity s) (Infinity t) = (if s = t then Infinity s else NaN)"
| "f64_add NaN _ = NaN"
| "f64_add _ NaN = NaN"
| "f64_add (Infinity s) (Fin _) = Infinity s"
| "f64_add (Fin _) (Infinity t) = Infinity t"

definition f64_sub :: "f64 \<Rightarrow> f64 \<Rightarrow> f64" where
  "f64_sub a b = f64_add a (f64_neg b)"

fun f64_lt :: "f64 \<Rightarrow> f64 \<Rightarrow> bool" where
  "f64_lt (Fin a) (Fin b) \<longleftrightarrow> a < b"
| "f64_lt (Infinity s) (Infinity t) \<longleftrightarrow> s \<and> \<not> t"
| "f64_lt (Infinity s) (Fin _) \<longleftrightarrow> s"
| "f64_lt (Fin _) (Infinity t) \<longleftrightarrow> \<not> t"
| "f64_lt _ _ \<longleftrightarrow> False"

definition f64_le :: "f64 \<Rightarrow> f64 \<Rightarrow> bool" where
  "f64_le a b \<longleftrightarrow> f64_lt a b \<or> (a = b \<and> a \<noteq> NaN)"

definition f64_is_infinite :: "f64 \<Rightarrow> bool" where
  "f64_is_infinite a \<longleftrightarrow> (\<exists>s. a = Infinity s)"

lemma f64_is_infinite_simps [simp]:
  "f64_is_infinite (Infinity s)" "\<not> f64_is_infinite (Fin r)" "\<not> f64_is_infinite NaN"
  by (auto simp: f64_is_infinite_def)

lemma f64_is_infinite_code [code]:
  "f64_is_infinite a = (case a of Infinity _ \<Rightarrow> True | _ \<Rightarrow> False)"
  by (cases a) auto

subsection \<open>What rounding guarantees\<close>

lemma round_half_even_of_int [simp]: "round_half_even (of_int n) = n"
  by (simp add: round_half_even_def)

lemma round_half_even_nonneg: "0 \<le> r \<Longrightarrow> 0 \<le> round_half_even r"
  by (auto simp: round_half_even_def Let_def)

lemma ilog2_of_nat: "0 < n \<Longrightarrow> n < 2 ^ p \<Longrightarrow> ilog2 (of_nat n) < int p"
proof -
  assume n: "0 < n" "n < 2 ^ p"
  then have "floorlog 2 n \<le> p" using floorlog_le_iff [of 2 n p] by simp
  moreover have "quotient_of (of_nat n) = (int n, 1)"
    using quotient_of_int [of "int n"] by simp
  moreover have "floorlog 2 1 = 1" by (simp add: floorlog_def)
  ultimately show ?thesis by (auto simp: ilog2_def Let_def)
qed

text \<open>Whole numbers below \<open>2^53\<close> are exact.\<close>

lemma round64_nat: "n < 2 ^ 53 \<Longrightarrow> round64 (of_nat n) = Fin (of_nat n)"
proof (cases "n = 0")
  case False
  assume n: "n < 2 ^ 53"
  define e where "e = max (ilog2 (of_nat n) - 52) (- 1074)"
  have "e \<le> 0" using ilog2_of_nat [of n 53] False n by (simp add: e_def)
  then have "(of_nat n :: rat) / 2 powi e = of_int (int n * 2 ^ nat (- e))"
    by (cases e) (auto simp: power_int_def field_simps)
  then have "of_int (round_half_even (of_nat n / 2 powi e)) * 2 powi e = (of_nat n :: rat)"
    by (metis (no_types, lifting) nonzero_divide_eq_eq power_int_not_zero round_half_even_of_int zero_neq_numeral)
  moreover have "(of_nat n :: rat) < 2 ^ 1024"
  proof -
    have "n < 2 ^ 1024" using n by (rule less_le_trans) (rule power_increasing, simp_all)
    then show ?thesis by (metis of_nat_less_numeral_power_cancel_iff)
  qed
  ultimately show ?thesis using False by (simp add: round64_def Let_def flip: e_def)
qed (simp add: round64_def)

text \<open>A sum of non-negative numbers is never negative and never NaN.\<close>

definition f64_nonneg :: "f64 \<Rightarrow> bool" where
  "f64_nonneg a \<longleftrightarrow> (case a of Fin r \<Rightarrow> 0 \<le> r | Infinity s \<Rightarrow> \<not> s | NaN \<Rightarrow> False)"

lemma round64_nonneg: "0 \<le> r \<Longrightarrow> f64_nonneg (round64 r)"
  by (auto simp: round64_def f64_nonneg_def Let_def round_half_even_nonneg)

lemma f64_add_nonneg: "f64_nonneg a \<Longrightarrow> f64_nonneg b \<Longrightarrow> f64_nonneg (f64_add a b)"
  by (cases a; cases b) (auto simp: f64_nonneg_def round64_nonneg [unfolded f64_nonneg_def])

lemma f64_sub_finite_not_NaN: "f64_nonneg a \<Longrightarrow> f64_sub a (Fin r) \<noteq> NaN"
  by (cases a) (auto simp: f64_sub_def f64_nonneg_def round64_def Let_def)

lemma f64_nonneg_iff: "f64_nonneg a \<longleftrightarrow> a \<noteq> NaN \<and> \<not> f64_lt a (Fin 0)"
  by (cases a) (auto simp: f64_nonneg_def)

end
