(* ===== verification/JsPromise.thy ===== *)
theory JsPromise
  imports Float64
begin

text \<open>
  JavaScript values and promises as the stream code sees them
  (\<^verbatim>\<open>modules/llrt_stream_web/src/utils/promise.rs\<close>).

  The promises of a run live in a store, a promise being its index.  A promise is
  settled at most once; reactions are kept by the component that registers them.
  Index \<open>0\<close> is the shared promise \<^verbatim>\<open>promise_resolved_with_undefined\<close> of the
  primordials.  \<open>CloseSentinel\<close> is the global symbol \<^verbatim>\<open>Symbol.for("close sentinel")\<close>.
  The result of calling a JavaScript function is an \<open>outcome\<close>; a thenable object is
  represented by the promise that adopts it.
\<close>

text \<open>The kinds of views of an array buffer (\<^verbatim>\<open>ObjectBytes\<close>), and a view: a region of a buffer.\<close>

datatype view_kind =
    U8Array | I8Array | U16Array | I16Array | U32Array | I32Array | U64Array | I64Array
  | F16Array | F32Array | F64Array | U8ClampedArray | DataView

record array_view =
  av_kind :: view_kind
  av_buffer :: nat
  av_offset :: nat
  av_length :: nat

datatype js_value =
    Undefined
  | Null
  | Number f64
  | CloseSentinel
  | Object nat
  | PromiseRef nat
  | TypeError string
  | RangeError string
  | DomException string
  | JsError string
  | ArrayView array_view
  | ReadResult js_value bool

text \<open>\<open>ReadResult\<close> is the object with the properties \<^verbatim>\<open>value\<close> and \<^verbatim>\<open>done\<close> that a read gives.\<close>

datatype outcome = Ret js_value | Throw js_value

datatype promise_state = Pending | Fulfilled js_value | Rejected js_value

record js_promise =
  p_state :: promise_state
  p_handled :: bool

type_synonym promise_store = "js_promise list"

definition pstate :: "promise_store \<Rightarrow> nat \<Rightarrow> promise_state" where
  "pstate ps p = (if p < length ps then p_state (ps ! p) else Pending)"

text \<open>The functions \<^verbatim>\<open>resolve\<close> and \<^verbatim>\<open>reject\<close> of a promise do nothing the second time.\<close>

definition settle :: "nat \<Rightarrow> promise_state \<Rightarrow> promise_store \<Rightarrow> promise_store" where
  "settle p st ps =
     (if p < length ps \<and> p_state (ps ! p) = Pending then ps[p := (ps ! p)\<lparr>p_state := st\<rparr>] else ps)"

definition alloc :: "promise_state \<Rightarrow> promise_store \<Rightarrow> nat \<times> promise_store" where
  "alloc st ps = (length ps, ps @ [\<lparr>p_state = st, p_handled = False\<rparr>])"

definition primordial_promises :: promise_store where
  "primordial_promises = [\<lparr>p_state = Fulfilled Undefined, p_handled = False\<rparr>]"

definition promise_resolved_with_undefined :: nat where
  "promise_resolved_with_undefined = 0"

definition promise_rejected_with :: "js_value \<Rightarrow> promise_store \<Rightarrow> nat \<times> promise_store" where
  "promise_rejected_with v ps = alloc (Rejected v) ps"

definition promise_rejected_with_constructor :: "string \<Rightarrow> promise_store \<Rightarrow> nat \<times> promise_store" where
  "promise_rejected_with_constructor msg ps = promise_rejected_with (TypeError msg) ps"

text \<open>\<^verbatim>\<open>Promise.resolve\<close> returns a promise as it is.\<close>

fun promise_resolved_with :: "outcome \<Rightarrow> promise_store \<Rightarrow> nat \<times> promise_store" where
  "promise_resolved_with (Ret (PromiseRef p)) ps = (p, ps)"
| "promise_resolved_with (Ret v) ps = alloc (Fulfilled v) ps"
| "promise_resolved_with (Throw e) ps = alloc (Rejected e) ps"

subsection \<open>Promises with their resolving functions\<close>

record resolveable_promise =
  rp_promise :: nat
  rp_resolve :: bool
  rp_reject :: bool

definition rp_new :: "promise_store \<Rightarrow> resolveable_promise \<times> promise_store" where
  "rp_new ps = (let (p, ps') = alloc Pending ps in (\<lparr>rp_promise = p, rp_resolve = True, rp_reject = True\<rparr>, ps'))"

definition rp_resolved_with_undefined :: resolveable_promise where
  "rp_resolved_with_undefined =
     \<lparr>rp_promise = promise_resolved_with_undefined, rp_resolve = False, rp_reject = False\<rparr>"

definition rp_rejected_with :: "js_value \<Rightarrow> promise_store \<Rightarrow> resolveable_promise \<times> promise_store" where
  "rp_rejected_with e ps =
     (let (p, ps') = promise_rejected_with e ps in (\<lparr>rp_promise = p, rp_resolve = False, rp_reject = False\<rparr>, ps'))"

definition rp_resolve_undefined :: "resolveable_promise \<Rightarrow> promise_store \<Rightarrow> promise_store" where
  "rp_resolve_undefined rp ps = (if rp_resolve rp then settle (rp_promise rp) (Fulfilled Undefined) ps else ps)"

text \<open>Resolving with an object looks up its property \<^verbatim>\<open>then\<close>; nobody has defined one on the
  prototype of all objects.\<close>

definition rp_do_resolve :: "resolveable_promise \<Rightarrow> js_value \<Rightarrow> promise_store \<Rightarrow> promise_store" where
  "rp_do_resolve rp v ps = (if rp_resolve rp then settle (rp_promise rp) (Fulfilled v) ps else ps)"

definition rp_do_reject :: "resolveable_promise \<Rightarrow> js_value \<Rightarrow> promise_store \<Rightarrow> promise_store" where
  "rp_do_reject rp e ps = (if rp_reject rp then settle (rp_promise rp) (Rejected e) ps else ps)"

definition rp_is_pending :: "promise_store \<Rightarrow> resolveable_promise \<Rightarrow> bool" where
  "rp_is_pending ps rp \<longleftrightarrow> pstate ps (rp_promise rp) = Pending"

definition rp_set_is_handled :: "resolveable_promise \<Rightarrow> promise_store \<Rightarrow> promise_store" where
  "rp_set_is_handled rp ps =
     (if rp_promise rp < length ps then ps[rp_promise rp := (ps ! rp_promise rp)\<lparr>p_handled := True\<rparr>] else ps)"

subsection \<open>The store only grows\<close>

text \<open>\<open>ps \<sqsubseteq> ps'\<close>: nothing is lost and nothing settled changes.\<close>

definition store_le :: "promise_store \<Rightarrow> promise_store \<Rightarrow> bool" where
  "store_le ps ps' \<longleftrightarrow> length ps \<le> length ps' \<and>
     (\<forall>p < length ps. pstate ps p \<noteq> Pending \<longrightarrow> pstate ps' p = pstate ps p)"

named_theorems store_intros \<open>operations that only extend the promise store\<close>

lemma store_le_refl [simp, store_intros]: "store_le ps ps"
  by (simp add: store_le_def)

lemma store_le_trans [trans]: "store_le a b \<Longrightarrow> store_le b c \<Longrightarrow> store_le a c"
  by (auto simp: store_le_def)

lemma store_le_settle [store_intros]: "store_le ps (settle p st ps)"
  by (auto simp: store_le_def settle_def pstate_def nth_list_update)

lemma store_le_alloc [store_intros]: "alloc st ps = (p, ps') \<Longrightarrow> store_le ps ps'"
  by (auto simp: store_le_def alloc_def pstate_def nth_append)

lemma store_le_reject [store_intros]: "store_le ps (rp_do_reject rp e ps)"
  by (simp add: rp_do_reject_def store_le_settle)

lemma store_le_resolve [store_intros]: "store_le ps (rp_resolve_undefined rp ps)"
  by (simp add: rp_resolve_undefined_def store_le_settle)

lemma store_le_do_resolve [store_intros]: "store_le ps (rp_do_resolve rp v ps)"
  by (simp add: rp_do_resolve_def store_le_settle)

lemma store_le_handled [store_intros]: "store_le ps (rp_set_is_handled rp ps)"
  by (auto simp: store_le_def rp_set_is_handled_def pstate_def nth_list_update)

lemma store_le_new [store_intros]: "rp_new ps = (rp, ps') \<Longrightarrow> store_le ps ps'"
  by (auto simp: rp_new_def split: prod.splits intro: store_le_alloc)

lemma store_le_rejected_with [store_intros]: "rp_rejected_with e ps = (rp, ps') \<Longrightarrow> store_le ps ps'"
  by (auto simp: rp_rejected_with_def promise_rejected_with_def split: prod.splits intro: store_le_alloc)

lemma store_le_promise_rejected_with [store_intros]: "promise_rejected_with e ps = (p, ps') \<Longrightarrow> store_le ps ps'"
  by (auto simp: promise_rejected_with_def intro: store_le_alloc)

lemma store_le_promise_resolved_with [store_intros]: "promise_resolved_with out ps = (p, ps') \<Longrightarrow> store_le ps ps'"
  by (cases "(out, ps)" rule: promise_resolved_with.cases) (auto intro: store_le_alloc)

lemma pstate_settle:
  "pstate (settle p st ps) q = (if q = p \<and> p < length ps \<and> pstate ps p = Pending then st else pstate ps q)"
  by (auto simp: pstate_def settle_def nth_list_update)

lemma length_settle [simp]: "length (settle p st ps) = length ps"
  by (simp add: settle_def)

end
