(* ===== verification/QueueSizes.thy ===== *)
theory QueueSizes
  imports JsPromise
begin

text \<open>
  The queue with sizes of the streams and the queuing strategies:
  \<^verbatim>\<open>modules/llrt_stream_web/src/utils/queue.rs\<close> and
  \<^verbatim>\<open>modules/llrt_stream_web/src/queuing_strategy/mod.rs\<close>.
\<close>

subsection \<open>Sizes\<close>

datatype size_value = SizeJs js_value | SizeNative f64

fun as_number :: "js_value \<Rightarrow> f64 option" where
  "as_number (Number x) = Some x"
| "as_number _ = None"

fun size_as_number :: "size_value \<Rightarrow> f64 option" where
  "size_as_number (SizeJs v) = as_number v"
| "size_as_number (SizeNative x) = Some x"

definition size_from_js :: "js_value \<Rightarrow> size_value" where
  "size_from_js v = (case as_number v of Some x \<Rightarrow> SizeNative x | None \<Rightarrow> SizeJs v)"

definition is_non_negative_number :: "size_value \<Rightarrow> f64 option" where
  "is_non_negative_number v =
     do { number \<leftarrow> size_as_number v;
          if number = NaN then None else if f64_lt number (Fin 0) then None else Some number }"

subsection \<open>The queue\<close>

record value_with_size =
  vs_value :: js_value
  vs_size :: f64

record queue_with_sizes =
  queue :: "value_with_size list"
  queue_total_size :: f64

definition queue_new :: queue_with_sizes where
  "queue_new = \<lparr>queue = [], queue_total_size = Fin 0\<rparr>"

definition size_error :: js_value where
  "size_error = RangeError ''Size must be a finite, non-NaN, non-negative number.''"

definition enqueue_value_with_size ::
  "js_value \<Rightarrow> size_value \<Rightarrow> queue_with_sizes \<Rightarrow> js_value + queue_with_sizes" where
  "enqueue_value_with_size v sz q =
     (case is_non_negative_number sz of
        None \<Rightarrow> Inl size_error
      | Some x \<Rightarrow>
          if f64_is_infinite x then Inl size_error
          else Inr \<lparr>queue = queue q @ [\<lparr>vs_value = v, vs_size = x\<rparr>],
                    queue_total_size = f64_add (queue_total_size q) x\<rparr>)"

text \<open>\<open>None\<close> is the panic on an empty queue.\<close>

definition dequeue_value :: "queue_with_sizes \<Rightarrow> (js_value \<times> queue_with_sizes) option" where
  "dequeue_value q =
     (case queue q of
        [] \<Rightarrow> None
      | x # xs \<Rightarrow>
          let total = f64_sub (queue_total_size q) (vs_size x);
              total' = (if f64_lt total (Fin 0) then Fin 0 else total)
          in Some (vs_value x, \<lparr>queue = xs, queue_total_size = total'\<rparr>))"

definition reset_queue :: "queue_with_sizes \<Rightarrow> queue_with_sizes" where
  "reset_queue q = q\<lparr>queue := [], queue_total_size := Fin 0\<rparr>"

subsection \<open>Strategies\<close>

datatype size_function = SizeFnJs | SizeFnCount | SizeFnByteLength

datatype size_algorithm = AlwaysOne | SizeFunction size_function

record queuing_strategy =
  qs_high_water_mark :: "f64 option"
  qs_size :: "size_function option"

definition extract_high_water_mark :: "queuing_strategy option \<Rightarrow> f64 \<Rightarrow> js_value + f64" where
  "extract_high_water_mark this default_hwm =
     (case this of
        None \<Rightarrow> Inr default_hwm
      | Some qs \<Rightarrow>
          (case qs_high_water_mark qs of
             Some hwm \<Rightarrow> if hwm = NaN \<or> f64_lt hwm (Fin 0) then Inl (RangeError ''Invalid highWaterMark'') else Inr hwm
           | None \<Rightarrow> Inr default_hwm))"

definition extract_size_algorithm :: "queuing_strategy option \<Rightarrow> size_algorithm" where
  "extract_size_algorithm this =
     (case Option.bind this qs_size of None \<Rightarrow> AlwaysOne | Some f \<Rightarrow> SizeFunction f)"

fun is_object :: "js_value \<Rightarrow> bool" where
  "is_object (Object _) = True"
| "is_object (PromiseRef _) = True"
| "is_object (TypeError _) = True"
| "is_object (RangeError _) = True"
| "is_object (DomException _) = True"
| "is_object (JsError _) = True"
| "is_object (ArrayView _) = True"
| "is_object (ReadResult _ _) = True"
| "is_object _ = False"

text \<open>Calling a size function and reading the property \<^verbatim>\<open>byteLength\<close> run code of the
  user; both are arguments here, over any state.\<close>

definition byte_length_size ::
  "(js_value \<Rightarrow> 's \<Rightarrow> (outcome \<times> 's) option) \<Rightarrow> js_value \<Rightarrow> 's \<Rightarrow> (outcome \<times> 's) option" where
  "byte_length_size get_byte_length chunk s =
     (if chunk = Null \<or> chunk = Undefined
      then Some (Throw (TypeError ''ByteLengthQueuingStrategy argument 'chunk' must be an object''), s)
      else if is_object chunk then get_byte_length chunk s
      else Some (Ret Undefined, s))"

definition size_result :: "outcome \<Rightarrow> js_value + size_value" where
  "size_result out = (case out of Ret v \<Rightarrow> Inr (size_from_js v) | Throw e \<Rightarrow> Inl e)"

fun size_algorithm_call ::
  "(js_value \<Rightarrow> 's \<Rightarrow> (outcome \<times> 's) option) \<Rightarrow> (js_value \<Rightarrow> 's \<Rightarrow> (outcome \<times> 's) option)
   \<Rightarrow> size_algorithm \<Rightarrow> js_value \<Rightarrow> 's \<Rightarrow> ((js_value + size_value) \<times> 's) option" where
  "size_algorithm_call f get_byte_length AlwaysOne chunk s = Some (Inr (SizeNative (Fin 1)), s)"
| "size_algorithm_call f get_byte_length (SizeFunction SizeFnCount) chunk s = Some (Inr (SizeNative (Fin 1)), s)"
| "size_algorithm_call f get_byte_length (SizeFunction SizeFnJs) chunk s =
     do { (out, s') \<leftarrow> f chunk s; Some (size_result out, s') }"
| "size_algorithm_call f get_byte_length (SizeFunction SizeFnByteLength) chunk s =
     do { (out, s') \<leftarrow> byte_length_size get_byte_length chunk s; Some (size_result out, s') }"

subsection \<open>The total size\<close>

definition queue_ok :: "queue_with_sizes \<Rightarrow> bool" where
  "queue_ok q \<longleftrightarrow> f64_nonneg (queue_total_size q)
     \<and> (\<forall>x \<in> set (queue q). \<exists>r. vs_size x = Fin r \<and> 0 \<le> r)"

lemma is_non_negative_number_Some:
  "is_non_negative_number sz = Some x \<Longrightarrow> x \<noteq> NaN \<and> \<not> f64_lt x (Fin 0)"
  by (auto simp: is_non_negative_number_def bind_eq_Some_conv split: if_splits)

lemma enqueue_Inr:
  assumes "enqueue_value_with_size v sz q = Inr q'"
  obtains r where "0 \<le> r" "is_non_negative_number sz = Some (Fin r)"
    "q' = \<lparr>queue = queue q @ [\<lparr>vs_value = v, vs_size = Fin r\<rparr>],
           queue_total_size = f64_add (queue_total_size q) (Fin r)\<rparr>"
proof -
  obtain x where x: "is_non_negative_number sz = Some x" "\<not> f64_is_infinite x"
    and q': "q' = \<lparr>queue = queue q @ [\<lparr>vs_value = v, vs_size = x\<rparr>],
           queue_total_size = f64_add (queue_total_size q) x\<rparr>"
    using assms by (auto simp: enqueue_value_with_size_def split: option.splits if_splits)
  from is_non_negative_number_Some [OF x(1)] x(2) obtain r where "x = Fin r" "0 \<le> r"
    by (cases x) auto
  with x q' that show thesis by blast
qed

lemma queue_ok_new: "queue_ok queue_new"
  by (simp add: queue_ok_def queue_new_def f64_nonneg_def)

lemma queue_ok_enqueue: "queue_ok q \<Longrightarrow> enqueue_value_with_size v sz q = Inr q' \<Longrightarrow> queue_ok q'"
  by (erule enqueue_Inr) (auto simp: queue_ok_def f64_nonneg_def [of "Fin _"] intro!: f64_add_nonneg)

lemma queue_ok_dequeue: "queue_ok q \<Longrightarrow> dequeue_value q = Some (v, q') \<Longrightarrow> queue_ok q'"
  using f64_sub_finite_not_NaN [of "queue_total_size q"]
  by (auto simp: queue_ok_def dequeue_value_def Let_def f64_nonneg_iff split: list.splits if_splits)

lemma queue_ok_reset: "queue_ok (reset_queue q)"
  by (simp add: queue_ok_def reset_queue_def f64_nonneg_def)

text \<open>Operations on a queue as a sequence, for the statements below.\<close>

datatype queue_op = Enqueue js_value size_value | Dequeue | Reset

fun queue_step :: "queue_op \<Rightarrow> queue_with_sizes \<Rightarrow> queue_with_sizes option" where
  "queue_step (Enqueue v sz) q = Some (case enqueue_value_with_size v sz q of Inl _ \<Rightarrow> q | Inr q' \<Rightarrow> q')"
| "queue_step Dequeue q = map_option snd (dequeue_value q)"
| "queue_step Reset q = Some (reset_queue q)"

fun queue_run :: "queue_op list \<Rightarrow> queue_with_sizes \<Rightarrow> queue_with_sizes option" where
  "queue_run [] q = Some q"
| "queue_run (x # xs) q = do { q' \<leftarrow> queue_step x q; queue_run xs q' }"

lemma queue_ok_step: "queue_ok q \<Longrightarrow> queue_step x q = Some q' \<Longrightarrow> queue_ok q'"
  by (cases x) (auto simp: queue_ok_reset intro: queue_ok_enqueue queue_ok_dequeue split: sum.splits)

lemma queue_ok_run: "queue_run ops q = Some q' \<Longrightarrow> queue_ok q \<Longrightarrow> queue_ok q'"
  by (induction ops arbitrary: q) (auto simp: bind_eq_Some_conv dest: queue_ok_step)

text \<open>
  (C10) Whatever sizes a strategy returns, the total size of a queue never becomes
  negative or NaN, and every stored size is a finite non-negative number.
\<close>
theorem queue_total_size_sound:
  "queue_run ops queue_new = Some q \<Longrightarrow>
   f64_nonneg (queue_total_size q) \<and> (\<forall>x \<in> set (queue q). \<exists>r. vs_size x = Fin r \<and> 0 \<le> r)"
  using queue_ok_run [OF _ queue_ok_new, of ops q] by (simp add: queue_ok_def)

theorem queue_total_size_sound_witness:
  "f64_nonneg (Fin 3) \<and> (\<exists>r. vs_size \<lparr>vs_value = Undefined, vs_size = Fin 3\<rparr> = Fin r \<and> 0 \<le> r)"
  using queue_total_size_sound [of "[Enqueue Null (SizeNative (Fin 2)), Enqueue Undefined (SizeNative (Fin 3)),
      Enqueue Null (SizeNative NaN), Dequeue]" "\<lparr>queue = [\<lparr>vs_value = Undefined, vs_size = Fin 3\<rparr>], queue_total_size = Fin 3\<rparr>"]
    round64_nat [of 2] round64_nat [of 5] round64_nat [of 3]
  by (simp add: queue_new_def enqueue_value_with_size_def is_non_negative_number_def dequeue_value_def f64_sub_def Let_def)

subsection \<open>Whole sizes are summed exactly\<close>

definition exact :: "nat list \<Rightarrow> queue_with_sizes \<Rightarrow> bool" where
  "exact ns q \<longleftrightarrow> map vs_size (queue q) = map (\<lambda>n. Fin (of_nat n)) ns
     \<and> queue_total_size q = Fin (of_nat (sum_list ns))"

fun whole :: "queue_op \<Rightarrow> nat \<Rightarrow> bool" where
  "whole (Enqueue v sz) n \<longleftrightarrow> sz = SizeNative (Fin (of_nat n))"
| "whole _ n \<longleftrightarrow> n = 0"

lemma exact_enqueue:
  assumes "exact ns q" "sum_list ns + n < 2 ^ 53"
  shows "\<exists>q'. enqueue_value_with_size v (SizeNative (Fin (of_nat n))) q = Inr q' \<and> exact (ns @ [n]) q'"
  using assms round64_nat [of "sum_list ns + n"]
  by (auto simp: exact_def enqueue_value_with_size_def is_non_negative_number_def)

lemma exact_dequeue:
  assumes "exact ns q" "sum_list ns < 2 ^ 53" "dequeue_value q = Some (v, q')"
  shows "exact (tl ns) q'"
proof -
  obtain x xs where q: "queue q = x # xs" using assms(3) by (auto simp: dequeue_value_def split: list.splits)
  with assms(1) obtain m ms where ns: "ns = m # ms" "vs_size x = Fin (of_nat m)"
    by (cases ns) (auto simp: exact_def)
  have "f64_sub (queue_total_size q) (vs_size x) = Fin (of_nat (sum_list ms))"
    using assms(1,2) ns round64_nat [of "sum_list ms"] by (simp add: exact_def f64_sub_def)
  then show ?thesis using assms(1,3) q ns by (auto simp: exact_def dequeue_value_def Let_def)
qed

lemma exact_run:
  "queue_run ops q = Some q' \<Longrightarrow> list_all2 whole ops ks \<Longrightarrow> exact ns q \<Longrightarrow>
   sum_list ns + sum_list ks < 2 ^ 53 \<Longrightarrow> \<exists>ms. exact ms q'"
proof (induction ops arbitrary: q ks ns)
  case (Cons x xs)
  then obtain q1 k ks' where q1: "queue_step x q = Some q1" "queue_run xs q1 = Some q'"
    and k: "ks = k # ks'" "whole x k" "list_all2 whole xs ks'"
    by (auto simp: bind_eq_Some_conv list_all2_Cons1)
  have "\<exists>ns1. exact ns1 q1 \<and> sum_list ns1 \<le> sum_list ns + k"
  proof (cases x)
    case (Enqueue v sz)
    then show ?thesis using exact_enqueue [OF Cons.prems(3), of k v] Cons.prems(4) k q1
      by (force intro: exI [of _ "ns @ [k]"])
  next
    case Dequeue
    then obtain v where "dequeue_value q = Some (v, q1)" using q1 by auto
    from exact_dequeue [OF Cons.prems(3) _ this] Cons.prems(4)
    show ?thesis by (intro exI [of _ "tl ns"]) (cases ns; auto)
  next
    case Reset
    then show ?thesis using q1 by (intro exI [of _ "[]"]) (auto simp: exact_def reset_queue_def)
  qed
  then obtain ns1 where "exact ns1 q1" "sum_list ns1 \<le> sum_list ns + k" by blast
  with Cons.IH [OF q1(2) k(3), of ns1] Cons.prems(4) k(1) show ?case by simp
qed auto

text \<open>
  (C11) As long as the sizes are whole numbers that add up to less than \<open>2^53\<close> (chunk
  counts and byte lengths do), the total size is exactly the sum of the sizes in
  the queue after any sequence of operations: rounding never distorts backpressure.
\<close>
theorem queue_total_size_exact:
  assumes "queue_run ops queue_new = Some q"
    and "list_all2 whole ops sizes" and "sum_list sizes < 2 ^ 53"
  shows "\<exists>ns. map vs_size (queue q) = map (\<lambda>n. Fin (of_nat n)) ns
    \<and> queue_total_size q = Fin (of_nat (sum_list ns))"
proof -
  have "exact [] queue_new" by (simp add: exact_def queue_new_def)
  from exact_run [OF assms(1,2) this] assms(3) show ?thesis by (auto simp: exact_def)
qed

theorem queue_total_size_exact_witness:
  "\<exists>ns. map vs_size [\<lparr>vs_value = Undefined, vs_size = Fin 3\<rparr>] = map (\<lambda>n. Fin (of_nat n)) ns
    \<and> (Fin 3 :: f64) = Fin (of_nat (sum_list ns))"
  using queue_total_size_exact [of "[Enqueue Null (SizeNative (Fin 2)), Enqueue Undefined (SizeNative (Fin 3)), Dequeue]"
      "\<lparr>queue = [\<lparr>vs_value = Undefined, vs_size = Fin 3\<rparr>], queue_total_size = Fin 3\<rparr>" "[2, 3, 0]"]
    round64_nat [of 2] round64_nat [of 5] round64_nat [of 3]
  by (simp add: queue_new_def enqueue_value_with_size_def is_non_negative_number_def dequeue_value_def f64_sub_def Let_def)

end
