(* ===== verification/WritableStream.thy ===== *)
theory WritableStream
  imports QueueSizes
begin

text \<open>
  The writable streams: \<^verbatim>\<open>modules/llrt_stream_web/src/writable/\<close>.

  A \<open>world\<close> holds one stream with its controller, all the writers that were ever
  created for it, the promises, and the reactions that \<^verbatim>\<open>upon_promise\<close> registered.
  An operation is a function on worlds; \<open>None\<close> is a panic (\<^verbatim>\<open>expect\<close>, \<^verbatim>\<open>panic!\<close>), which
  ends the process.

  Code of the user (the underlying sink, the size function, listeners of the abort
  signal) is an argument \<open>u\<close> of every operation that calls it.  It may do anything to
  the world, in particular call the public operations again; \<open>WritableRun\<close> closes
  this loop.

  \<^verbatim>\<open>WritableStreamObjects\<close> bundles the stream, its controller and the writer an
  operation was started with: the latter is the argument \<open>ow\<close> here (\<open>None\<close> for
  \<^verbatim>\<open>UndefinedWriter\<close>).  It is captured, not looked up again: only \<^verbatim>\<open>refresh_writer\<close>
  reads the current writer of the stream.
\<close>

subsection \<open>State\<close>

datatype ws_state = Writable | Closed | Erroring js_value | Errored js_value

record pending_abort =
  pa_promise :: resolveable_promise
  pa_reason :: js_value
  pa_was_already_erroring :: bool

record wstream =
  ws_backpressure :: bool
  ws_close_request :: "resolveable_promise option"
  ws_in_flight_write :: "resolveable_promise option"
  ws_in_flight_close :: "resolveable_promise option"
  ws_pending_abort :: "pending_abort option"
  ws_state :: ws_state
  ws_writer :: "nat option"
  ws_write_requests :: "resolveable_promise list"

datatype sink_algorithm = ReturnUndefined | SinkFunction

record wcontroller =
  wc_abort_algorithm :: "sink_algorithm option"
  wc_close_algorithm :: "sink_algorithm option"
  wc_container :: queue_with_sizes
  wc_started :: bool
  wc_hwm :: f64
  wc_size_algorithm :: "size_algorithm option"
  wc_signal_aborted :: bool
  wc_signal_reason :: "js_value option"
  wc_write_algorithm :: "sink_algorithm option"

record wwriter =
  wr_ready :: resolveable_promise
  wr_closed :: resolveable_promise
  wr_attached :: bool

datatype reaction =
    OnStart
  | OnWrite
  | OnClose "nat option"
  | OnAbort resolveable_promise

record world =
  w_stream :: wstream
  w_controller :: wcontroller
  w_writers :: "nat \<Rightarrow> wwriter"
  w_next_writer :: nat
  w_promises :: promise_store
  w_reactions :: "(nat \<times> reaction) list"

text \<open>The calls into code of the user, with their arguments.\<close>

datatype callback =
    CallStart
  | CallWrite js_value
  | CallClose
  | CallAbort js_value
  | CallSize js_value
  | CallByteLength js_value
  | CallAbortListeners

type_synonym user = "callback \<Rightarrow> world \<Rightarrow> (outcome \<times> world) option"

abbreviation upd_stream :: "(wstream \<Rightarrow> wstream) \<Rightarrow> world \<Rightarrow> world" where
  "upd_stream f w \<equiv> w\<lparr>w_stream := f (w_stream w)\<rparr>"

abbreviation upd_controller :: "(wcontroller \<Rightarrow> wcontroller) \<Rightarrow> world \<Rightarrow> world" where
  "upd_controller f w \<equiv> w\<lparr>w_controller := f (w_controller w)\<rparr>"

abbreviation upd_promises :: "(promise_store \<Rightarrow> promise_store) \<Rightarrow> world \<Rightarrow> world" where
  "upd_promises f w \<equiv> w\<lparr>w_promises := f (w_promises w)\<rparr>"

abbreviation upd_writer :: "nat \<Rightarrow> (wwriter \<Rightarrow> wwriter) \<Rightarrow> world \<Rightarrow> world" where
  "upd_writer i f w \<equiv> w\<lparr>w_writers := (w_writers w)(i := f (w_writers w i))\<rparr>"

definition with_promises :: "(promise_store \<Rightarrow> 'a \<times> promise_store) \<Rightarrow> world \<Rightarrow> 'a \<times> world" where
  "with_promises f w = (let (x, ps) = f (w_promises w) in (x, w\<lparr>w_promises := ps\<rparr>))"

definition upon_promise :: "nat \<Rightarrow> reaction \<Rightarrow> world \<Rightarrow> world" where
  "upon_promise p r w = w\<lparr>w_reactions := w_reactions w @ [(p, r)]\<rparr>"

definition with_writer :: "nat option \<Rightarrow> (nat \<Rightarrow> world \<Rightarrow> world) \<Rightarrow> world \<Rightarrow> world" where
  "with_writer ow f w = (case ow of None \<Rightarrow> w | Some i \<Rightarrow> f i w)"

definition refresh_writer :: "world \<Rightarrow> nat option" where
  "refresh_writer w = ws_writer (w_stream w)"

subsection \<open>Tests on the stream\<close>

definition is_writable_stream_locked :: "wstream \<Rightarrow> bool" where
  "is_writable_stream_locked s \<longleftrightarrow> ws_writer s \<noteq> None"

definition has_operation_marked_in_flight :: "wstream \<Rightarrow> bool" where
  "has_operation_marked_in_flight s \<longleftrightarrow> \<not> (ws_in_flight_write s = None \<and> ws_in_flight_close s = None)"

definition close_queued_or_in_flight :: "wstream \<Rightarrow> bool" where
  "close_queued_or_in_flight s \<longleftrightarrow> \<not> (ws_close_request s = None \<and> ws_in_flight_close s = None)"

definition stored_error :: "wstream \<Rightarrow> js_value" where
  "stored_error s = (case ws_state s of Erroring e \<Rightarrow> e | Errored e \<Rightarrow> e | _ \<Rightarrow> Undefined)"

definition closed_or_errored :: "ws_state \<Rightarrow> bool" where
  "closed_or_errored st \<longleftrightarrow> (case st of Closed \<Rightarrow> True | Errored _ \<Rightarrow> True | _ \<Rightarrow> False)"

subsection \<open>The writer's promises\<close>

definition ensure_ready_promise_rejected :: "js_value \<Rightarrow> nat \<Rightarrow> world \<Rightarrow> world" where
  "ensure_ready_promise_rejected e i w =
     (let wr = w_writers w i;
          (rp, ps) = (if rp_is_pending (w_promises w) (wr_ready wr)
                      then (wr_ready wr, rp_do_reject (wr_ready wr) e (w_promises w))
                      else rp_rejected_with e (w_promises w))
      in upd_writer i (\<lambda>x. x\<lparr>wr_ready := rp\<rparr>) (w\<lparr>w_promises := rp_set_is_handled rp ps\<rparr>))"

definition ensure_closed_promise_rejected :: "js_value \<Rightarrow> nat \<Rightarrow> world \<Rightarrow> world" where
  "ensure_closed_promise_rejected e i w =
     (let wr = w_writers w i;
          (rp, ps) = (if rp_is_pending (w_promises w) (wr_closed wr)
                      then (wr_closed wr, rp_do_reject (wr_closed wr) e (w_promises w))
                      else rp_rejected_with e (w_promises w))
      in upd_writer i (\<lambda>x. x\<lparr>wr_closed := rp\<rparr>) (w\<lparr>w_promises := rp_set_is_handled rp ps\<rparr>))"

definition reject_close_and_closed_promise_if_needed :: "nat option \<Rightarrow> world \<Rightarrow> world" where
  "reject_close_and_closed_promise_if_needed ow w =
     (let w1 = (case ws_close_request (w_stream w) of
                  None \<Rightarrow> w
                | Some rp \<Rightarrow> upd_stream (\<lambda>s. s\<lparr>ws_close_request := None\<rparr>)
                    (upd_promises (rp_do_reject rp (stored_error (w_stream w))) w))
      in with_writer ow
           (\<lambda>i w. let rp = wr_closed (w_writers w i) in
              upd_promises (\<lambda>ps. rp_set_is_handled rp (rp_do_reject rp (stored_error (w_stream w)) ps)) w)
           w1)"

subsection \<open>The controller's data\<close>

definition get_desired_size :: "wcontroller \<Rightarrow> f64" where
  "get_desired_size c = f64_sub (wc_hwm c) (queue_total_size (wc_container c))"

definition get_backpressure :: "wcontroller \<Rightarrow> bool" where
  "get_backpressure c \<longleftrightarrow> f64_le (get_desired_size c) (Fin 0)"

definition clear_algorithms :: "wcontroller \<Rightarrow> wcontroller" where
  "clear_algorithms c = c\<lparr>wc_write_algorithm := None, wc_close_algorithm := None,
     wc_abort_algorithm := None, wc_size_algorithm := None\<rparr>"

definition error_steps :: "wcontroller \<Rightarrow> wcontroller" where
  "error_steps c = c\<lparr>wc_container := reset_queue (wc_container c)\<rparr>"

subsection \<open>Calling the sink\<close>

text \<open>The two ways to perform a write, close or abort algorithm.\<close>

fun sink_call :: "user \<Rightarrow> callback \<Rightarrow> sink_algorithm \<Rightarrow> world \<Rightarrow> (nat \<times> world) option" where
  "sink_call u cb ReturnUndefined w = Some (promise_resolved_with_undefined, w)"
| "sink_call u cb SinkFunction w =
     do { (out, w') \<leftarrow> u cb w; Some (with_promises (promise_resolved_with out) w') }"

text \<open>An algorithm that was cleared is a panic.\<close>

definition write_algorithm :: "user \<Rightarrow> js_value \<Rightarrow> world \<Rightarrow> (nat \<times> world) option" where
  "write_algorithm u chunk w =
     do { alg \<leftarrow> wc_write_algorithm (w_controller w); sink_call u (CallWrite chunk) alg w }"

definition close_algorithm :: "user \<Rightarrow> world \<Rightarrow> (nat \<times> world) option" where
  "close_algorithm u w =
     do { alg \<leftarrow> wc_close_algorithm (w_controller w); sink_call u CallClose alg w }"

definition abort_algorithm :: "user \<Rightarrow> js_value \<Rightarrow> world \<Rightarrow> (nat \<times> world) option" where
  "abort_algorithm u reason w =
     do { alg \<leftarrow> wc_abort_algorithm (w_controller w); sink_call u (CallAbort reason) alg w }"

definition abort_steps :: "user \<Rightarrow> js_value \<Rightarrow> world \<Rightarrow> (nat \<times> world) option" where
  "abort_steps u reason w =
     do { (p, w') \<leftarrow> abort_algorithm u reason w; Some (p, upd_controller clear_algorithms w') }"

subsection \<open>Erroring\<close>

definition finish_erroring :: "user \<Rightarrow> nat option \<Rightarrow> js_value \<Rightarrow> world \<Rightarrow> world option" where
  "finish_erroring u ow e w =
     (let w1 = upd_controller error_steps (upd_stream (\<lambda>s. s\<lparr>ws_state := Errored e\<rparr>) w);
          w2 = upd_stream (\<lambda>s. s\<lparr>ws_write_requests := []\<rparr>)
                 (upd_promises (fold (\<lambda>rp. rp_do_reject rp e) (ws_write_requests (w_stream w1))) w1);
          w3 = upd_stream (\<lambda>s. s\<lparr>ws_pending_abort := None\<rparr>) w2
      in case ws_pending_abort (w_stream w2) of
           None \<Rightarrow> Some (reject_close_and_closed_promise_if_needed ow w3)
         | Some pa \<Rightarrow>
             if pa_was_already_erroring pa
             then Some (reject_close_and_closed_promise_if_needed ow (upd_promises (rp_do_reject (pa_promise pa) e) w3))
             else do { (p, w4) \<leftarrow> abort_steps u (pa_reason pa) w3;
                       Some (upon_promise p (OnAbort (pa_promise pa)) w4) })"

definition start_erroring :: "user \<Rightarrow> nat option \<Rightarrow> js_value \<Rightarrow> world \<Rightarrow> world option" where
  "start_erroring u ow reason w =
     (let w1 = with_writer ow (ensure_ready_promise_rejected reason)
                 (upd_stream (\<lambda>s. s\<lparr>ws_state := Erroring reason\<rparr>) w)
      in if \<not> has_operation_marked_in_flight (w_stream w1) \<and> wc_started (w_controller w1)
         then finish_erroring u ow reason w1 else Some w1)"

definition deal_with_rejection :: "user \<Rightarrow> nat option \<Rightarrow> js_value \<Rightarrow> world \<Rightarrow> world option" where
  "deal_with_rejection u ow e w =
     (case ws_state (w_stream w) of
        Writable \<Rightarrow> start_erroring u ow e w
      | Erroring stored \<Rightarrow> finish_erroring u ow stored w
      | _ \<Rightarrow> None)"

definition controller_error :: "user \<Rightarrow> nat option \<Rightarrow> js_value \<Rightarrow> world \<Rightarrow> world option" where
  "controller_error u ow reason w = start_erroring u ow reason (upd_controller clear_algorithms w)"

definition error_if_needed :: "user \<Rightarrow> nat option \<Rightarrow> js_value \<Rightarrow> world \<Rightarrow> world option" where
  "error_if_needed u ow e w =
     (if ws_state (w_stream w) = Writable then controller_error u ow e w else Some w)"

definition error_stream :: "user \<Rightarrow> js_value \<Rightarrow> world \<Rightarrow> world option" where
  "error_stream u reason w =
     (if ws_state (w_stream w) \<noteq> Writable then Some w else start_erroring u (refresh_writer w) reason w)"

subsection \<open>Requests in flight\<close>

definition mark_first_write_request_in_flight :: "wstream \<Rightarrow> wstream option" where
  "mark_first_write_request_in_flight s =
     (case ws_write_requests s of
        [] \<Rightarrow> None
      | rp # rps \<Rightarrow> Some (s\<lparr>ws_write_requests := rps, ws_in_flight_write := Some rp\<rparr>))"

definition mark_close_request_in_flight :: "wstream \<Rightarrow> wstream option" where
  "mark_close_request_in_flight s =
     (case ws_close_request s of
        None \<Rightarrow> None
      | Some rp \<Rightarrow> Some (s\<lparr>ws_close_request := None, ws_in_flight_close := Some rp\<rparr>))"

definition add_write_request :: "world \<Rightarrow> nat \<times> world" where
  "add_write_request w =
     (let (rp, w') = with_promises rp_new w in
      (rp_promise rp, upd_stream (\<lambda>s. s\<lparr>ws_write_requests := ws_write_requests s @ [rp]\<rparr>) w'))"

definition finish_in_flight_write :: "world \<Rightarrow> world option" where
  "finish_in_flight_write w =
     do { rp \<leftarrow> ws_in_flight_write (w_stream w);
          Some (upd_promises (rp_resolve_undefined rp) (upd_stream (\<lambda>s. s\<lparr>ws_in_flight_write := None\<rparr>) w)) }"

definition finish_in_flight_write_with_error :: "user \<Rightarrow> nat option \<Rightarrow> js_value \<Rightarrow> world \<Rightarrow> world option" where
  "finish_in_flight_write_with_error u ow e w =
     do { rp \<leftarrow> ws_in_flight_write (w_stream w);
          deal_with_rejection u ow e
            (upd_promises (rp_do_reject rp e) (upd_stream (\<lambda>s. s\<lparr>ws_in_flight_write := None\<rparr>) w)) }"

definition finish_in_flight_close :: "nat option \<Rightarrow> world \<Rightarrow> world option" where
  "finish_in_flight_close ow w =
     do { rp \<leftarrow> ws_in_flight_close (w_stream w);
          let w1 = upd_promises (rp_resolve_undefined rp) (upd_stream (\<lambda>s. s\<lparr>ws_in_flight_close := None\<rparr>) w);
          let w2 = (case ws_state (w_stream w1) of
                      Erroring _ \<Rightarrow>
                        (case ws_pending_abort (w_stream w1) of
                           None \<Rightarrow> w1
                         | Some pa \<Rightarrow> upd_promises (rp_resolve_undefined (pa_promise pa))
                             (upd_stream (\<lambda>s. s\<lparr>ws_pending_abort := None\<rparr>) w1))
                    | _ \<Rightarrow> w1);
          let w3 = upd_stream (\<lambda>s. s\<lparr>ws_state := Closed\<rparr>) w2;
          Some (with_writer ow (\<lambda>i w. upd_promises (rp_resolve_undefined (wr_closed (w_writers w i))) w) w3) }"

definition finish_in_flight_close_with_error :: "user \<Rightarrow> nat option \<Rightarrow> js_value \<Rightarrow> world \<Rightarrow> world option" where
  "finish_in_flight_close_with_error u ow e w =
     do { rp \<leftarrow> ws_in_flight_close (w_stream w);
          let w1 = upd_promises (rp_do_reject rp e) (upd_stream (\<lambda>s. s\<lparr>ws_in_flight_close := None\<rparr>) w);
          let w2 = (case ws_pending_abort (w_stream w1) of
                      None \<Rightarrow> w1
                    | Some pa \<Rightarrow> upd_promises (rp_do_reject (pa_promise pa) e)
                        (upd_stream (\<lambda>s. s\<lparr>ws_pending_abort := None\<rparr>) w1));
          deal_with_rejection u ow e w2 }"

text \<open>The entry point of the transform streams.\<close>

definition stream_finish_in_flight_close_with_error :: "user \<Rightarrow> js_value \<Rightarrow> world \<Rightarrow> world option" where
  "stream_finish_in_flight_close_with_error u reason w =
     (if ws_in_flight_close (w_stream w) = None then Some w
      else finish_in_flight_close_with_error u None reason w)"

definition update_backpressure :: "nat option \<Rightarrow> bool \<Rightarrow> world \<Rightarrow> world" where
  "update_backpressure ow backpressure w =
     (if ws_state (w_stream w) \<noteq> Writable then w
      else upd_stream (\<lambda>s. s\<lparr>ws_backpressure := backpressure\<rparr>)
        (with_writer ow
           (\<lambda>i w. if backpressure = ws_backpressure (w_stream w) then w
                  else if backpressure
                  then let (rp, w') = with_promises rp_new w in upd_writer i (\<lambda>x. x\<lparr>wr_ready := rp\<rparr>) w'
                  else upd_promises (rp_resolve_undefined (wr_ready (w_writers w i))) w)
           w))"

subsection \<open>The queue\<close>

definition process_write :: "user \<Rightarrow> js_value \<Rightarrow> world \<Rightarrow> world option" where
  "process_write u chunk w =
     do { s \<leftarrow> mark_first_write_request_in_flight (w_stream w);
          (p, w') \<leftarrow> write_algorithm u chunk (w\<lparr>w_stream := s\<rparr>);
          Some (upon_promise p OnWrite w') }"

definition process_close :: "user \<Rightarrow> nat option \<Rightarrow> world \<Rightarrow> world option" where
  "process_close u ow w =
     do { s \<leftarrow> mark_close_request_in_flight (w_stream w);
          (_, q) \<leftarrow> dequeue_value (wc_container (w_controller w));
          (p, w') \<leftarrow> close_algorithm u (upd_controller (\<lambda>c. c\<lparr>wc_container := q\<rparr>) (w\<lparr>w_stream := s\<rparr>));
          Some (upon_promise p (OnClose ow) (upd_controller clear_algorithms w')) }"

definition advance_queue_if_needed :: "user \<Rightarrow> nat option \<Rightarrow> world \<Rightarrow> world option" where
  "advance_queue_if_needed u ow w =
     (if \<not> wc_started (w_controller w) \<or> ws_in_flight_write (w_stream w) \<noteq> None then Some w
      else case ws_state (w_stream w) of
        Erroring stored \<Rightarrow> finish_erroring u ow stored w
      | _ \<Rightarrow>
          (case queue (wc_container (w_controller w)) of
             [] \<Rightarrow> Some w
           | x # _ \<Rightarrow>
               if vs_value x = CloseSentinel then process_close u ow w
               else process_write u (vs_value x) w))"

text \<open>The size of the sentinel is a number, so enqueueing it cannot throw.\<close>

definition controller_close :: "user \<Rightarrow> nat option \<Rightarrow> world \<Rightarrow> ((js_value + unit) \<times> world) option" where
  "controller_close u ow w =
     (case enqueue_value_with_size CloseSentinel (SizeNative (Fin 0)) (wc_container (w_controller w)) of
        Inl e \<Rightarrow> Some (Inl e, w)
      | Inr q \<Rightarrow> do { w' \<leftarrow> advance_queue_if_needed u ow (upd_controller (\<lambda>c. c\<lparr>wc_container := q\<rparr>) w);
                      Some (Inr (), w') })"

text \<open>The reaction to the sink's write promise and to the enqueueing of a chunk both
  recompute the backpressure, unless the stream is closing.\<close>

definition refresh_backpressure :: "nat option \<Rightarrow> world \<Rightarrow> world" where
  "refresh_backpressure ow w =
     (if \<not> close_queued_or_in_flight (w_stream w) \<and> ws_state (w_stream w) = Writable
      then update_backpressure ow (get_backpressure (w_controller w)) w else w)"

definition controller_write :: "user \<Rightarrow> nat option \<Rightarrow> js_value \<Rightarrow> size_value \<Rightarrow> world \<Rightarrow> world option" where
  "controller_write u ow chunk chunk_size w =
     (case enqueue_value_with_size chunk chunk_size (wc_container (w_controller w)) of
        Inl e \<Rightarrow> error_if_needed u ow e w
      | Inr q \<Rightarrow>
          advance_queue_if_needed u ow
            (refresh_backpressure ow (upd_controller (\<lambda>c. c\<lparr>wc_container := q\<rparr>) w)))"

definition strategy_size_algorithm :: "user \<Rightarrow> js_value \<Rightarrow> world \<Rightarrow> ((js_value + size_value) \<times> world) option" where
  "strategy_size_algorithm u chunk w =
     size_algorithm_call (\<lambda>v. u (CallSize v)) (\<lambda>v. u (CallByteLength v))
       (case wc_size_algorithm (w_controller w) of None \<Rightarrow> AlwaysOne | Some alg \<Rightarrow> alg) chunk w"

definition get_chunk_size :: "user \<Rightarrow> nat option \<Rightarrow> js_value \<Rightarrow> world \<Rightarrow> (size_value \<times> world) option" where
  "get_chunk_size u ow chunk w =
     do { (res, w1) \<leftarrow> strategy_size_algorithm u chunk w;
          (case res of
             Inr chunk_size \<Rightarrow> Some (chunk_size, w1)
           | Inl reason \<Rightarrow> do { w2 \<leftarrow> error_if_needed u ow reason w1; Some (SizeNative (Fin 1), w2) }) }"

subsection \<open>Aborting and closing\<close>

text \<open>\<^verbatim>\<open>AbortController::abort\<close>: the first call sets the reason and runs the listeners of
  the signal; an exception of a listener is passed on.\<close>

definition abort_controller_abort :: "user \<Rightarrow> js_value option \<Rightarrow> world \<Rightarrow> ((js_value + unit) \<times> world) option" where
  "abort_controller_abort u reason w =
     (if wc_signal_aborted (w_controller w) then Some (Inr (), w)
      else
        let r = (case reason of
                   Some v \<Rightarrow> if v = Undefined then DomException ''AbortError'' else v
                 | None \<Rightarrow> DomException ''AbortError'');
            w1 = upd_controller (\<lambda>c. c\<lparr>wc_signal_aborted := True, wc_signal_reason := Some r\<rparr>) w
        in do { (out, w2) \<leftarrow> u CallAbortListeners w1;
                Some (case out of Throw e \<Rightarrow> (Inl e, w2) | Ret _ \<Rightarrow> (Inr (), w2)) })"

definition is_erroring :: "ws_state \<Rightarrow> bool" where
  "is_erroring st \<longleftrightarrow> (case st of Erroring _ \<Rightarrow> True | _ \<Rightarrow> False)"

text \<open>What remains of \<^verbatim>\<open>writable_stream_abort\<close> after the signal.\<close>

definition abort_after_signal :: "user \<Rightarrow> nat option \<Rightarrow> js_value option \<Rightarrow> world \<Rightarrow> (nat \<times> world) option" where
  "abort_after_signal u ow reason w =
     (if closed_or_errored (ws_state (w_stream w)) then Some (promise_resolved_with_undefined, w)
      else case ws_pending_abort (w_stream w) of
        Some pa \<Rightarrow> Some (rp_promise (pa_promise pa), w)
      | None \<Rightarrow>
          let already = is_erroring (ws_state (w_stream w));
              reason' = (if already then Undefined else case reason of Some v \<Rightarrow> v | None \<Rightarrow> Undefined);
              (rp, w1) = with_promises rp_new w;
              w2 = upd_stream (\<lambda>s. s\<lparr>ws_pending_abort := Some \<lparr>pa_promise = rp, pa_reason = reason',
                     pa_was_already_erroring = already\<rparr>\<rparr>) w1
          in do { w3 \<leftarrow> (if already then Some w2 else start_erroring u ow reason' w2);
                  Some (rp_promise rp, w3) })"

definition writable_stream_abort ::
  "user \<Rightarrow> nat option \<Rightarrow> js_value option \<Rightarrow> world \<Rightarrow> ((js_value + nat) \<times> world) option" where
  "writable_stream_abort u ow reason w =
     (if closed_or_errored (ws_state (w_stream w)) then Some (Inr promise_resolved_with_undefined, w)
      else do { (res, w1) \<leftarrow> abort_controller_abort u reason w;
                (case res of
                   Inl e \<Rightarrow> Some (Inl e, w1)
                 | Inr _ \<Rightarrow> do { (p, w2) \<leftarrow> abort_after_signal u ow reason w1; Some (Inr p, w2) }) })"

definition reject_type_error :: "string \<Rightarrow> world \<Rightarrow> ((js_value + nat) \<times> world) option" where
  "reject_type_error msg w =
     (let (p, w') = with_promises (promise_rejected_with_constructor msg) w in Some (Inr p, w'))"

definition writable_stream_close :: "user \<Rightarrow> nat option \<Rightarrow> world \<Rightarrow> ((js_value + nat) \<times> world) option" where
  "writable_stream_close u ow w =
     (if closed_or_errored (ws_state (w_stream w))
      then reject_type_error ''The stream is not in the writable state and cannot be closed'' w
      else
        let (rp, w1) = with_promises rp_new w;
            w2 = upd_stream (\<lambda>s. s\<lparr>ws_close_request := Some rp\<rparr>) w1;
            w3 = with_writer ow
                   (\<lambda>i w. if ws_backpressure (w_stream w) \<and> ws_state (w_stream w) = Writable
                          then upd_promises (rp_resolve_undefined (wr_ready (w_writers w i))) w else w) w2
        in do { (res, w4) \<leftarrow> controller_close u ow w3;
                Some (case res of Inl e \<Rightarrow> (Inl e, w4) | Inr _ \<Rightarrow> (Inr (rp_promise rp), w4)) })"

subsection \<open>The public operations of the stream and the controller\<close>

definition stream_abort :: "user \<Rightarrow> js_value option \<Rightarrow> world \<Rightarrow> ((js_value + nat) \<times> world) option" where
  "stream_abort u reason w =
     (if is_writable_stream_locked (w_stream w)
      then reject_type_error ''Cannot abort a stream that already has a writer'' w
      else writable_stream_abort u None reason w)"

definition stream_close :: "user \<Rightarrow> world \<Rightarrow> ((js_value + nat) \<times> world) option" where
  "stream_close u w =
     (if is_writable_stream_locked (w_stream w)
      then reject_type_error ''Cannot close a stream that already has a writer'' w
      else if close_queued_or_in_flight (w_stream w)
      then reject_type_error ''Cannot close an already-closing stream'' w
      else writable_stream_close u None w)"

definition controller_error_method :: "user \<Rightarrow> js_value option \<Rightarrow> world \<Rightarrow> world option" where
  "controller_error_method u e w =
     (if ws_state (w_stream w) \<noteq> Writable then Some w
      else controller_error u (refresh_writer w) (case e of Some v \<Rightarrow> v | None \<Rightarrow> Undefined) w)"

subsection \<open>Writers\<close>

text \<open>The ready and closed promises of a new writer.\<close>

definition writer_promises :: "wstream \<Rightarrow> promise_store \<Rightarrow> (resolveable_promise \<times> resolveable_promise) \<times> promise_store" where
  "writer_promises s ps =
     (case ws_state s of
        Writable \<Rightarrow>
          let (ready, ps1) = (if \<not> close_queued_or_in_flight s \<and> ws_backpressure s then rp_new ps
                              else (rp_resolved_with_undefined, ps));
              (closed, ps2) = rp_new ps1
          in ((ready, closed), ps2)
      | Erroring e \<Rightarrow>
          let (ready, ps1) = rp_rejected_with e ps;
              (closed, ps2) = rp_new (rp_set_is_handled ready ps1)
          in ((ready, closed), ps2)
      | Closed \<Rightarrow> ((rp_resolved_with_undefined, rp_resolved_with_undefined), ps)
      | Errored e \<Rightarrow>
          let (rp, ps1) = rp_rejected_with e ps in ((rp, rp), rp_set_is_handled rp ps1))"

definition set_up_writer :: "world \<Rightarrow> (js_value + nat) \<times> world" where
  "set_up_writer w =
     (if is_writable_stream_locked (w_stream w)
      then (Inl (TypeError ''This stream has already been locked for exclusive writing by another writer''), w)
      else
        let ((ready, closed), w1) = with_promises (writer_promises (w_stream w)) w;
            i = w_next_writer w
        in (Inr i, upd_stream (\<lambda>s. s\<lparr>ws_writer := Some i\<rparr>)
             (w1\<lparr>w_writers := (w_writers w1)(i := \<lparr>wr_ready = ready, wr_closed = closed, wr_attached = True\<rparr>),
                 w_next_writer := Suc i\<rparr>)))"

definition writer_get_desired_size :: "world \<Rightarrow> f64 option" where
  "writer_get_desired_size w =
     (case ws_state (w_stream w) of
        Errored _ \<Rightarrow> None
      | Erroring _ \<Rightarrow> None
      | Closed \<Rightarrow> Some (Fin 0)
      | Writable \<Rightarrow> Some (get_desired_size (w_controller w)))"

definition writer_desired_size :: "nat \<Rightarrow> world \<Rightarrow> js_value + f64 option" where
  "writer_desired_size i w =
     (if wr_attached (w_writers w i) then Inr (writer_get_desired_size w)
      else Inl (TypeError ''Cannot desiredSize a stream using a released writer''))"

definition writer_abort :: "user \<Rightarrow> nat \<Rightarrow> js_value option \<Rightarrow> world \<Rightarrow> ((js_value + nat) \<times> world) option" where
  "writer_abort u i reason w =
     (if \<not> wr_attached (w_writers w i)
      then reject_type_error ''Cannot abort a stream using a released writer'' w
      else writable_stream_abort u (Some i) reason w)"

definition writer_close :: "user \<Rightarrow> nat \<Rightarrow> world \<Rightarrow> ((js_value + nat) \<times> world) option" where
  "writer_close u i w =
     (if \<not> wr_attached (w_writers w i)
      then reject_type_error ''Cannot close a stream using a released writer'' w
      else if close_queued_or_in_flight (w_stream w)
      then reject_type_error ''Cannot close an already-closing'' w
      else writable_stream_close u (Some i) w)"

definition writer_close_with_error_propagation :: "user \<Rightarrow> nat \<Rightarrow> world \<Rightarrow> ((js_value + nat) \<times> world) option" where
  "writer_close_with_error_propagation u i w =
     (if close_queued_or_in_flight (w_stream w) \<or> ws_state (w_stream w) = Closed
      then Some (Inr promise_resolved_with_undefined, w)
      else case ws_state (w_stream w) of
        Errored e \<Rightarrow> let (p, w') = with_promises (promise_rejected_with e) w in Some (Inr p, w')
      | _ \<Rightarrow> writable_stream_close u (Some i) w)"

definition released_error :: js_value where
  "released_error = TypeError ''Writer was released and can no longer be used to monitor the stream's closedness''"

definition writer_release :: "nat \<Rightarrow> world \<Rightarrow> world" where
  "writer_release i w =
     upd_writer i (\<lambda>x. x\<lparr>wr_attached := False\<rparr>)
       (upd_stream (\<lambda>s. s\<lparr>ws_writer := None\<rparr>)
          (ensure_closed_promise_rejected released_error i (ensure_ready_promise_rejected released_error i w)))"

definition writer_release_lock :: "nat \<Rightarrow> world \<Rightarrow> world" where
  "writer_release_lock i w = (if wr_attached (w_writers w i) then writer_release i w else w)"

text \<open>\<^verbatim>\<open>writable_stream_default_writer_write\<close> after the size is known.\<close>

definition write_sized :: "user \<Rightarrow> nat \<Rightarrow> js_value \<Rightarrow> size_value \<Rightarrow> world \<Rightarrow> ((js_value + nat) \<times> world) option" where
  "write_sized u i chunk chunk_size w =
     (if \<not> wr_attached (w_writers w i)
      then reject_type_error ''Cannot write to a stream using a released writer'' w
      else case ws_state (w_stream w) of
        Errored e \<Rightarrow> let (p, w') = with_promises (promise_rejected_with e) w in Some (Inr p, w')
      | st \<Rightarrow>
          if close_queued_or_in_flight (w_stream w) \<or> st = Closed
          then reject_type_error ''The stream is closing or closed and cannot be written to'' w
          else case st of
            Erroring e \<Rightarrow> let (p, w') = with_promises (promise_rejected_with e) w in Some (Inr p, w')
          | _ \<Rightarrow> let (p, w1) = add_write_request w in
                 do { w2 \<leftarrow> controller_write u (Some i) chunk chunk_size w1; Some (Inr p, w2) })"

definition writer_write :: "user \<Rightarrow> nat \<Rightarrow> js_value option \<Rightarrow> world \<Rightarrow> ((js_value + nat) \<times> world) option" where
  "writer_write u i chunk w =
     (if \<not> wr_attached (w_writers w i)
      then reject_type_error ''Cannot write a stream using a released writer'' w
      else let v = (case chunk of Some v \<Rightarrow> v | None \<Rightarrow> Undefined) in
           do { (chunk_size, w1) \<leftarrow> get_chunk_size u (Some i) v w; write_sized u i v chunk_size w1 })"

subsection \<open>Reactions\<close>

definition on_start :: "user \<Rightarrow> (js_value + js_value) \<Rightarrow> world \<Rightarrow> world option" where
  "on_start u result w =
     (let w1 = upd_controller (\<lambda>c. c\<lparr>wc_started := True\<rparr>) w; ow = refresh_writer w in
      case result of
        Inr _ \<Rightarrow> advance_queue_if_needed u ow w1
      | Inl r \<Rightarrow> deal_with_rejection u ow r w1)"

definition on_write :: "user \<Rightarrow> (js_value + js_value) \<Rightarrow> world \<Rightarrow> world option" where
  "on_write u result w =
     (let ow = refresh_writer w in
      case result of
        Inr _ \<Rightarrow>
          do { w1 \<leftarrow> finish_in_flight_write w;
               (_, q) \<leftarrow> dequeue_value (wc_container (w_controller w1));
               advance_queue_if_needed u ow
                 (refresh_backpressure ow (upd_controller (\<lambda>c. c\<lparr>wc_container := q\<rparr>) w1)) }
      | Inl reason \<Rightarrow>
          finish_in_flight_write_with_error u ow reason
            (if ws_state (w_stream w) = Writable then upd_controller clear_algorithms w else w))"

definition on_close :: "user \<Rightarrow> nat option \<Rightarrow> (js_value + js_value) \<Rightarrow> world \<Rightarrow> world option" where
  "on_close u ow result w =
     (case result of
        Inr _ \<Rightarrow> finish_in_flight_close ow w
      | Inl reason \<Rightarrow> finish_in_flight_close_with_error u ow reason w)"

definition on_abort :: "resolveable_promise \<Rightarrow> (js_value + js_value) \<Rightarrow> world \<Rightarrow> world option" where
  "on_abort rp result w =
     Some (reject_close_and_closed_promise_if_needed (refresh_writer w)
       (upd_promises (case result of Inr _ \<Rightarrow> rp_resolve_undefined rp | Inl e \<Rightarrow> rp_do_reject rp e) w))"

fun run_reaction :: "user \<Rightarrow> reaction \<Rightarrow> (js_value + js_value) \<Rightarrow> world \<Rightarrow> world option" where
  "run_reaction u OnStart result w = on_start u result w"
| "run_reaction u OnWrite result w = on_write u result w"
| "run_reaction u (OnClose ow) result w = on_close u ow result w"
| "run_reaction u (OnAbort rp) result w = on_abort rp result w"

subsection \<open>The constructor\<close>

record underlying_sink =
  us_start :: bool
  us_write :: bool
  us_close :: bool
  us_abort :: bool
  us_type :: bool

definition sink_algorithm_of :: "bool \<Rightarrow> sink_algorithm" where
  "sink_algorithm_of present = (if present then SinkFunction else ReturnUndefined)"

definition initial_stream :: wstream where
  "initial_stream = \<lparr>ws_backpressure = False, ws_close_request = None, ws_in_flight_write = None,
     ws_in_flight_close = None, ws_pending_abort = None, ws_state = Writable, ws_writer = None,
     ws_write_requests = []\<rparr>"

definition initial_controller :: "underlying_sink \<Rightarrow> f64 \<Rightarrow> size_algorithm \<Rightarrow> wcontroller" where
  "initial_controller sink hwm alg =
     \<lparr>wc_abort_algorithm = Some (sink_algorithm_of (us_abort sink)),
      wc_close_algorithm = Some (sink_algorithm_of (us_close sink)),
      wc_container = queue_new, wc_started = False, wc_hwm = hwm, wc_size_algorithm = Some alg,
      wc_signal_aborted = False, wc_signal_reason = None,
      wc_write_algorithm = Some (sink_algorithm_of (us_write sink))\<rparr>"

definition no_writers :: "nat \<Rightarrow> wwriter" where
  "no_writers = (\<lambda>_. \<lparr>wr_ready = rp_resolved_with_undefined, wr_closed = rp_resolved_with_undefined, wr_attached = False\<rparr>)"

definition fresh_world :: "underlying_sink \<Rightarrow> f64 \<Rightarrow> size_algorithm \<Rightarrow> promise_store \<Rightarrow> world" where
  "fresh_world sink hwm alg ps =
     \<lparr>w_stream = initial_stream, w_controller = initial_controller sink hwm alg, w_writers = no_writers,
      w_next_writer = 0, w_promises = ps, w_reactions = []\<rparr>"

definition set_up_controller :: "user \<Rightarrow> sink_algorithm \<Rightarrow> world \<Rightarrow> ((js_value + unit) \<times> world) option" where
  "set_up_controller u start w =
     (let w1 = update_backpressure None (get_backpressure (w_controller w)) w in
      do { (out, w2) \<leftarrow> (case start of ReturnUndefined \<Rightarrow> Some (Ret Undefined, w1) | SinkFunction \<Rightarrow> u CallStart w1);
           (case out of
              Throw e \<Rightarrow> Some (Inl e, w2)
            | Ret v \<Rightarrow>
                let (p, w3) = with_promises (promise_resolved_with (Ret v)) w2
                in Some (Inr (), upon_promise p OnStart w3)) })"

definition stream_new ::
  "user \<Rightarrow> underlying_sink \<Rightarrow> queuing_strategy option \<Rightarrow> promise_store \<Rightarrow> ((js_value + unit) \<times> world) option" where
  "stream_new u sink strategy ps =
     (let alg = extract_size_algorithm strategy in
      if us_type sink then Some (Inl (RangeError ''Invalid type is specified''), fresh_world sink (Fin 1) alg ps)
      else case extract_high_water_mark strategy (Fin 1) of
        Inl e \<Rightarrow> Some (Inl e, fresh_world sink (Fin 1) alg ps)
      | Inr hwm \<Rightarrow> set_up_controller u (sink_algorithm_of (us_start sink)) (fresh_world sink hwm alg ps))"

end
