(* ===== verification/WritableInv.thy ===== *)
theory WritableInv
  imports WritableStream
begin

text \<open>
  The invariant of writable streams and its preservation by every operation.

  \<open>core\<close> holds at every point at which a stream is erroring or about to be; \<open>ws_inv\<close>
  adds what the four states promise.  \<open>keeps\<close> is what code of the user cannot do,
  whatever public operations it calls: it cannot finish a request in flight, start
  the stream, leave a terminal state or change a settled promise.

  The locale \<open>user_code\<close> states the contract of the code of the user; the lemmas
  about the operations are proved inside it.
\<close>

subsection \<open>Reactions\<close>

definition n_start :: "(nat \<times> reaction) list \<Rightarrow> nat" where
  "n_start rs = length (filter (\<lambda>(p, r). r = OnStart) rs)"

definition n_write :: "(nat \<times> reaction) list \<Rightarrow> nat" where
  "n_write rs = length (filter (\<lambda>(p, r). r = OnWrite) rs)"

definition n_close :: "(nat \<times> reaction) list \<Rightarrow> nat" where
  "n_close rs = length (filter (\<lambda>(p, r). case r of OnClose _ \<Rightarrow> True | _ \<Rightarrow> False) rs)"

definition n_abort :: "(nat \<times> reaction) list \<Rightarrow> nat" where
  "n_abort rs = length (filter (\<lambda>(p, r). case r of OnAbort _ \<Rightarrow> True | _ \<Rightarrow> False) rs)"

lemmas n_defs = n_start_def n_write_def n_close_def n_abort_def

definition is_errored :: "ws_state \<Rightarrow> bool" where
  "is_errored st \<longleftrightarrow> (case st of Errored _ \<Rightarrow> True | _ \<Rightarrow> False)"

subsection \<open>The invariant\<close>

abbreviation ws_queue :: "world \<Rightarrow> value_with_size list" where
  "ws_queue w \<equiv> queue (wc_container (w_controller w))"

lemma state_tests [simp]:
  "is_erroring (Erroring e)" "\<not> is_erroring Writable" "\<not> is_erroring Closed" "\<not> is_erroring (Errored e)"
  "closed_or_errored Closed" "closed_or_errored (Errored e)" "\<not> closed_or_errored Writable"
  "\<not> closed_or_errored (Erroring e)" "is_errored (Errored e)" "\<not> is_errored Writable" "\<not> is_errored Closed"
  "\<not> is_errored (Erroring e)"
  by (simp_all add: is_erroring_def closed_or_errored_def is_errored_def)

lemma is_errored_closed: "is_errored st \<Longrightarrow> closed_or_errored st"
  by (cases st) auto

lemma is_erroring_not_errored: "is_erroring st \<Longrightarrow> \<not> is_errored st"
  by (cases st) auto

definition core :: "world \<Rightarrow> bool" where
  "core w \<longleftrightarrow>
     (ws_in_flight_write (w_stream w) \<noteq> None \<longrightarrow> ws_queue w \<noteq> [])
   \<and> (ws_in_flight_close (w_stream w) \<noteq> None \<longrightarrow>
        ws_in_flight_write (w_stream w) = None \<and> ws_close_request (w_stream w) = None
        \<and> ws_queue w = [] \<and> ws_write_requests (w_stream w) = [])
   \<and> (\<not> wc_started (w_controller w) \<longrightarrow> \<not> has_operation_marked_in_flight (w_stream w))
   \<and> n_start (w_reactions w) \<le> (if wc_started (w_controller w) then 0 else 1)
   \<and> n_write (w_reactions w) \<le> (if ws_in_flight_write (w_stream w) = None then 0 else 1)
   \<and> n_close (w_reactions w) \<le> (if ws_in_flight_close (w_stream w) = None then 0 else 1)
   \<and> (\<not> is_errored (ws_state (w_stream w)) \<longrightarrow> n_abort (w_reactions w) = 0)
   \<and> (\<forall>pa. ws_pending_abort (w_stream w) = Some pa \<longrightarrow> \<not> pa_was_already_erroring pa \<longrightarrow>
        ws_in_flight_close (w_stream w) = None \<longrightarrow> wc_abort_algorithm (w_controller w) \<noteq> None)"

text \<open>In a writable stream the queue is the chunks of the requests, oldest first, then
  the sentinel if a close is requested.\<close>

definition queue_shape :: "world \<Rightarrow> bool" where
  "queue_shape w \<longleftrightarrow> (\<exists>cs. map vs_value (ws_queue w) = cs @ (if ws_close_request (w_stream w) = None then [] else [CloseSentinel])
     \<and> CloseSentinel \<notin> set cs
     \<and> length cs = length (ws_write_requests (w_stream w)) + (if ws_in_flight_write (w_stream w) = None then 0 else 1))"

definition has_algorithms :: "world \<Rightarrow> bool" where
  "has_algorithms w \<longleftrightarrow> wc_write_algorithm (w_controller w) \<noteq> None \<and> wc_close_algorithm (w_controller w) \<noteq> None
     \<and> wc_abort_algorithm (w_controller w) \<noteq> None"

definition writable_inv :: "world \<Rightarrow> bool" where
  "writable_inv w \<longleftrightarrow> queue_shape w \<and> ws_pending_abort (w_stream w) = None
     \<and> (ws_in_flight_close (w_stream w) = None \<longrightarrow> has_algorithms w)"

definition terminal_inv :: "world \<Rightarrow> bool" where
  "terminal_inv w \<longleftrightarrow> wc_started (w_controller w) \<and> \<not> has_operation_marked_in_flight (w_stream w)
     \<and> ws_queue w = [] \<and> ws_write_requests (w_stream w) = [] \<and> ws_pending_abort (w_stream w) = None"

definition ws_inv :: "world \<Rightarrow> bool" where
  "ws_inv w \<longleftrightarrow> core w \<and>
     (ws_state (w_stream w) = Writable \<longrightarrow> writable_inv w)
   \<and> (is_erroring (ws_state (w_stream w)) \<longrightarrow> (wc_started (w_controller w) \<longrightarrow> has_operation_marked_in_flight (w_stream w)))
   \<and> (closed_or_errored (ws_state (w_stream w)) \<longrightarrow> terminal_inv w)
   \<and> (ws_state (w_stream w) = Closed \<longrightarrow> ws_close_request (w_stream w) = None)"

text \<open>What \<^verbatim>\<open>advance_queue_if_needed\<close> can be called with.\<close>

definition advance_pre :: "world \<Rightarrow> bool" where
  "advance_pre w \<longleftrightarrow> core w \<and>
     (ws_state (w_stream w) = Writable \<longrightarrow> writable_inv w)
   \<and> (is_erroring (ws_state (w_stream w)) \<longrightarrow> ws_in_flight_close (w_stream w) = None)
   \<and> (closed_or_errored (ws_state (w_stream w)) \<longrightarrow> terminal_inv w)
   \<and> (ws_state (w_stream w) = Closed \<longrightarrow> ws_close_request (w_stream w) = None)"

lemmas inv_defs = ws_inv_def advance_pre_def core_def queue_shape_def has_algorithms_def writable_inv_def
  terminal_inv_def has_operation_marked_in_flight_def

subsection \<open>The frame\<close>

fun state_le :: "ws_state \<Rightarrow> ws_state \<Rightarrow> bool" where
  "state_le Writable st \<longleftrightarrow> st \<noteq> Closed"
| "state_le (Erroring e) st \<longleftrightarrow> st = Erroring e \<or> st = Errored e"
| "state_le Closed st \<longleftrightarrow> st = Closed"
| "state_le (Errored e) st \<longleftrightarrow> st = Errored e"

lemma state_le_refl [simp]: "state_le st st"
  by (cases st) auto

lemma state_le_trans: "state_le a b \<Longrightarrow> state_le b c \<Longrightarrow> state_le a c"
  by (cases a; cases b; cases c) auto

text \<open>Over a whole turn of the event loop a stream may also become closed.\<close>

definition forward :: "ws_state \<Rightarrow> ws_state \<Rightarrow> bool" where
  "forward st st' \<longleftrightarrow> state_le st st' \<or> (st' = Closed \<and> \<not> closed_or_errored st)"

definition keeps :: "world \<Rightarrow> world \<Rightarrow> bool" where
  "keeps w w' \<longleftrightarrow>
     wc_started (w_controller w') = wc_started (w_controller w)
   \<and> n_start (w_reactions w') = n_start (w_reactions w)
   \<and> (ws_in_flight_write (w_stream w) \<noteq> None \<longrightarrow>
        ws_in_flight_write (w_stream w') = ws_in_flight_write (w_stream w)
        \<and> n_write (w_reactions w') = n_write (w_reactions w))
   \<and> (ws_in_flight_close (w_stream w) \<noteq> None \<longrightarrow>
        ws_in_flight_close (w_stream w') = ws_in_flight_close (w_stream w)
        \<and> n_close (w_reactions w') = n_close (w_reactions w))
   \<and> state_le (ws_state (w_stream w)) (ws_state (w_stream w'))
   \<and> store_le (w_promises w) (w_promises w')"

lemma keeps_refl [simp]: "keeps w w"
  by (simp add: keeps_def)

lemma keeps_trans: "keeps a b \<Longrightarrow> keeps b c \<Longrightarrow> keeps a c"
  unfolding keeps_def by (auto intro: state_le_trans store_le_trans)

text \<open>Only the stream, the controller and the reactions matter to the invariant.\<close>

definition same_core :: "world \<Rightarrow> world \<Rightarrow> bool" where
  "same_core w w' \<longleftrightarrow> w_stream w' = w_stream w \<and> w_controller w' = w_controller w
     \<and> w_reactions w' = w_reactions w \<and> store_le (w_promises w) (w_promises w')"

lemma same_core_inv:
  assumes "same_core w w'"
  shows "ws_inv w' = ws_inv w" "core w' = core w" "advance_pre w' = advance_pre w"
proof -
  have "w' = w\<lparr>w_writers := w_writers w', w_next_writer := w_next_writer w', w_promises := w_promises w'\<rparr>"
    using assms by (simp add: same_core_def)
  then obtain a b c where w': "w' = w\<lparr>w_writers := a, w_next_writer := b, w_promises := c\<rparr>" by blast
  show "ws_inv w' = ws_inv w" "core w' = core w" "advance_pre w' = advance_pre w"
    unfolding w' inv_defs by simp_all
qed

lemma same_core_keeps: "same_core w w' \<Longrightarrow> keeps w w'"
  by (simp add: same_core_def keeps_def)

subsection \<open>Operations that touch promises and writers only\<close>

named_theorems quiet \<open>operations that leave the stream, the controller and the reactions alone\<close>

lemma same_core_refl [quiet]: "same_core w w"
  by (simp add: same_core_def)

lemma same_core_trans: "same_core a b \<Longrightarrow> same_core b c \<Longrightarrow> same_core a c"
  unfolding same_core_def by (auto intro: store_le_trans)

lemma same_core_promises [quiet]: "store_le (w_promises w) ps \<Longrightarrow> same_core w (w\<lparr>w_promises := ps\<rparr>)"
  by (simp add: same_core_def)

lemma same_core_writers [quiet]: "same_core w w' \<Longrightarrow> same_core w (w'\<lparr>w_writers := f\<rparr>)"
  by (simp add: same_core_def)

lemma same_core_with_promises [quiet]:
  "with_promises f w = (x, w') \<Longrightarrow> (\<And>ps x ps'. f ps = (x, ps') \<Longrightarrow> store_le ps ps') \<Longrightarrow> same_core w w'"
  by (auto simp: with_promises_def same_core_def split: prod.splits)

lemma same_core_with_writer [quiet]:
  "(\<And>i w. same_core w (f i w)) \<Longrightarrow> same_core w (with_writer ow f w)"
  by (auto simp: with_writer_def same_core_refl split: option.splits)

lemma same_core_ensure_ready [quiet]: "same_core w (ensure_ready_promise_rejected e i w)"
  unfolding ensure_ready_promise_rejected_def Let_def
  by (auto simp: same_core_def split: prod.splits
      intro: store_le_trans [OF store_le_reject] store_le_trans [OF store_le_rejected_with] store_le_handled)

lemma same_core_ensure_closed [quiet]: "same_core w (ensure_closed_promise_rejected e i w)"
  unfolding ensure_closed_promise_rejected_def Let_def
  by (auto simp: same_core_def split: prod.splits
      intro: store_le_trans [OF store_le_reject] store_le_trans [OF store_le_rejected_with] store_le_handled)

lemma store_le_fold_reject [store_intros]: "store_le ps (fold (\<lambda>rp. rp_do_reject rp e) rps ps)"
  by (induction rps arbitrary: ps) (auto intro: store_le_trans [OF store_le_reject])

lemma reject_close_effect:
  "w_stream (reject_close_and_closed_promise_if_needed ow w) = (w_stream w)\<lparr>ws_close_request := None\<rparr>"
  "w_controller (reject_close_and_closed_promise_if_needed ow w) = w_controller w"
  "w_reactions (reject_close_and_closed_promise_if_needed ow w) = w_reactions w"
  "store_le (w_promises w) (w_promises (reject_close_and_closed_promise_if_needed ow w))"
  unfolding reject_close_and_closed_promise_if_needed_def with_writer_def Let_def
  by (auto split: option.splits intro: store_le_trans [OF store_le_reject, OF store_le_trans [OF store_le_reject]] store_le_trans [OF store_le_reject] store_le_reject store_le_handled)

lemma update_backpressure_effect:
  "w_stream (update_backpressure ow b w) = (if ws_state (w_stream w) = Writable
     then (w_stream w)\<lparr>ws_backpressure := b\<rparr> else w_stream w)"
  "w_controller (update_backpressure ow b w) = w_controller w"
  "w_reactions (update_backpressure ow b w) = w_reactions w"
  "store_le (w_promises w) (w_promises (update_backpressure ow b w))"
  unfolding update_backpressure_def with_writer_def with_promises_def Let_def
  by (auto split: option.splits prod.splits intro: store_le_new store_le_resolve)

lemmas effects = reject_close_effect update_backpressure_effect

subsection \<open>The contract of the code of the user\<close>

text \<open>\<open>good w x\<close>: the operation that took \<open>w\<close> to \<open>x\<close> did not panic, kept the invariant and
  stayed within the frame.\<close>

definition good :: "world \<Rightarrow> world option \<Rightarrow> bool" where
  "good w x \<longleftrightarrow> (\<exists>w'. x = Some w' \<and> ws_inv w' \<and> keeps w w')"

definition good_result :: "world \<Rightarrow> ('a \<times> world) option \<Rightarrow> bool" where
  "good_result w x \<longleftrightarrow> (\<exists>r w'. x = Some (r, w') \<and> ws_inv w' \<and> keeps w w')"

lemma goodI: "ws_inv w' \<Longrightarrow> keeps w w' \<Longrightarrow> good w (Some w')"
  by (simp add: good_def)

lemma good_forward:
  "good w x \<Longrightarrow> \<exists>w'. x = Some w' \<and> ws_inv w' \<and> forward (ws_state (w_stream w)) (ws_state (w_stream w'))"
  by (auto simp: good_def keeps_def forward_def)

lemma goodE: "good w x \<Longrightarrow> (\<And>w'. x = Some w' \<Longrightarrow> ws_inv w' \<Longrightarrow> keeps w w' \<Longrightarrow> P) \<Longrightarrow> P"
  by (auto simp: good_def)

lemma good_resultE:
  "good_result w x \<Longrightarrow> (\<And>r w'. x = Some (r, w') \<Longrightarrow> ws_inv w' \<Longrightarrow> keeps w w' \<Longrightarrow> P) \<Longrightarrow> P"
  by (auto simp: good_result_def)

lemma good_same_core: "ws_inv w \<Longrightarrow> same_core w w' \<Longrightarrow> good w (Some w')"
  by (simp add: good_def same_core_inv same_core_keeps)

lemma good_trans: "keeps a b \<Longrightarrow> good b x \<Longrightarrow> good a x"
  by (auto simp: good_def intro: keeps_trans)

lemma good_result_trans: "keeps a b \<Longrightarrow> good_result b x \<Longrightarrow> good_result a x"
  by (auto simp: good_result_def intro: keeps_trans)

lemma good_same_core_trans: "same_core a b \<Longrightarrow> good b x \<Longrightarrow> good a x"
  by (blast intro: good_trans same_core_keeps)

lemma keeps_upon_other:
  "keeps w w' \<Longrightarrow> r \<noteq> OnStart \<Longrightarrow> (r = OnWrite \<Longrightarrow> ws_in_flight_write (w_stream w) = None) \<Longrightarrow>
   (\<And>ow. r = OnClose ow \<Longrightarrow> ws_in_flight_close (w_stream w) = None) \<Longrightarrow> keeps w (upon_promise p r w')"
  by (cases r) (auto simp: keeps_def upon_promise_def n_defs)

locale user_code =
  fixes u :: user
  assumes user_ok: "ws_inv w \<Longrightarrow> good_result w (u cb w)"
begin

lemma sink_call_ok: "ws_inv w \<Longrightarrow> good_result w (sink_call u cb alg w)"
proof (cases alg)
  case SinkFunction
  assume "ws_inv w"
  then obtain out w1 where w1: "u cb w = Some (out, w1)" "ws_inv w1" "keeps w w1"
    using user_ok by (blast elim: good_resultE)
  obtain p w2 where w2: "with_promises (promise_resolved_with out) w1 = (p, w2)" by fastforce
  then have "same_core w1 w2"
    by (rule same_core_with_promises) (rule store_le_promise_resolved_with)
  then show ?thesis
    using SinkFunction w1 w2 same_core_inv(1) same_core_keeps keeps_trans by (auto simp: good_result_def)
qed (simp add: good_result_def)

subsection \<open>Erroring\<close>

lemma finish_erroring_ok:
  assumes c: "core w" and fl: "\<not> has_operation_marked_in_flight (w_stream w)" "wc_started (w_controller w)"
    and st: "ws_state (w_stream w) = Writable \<or> ws_state (w_stream w) = Erroring e"
  shows "good w (finish_erroring u ow e w)"
proof -
  let ?w1 = "upd_controller error_steps (upd_stream (\<lambda>s. s\<lparr>ws_state := Errored e\<rparr>) w)"
  let ?w2 = "upd_stream (\<lambda>s. s\<lparr>ws_write_requests := []\<rparr>)
      (upd_promises (fold (\<lambda>rp. rp_do_reject rp e) (ws_write_requests (w_stream ?w1))) ?w1)"
  let ?w3 = "upd_stream (\<lambda>s. s\<lparr>ws_pending_abort := None\<rparr>) ?w2"
  have i3: "ws_inv ?w3" and k3: "keeps w ?w3"
    using c fl st by (auto simp: inv_defs error_steps_def reset_queue_def keeps_def intro: store_intros)
  have r: "good w (Some (reject_close_and_closed_promise_if_needed ow w'))"
    if "same_core ?w3 w'" for w'
  proof (rule goodI)
    have i: "ws_inv w'" "keeps w w'" "ws_state (w_stream w') = Errored e"
      using i3 same_core_inv(1) [OF that] keeps_trans [OF k3 same_core_keeps [OF that]] that
      by (simp_all add: same_core_def)
    then show "ws_inv (reject_close_and_closed_promise_if_needed ow w')"
      by (auto simp: inv_defs effects)
    have "keeps w' (reject_close_and_closed_promise_if_needed ow w')"
      by (simp add: keeps_def effects)
    with i(2) show "keeps w (reject_close_and_closed_promise_if_needed ow w')" by (rule keeps_trans)
  qed
  show ?thesis
  proof (cases "ws_pending_abort (w_stream w)")
    case None
    then show ?thesis using r [of ?w3] by (simp add: finish_erroring_def Let_def same_core_refl)
  next
    case (Some pa)
    show ?thesis
    proof (cases "pa_was_already_erroring pa")
      case True
      then show ?thesis using Some r [OF same_core_promises [OF store_le_reject]]
        by (simp add: finish_erroring_def Let_def)
    next
      case False
      then obtain alg where alg: "wc_abort_algorithm (w_controller w) = Some alg"
        using c fl Some by (auto simp: core_def has_operation_marked_in_flight_def)
      then have alg3: "wc_abort_algorithm (w_controller ?w3) = Some alg" by (simp add: error_steps_def)
      obtain p w4 where w4: "sink_call u (CallAbort (pa_reason pa)) alg ?w3 = Some (p, w4)" "ws_inv w4" "keeps ?w3 w4"
        using sink_call_ok [OF i3] by (blast elim: good_resultE)
      let ?w5 = "upon_promise p (OnAbort (pa_promise pa)) (upd_controller clear_algorithms w4)"
      have st4: "ws_state (w_stream w4) = Errored e" using w4(3) by (simp add: keeps_def)
      have "ws_inv ?w5" using w4(2) st4
        by (auto simp: inv_defs upon_promise_def clear_algorithms_def n_defs)
      moreover have "keeps w4 ?w5" by (simp add: keeps_def upon_promise_def clear_algorithms_def n_defs)
      then have "keeps w ?w5" using k3 w4(3) keeps_trans by blast
      ultimately show ?thesis
        using Some False w4(1) alg3
        by (simp add: good_def finish_erroring_def Let_def abort_steps_def abort_algorithm_def)
    qed
  qed
qed

lemma start_erroring_ok:
  assumes c: "core w" and st: "ws_state (w_stream w) = Writable"
  shows "good w (start_erroring u ow reason w)"
proof -
  let ?w0 = "upd_stream (\<lambda>s. s\<lparr>ws_state := Erroring reason\<rparr>) w"
  let ?w1 = "with_writer ow (ensure_ready_promise_rejected reason) ?w0"
  have q: "same_core ?w0 ?w1" by (intro quiet)
  have "core ?w0" using c st by (simp add: core_def has_operation_marked_in_flight_def)
  then have c1: "core ?w1" using same_core_inv(2) [OF q] by blast
  have k0: "keeps w ?w0" using st by (simp add: keeps_def)
  have k1: "keeps w ?w1" using k0 same_core_keeps [OF q] keeps_trans by blast
  have eq: "w_stream ?w1 = w_stream ?w0" "w_controller ?w1 = w_controller w" using q by (simp_all add: same_core_def)
  show ?thesis
  proof (cases "\<not> has_operation_marked_in_flight (w_stream ?w1) \<and> wc_started (w_controller ?w1)")
    case True
    then have "good ?w1 (finish_erroring u ow reason ?w1)"
      using c1 eq by (intro finish_erroring_ok) auto
    then show ?thesis using True k1 good_trans by (simp add: start_erroring_def Let_def)
  next
    case False
    then have "ws_inv ?w1" using c1 eq by (auto simp: ws_inv_def)
    with False k1 show ?thesis by (auto simp: start_erroring_def Let_def good_def)
  qed
qed

lemma deal_with_rejection_ok:
  assumes "core w" "\<not> has_operation_marked_in_flight (w_stream w)" "wc_started (w_controller w)"
    and "\<not> closed_or_errored (ws_state (w_stream w))"
  shows "good w (deal_with_rejection u ow e w)"
  using assms by (cases "ws_state (w_stream w)")
    (auto simp: deal_with_rejection_def intro: start_erroring_ok finish_erroring_ok)

lemma controller_error_ok:
  assumes "core w" "ws_state (w_stream w) = Writable" "ws_pending_abort (w_stream w) = None"
  shows "good w (controller_error u ow e w)"
proof -
  let ?w = "upd_controller clear_algorithms w"
  have "core ?w" using assms by (simp add: core_def clear_algorithms_def)
  moreover have "keeps w ?w" by (simp add: keeps_def clear_algorithms_def)
  ultimately show ?thesis
    using start_erroring_ok [of ?w] assms good_trans by (simp add: controller_error_def)
qed

lemma error_if_needed_ok:
  assumes "ws_inv w"
  shows "good w (error_if_needed u ow e w)"
  using assms controller_error_ok [of w ow e]
  by (auto simp: error_if_needed_def ws_inv_def writable_inv_def intro: goodI)

subsection \<open>Advancing the queue\<close>

lemma process_write_ok:
  assumes w: "core w" "ws_state (w_stream w) = Writable" "writable_inv w"
    and fl: "wc_started (w_controller w)" "ws_in_flight_write (w_stream w) = None"
    and q: "ws_queue w = x # xs" "vs_value x \<noteq> CloseSentinel"
  shows "good w (process_write u (vs_value x) w)"
proof -
  have "ws_write_requests (w_stream w) \<noteq> []"
    using w(3) fl(2) q by (auto simp: writable_inv_def queue_shape_def split: if_splits)
  then obtain rp rps where r: "ws_write_requests (w_stream w) = rp # rps" by (cases "ws_write_requests (w_stream w)") auto
  have fc: "ws_in_flight_close (w_stream w) = None" using w(1) r by (auto simp: core_def)
  then obtain alg where alg: "wc_write_algorithm (w_controller w) = Some alg"
    using w(3) by (auto simp: writable_inv_def has_algorithms_def)
  let ?s = "(w_stream w)\<lparr>ws_write_requests := rps, ws_in_flight_write := Some rp\<rparr>"
  let ?w1 = "w\<lparr>w_stream := ?s\<rparr>"
  have "ws_inv ?w1" using w fl q r fc by (auto simp: inv_defs)
  then obtain p w2 where w2: "sink_call u (CallWrite (vs_value x)) alg ?w1 = Some (p, w2)" "ws_inv w2" "keeps ?w1 w2"
    using sink_call_ok by (blast elim: good_resultE)
  have nw: "n_write (w_reactions w2) = 0" "ws_in_flight_write (w_stream w2) = Some rp"
    using w2(3) w(1) fl(2) by (auto simp: keeps_def core_def)
  have "ws_inv (upon_promise p OnWrite w2)"
    using w2(2) nw by (auto simp: inv_defs upon_promise_def n_defs)
  moreover have "keeps w ?w1" using fl by (simp add: keeps_def)
  then have "keeps w (upon_promise p OnWrite w2)"
    using keeps_trans [OF _ w2(3)] fl(2) by (intro keeps_upon_other) auto
  moreover have "process_write u (vs_value x) w = Some (upon_promise p OnWrite w2)"
    using r alg w2(1) by (simp add: process_write_def mark_first_write_request_in_flight_def write_algorithm_def)
  ultimately show ?thesis by (simp add: good_def)
qed

lemma process_close_ok:
  assumes w: "core w" "ws_state (w_stream w) = Writable" "writable_inv w"
    and fl: "wc_started (w_controller w)" "ws_in_flight_write (w_stream w) = None"
    and q: "ws_queue w = x # xs" "vs_value x = CloseSentinel"
  shows "good w (process_close u ow w)"
proof -
  obtain rp where rp: "ws_close_request (w_stream w) = Some rp" "xs = []" "ws_write_requests (w_stream w) = []"
    using w(3) fl(2) q by (auto simp: writable_inv_def queue_shape_def Cons_eq_append_conv split: if_splits)
  have fc: "ws_in_flight_close (w_stream w) = None" using w(1) q by (auto simp: core_def)
  then obtain alg where alg: "wc_close_algorithm (w_controller w) = Some alg"
    using w(3) by (auto simp: writable_inv_def has_algorithms_def)
  obtain v q' where d: "dequeue_value (wc_container (w_controller w)) = Some (v, q')" "queue q' = []"
    using q rp by (auto simp: dequeue_value_def Let_def)
  let ?s = "(w_stream w)\<lparr>ws_close_request := None, ws_in_flight_close := Some rp\<rparr>"
  let ?w1 = "upd_controller (\<lambda>c. c\<lparr>wc_container := q'\<rparr>) (w\<lparr>w_stream := ?s\<rparr>)"
  have "ws_inv ?w1" using w fl rp d fc by (auto simp: inv_defs)
  then obtain p w2 where w2: "sink_call u CallClose alg ?w1 = Some (p, w2)" "ws_inv w2" "keeps ?w1 w2"
    using sink_call_ok by (blast elim: good_resultE)
  have nc: "n_close (w_reactions w2) = 0" "ws_in_flight_close (w_stream w2) = Some rp"
    using w2(3) w(1) fc by (auto simp: keeps_def core_def)
  let ?w3 = "upd_controller clear_algorithms w2"
  have "ws_inv (upon_promise p (OnClose ow) ?w3)"
    using w2(2) nc by (auto simp: inv_defs upon_promise_def n_defs clear_algorithms_def)
  moreover have "keeps w ?w1" using fc by (simp add: keeps_def)
  moreover have "keeps w2 ?w3" by (simp add: keeps_def clear_algorithms_def)
  ultimately have "keeps w (upon_promise p (OnClose ow) ?w3)"
    using keeps_trans w2(3) fc by (intro keeps_upon_other) (blast, auto)
  moreover have "process_close u ow w = Some (upon_promise p (OnClose ow) ?w3)"
    using rp alg w2(1) d(1) by (simp add: process_close_def mark_close_request_in_flight_def close_algorithm_def)
  ultimately show ?thesis using \<open>ws_inv (upon_promise p (OnClose ow) ?w3)\<close> by (simp add: good_def)
qed

lemma advance_ok:
  assumes pre: "advance_pre w"
  shows "good w (advance_queue_if_needed u ow w)"
proof (cases "\<not> wc_started (w_controller w) \<or> ws_in_flight_write (w_stream w) \<noteq> None")
  case True
  then have "ws_inv w" using pre by (auto simp: ws_inv_def advance_pre_def has_operation_marked_in_flight_def)
  with True show ?thesis by (auto simp: advance_queue_if_needed_def intro: goodI)
next
  case False
  then have fl: "wc_started (w_controller w)" "ws_in_flight_write (w_stream w) = None" by auto
  show ?thesis
  proof (cases "ws_state (w_stream w)")
    case Writable
    then have c: "core w" "writable_inv w" using pre by (auto simp: advance_pre_def)
    show ?thesis
    proof (cases "ws_queue w")
      case Nil
      with Writable c fl show ?thesis by (auto simp: advance_queue_if_needed_def ws_inv_def intro: goodI)
    next
      case (Cons x xs)
      with Writable c fl show ?thesis
        using process_write_ok [OF c(1) Writable c(2) fl Cons] process_close_ok [OF c(1) Writable c(2) fl Cons]
        by (simp add: advance_queue_if_needed_def)
    qed
  next
    case (Erroring e)
    then show ?thesis using pre fl
      by (auto simp: advance_queue_if_needed_def advance_pre_def has_operation_marked_in_flight_def
          intro!: finish_erroring_ok)
  qed (use pre fl in \<open>auto simp: advance_queue_if_needed_def advance_pre_def ws_inv_def terminal_inv_def intro: goodI\<close>)
qed

lemma backpressure_irrelevant:
  "advance_pre (upd_stream (\<lambda>s. s\<lparr>ws_backpressure := b\<rparr>) w) = advance_pre w"
  unfolding inv_defs by simp

lemma refresh_backpressure_pre:
  assumes "advance_pre w"
  shows "advance_pre (refresh_backpressure ow w)" "keeps w (refresh_backpressure ow w)"
proof -
  let ?b = "get_backpressure (w_controller w)"
  have "advance_pre (update_backpressure ow ?b w) \<and> keeps w (update_backpressure ow ?b w)"
    if "ws_state (w_stream w) = Writable"
  proof -
    let ?w = "upd_stream (\<lambda>s. s\<lparr>ws_backpressure := ?b\<rparr>) w"
    have q: "same_core ?w (update_backpressure ow ?b w)"
      using that by (simp add: same_core_def effects)
    have "keeps w ?w" by (simp add: keeps_def)
    with assms show ?thesis
      using same_core_inv(3) [OF q] same_core_keeps [OF q] backpressure_irrelevant keeps_trans by blast
  qed
  with assms show "advance_pre (refresh_backpressure ow w)" "keeps w (refresh_backpressure ow w)"
    by (simp_all add: refresh_backpressure_def)
qed

subsection \<open>Writing, closing and aborting\<close>

lemma controller_write_ok:
  assumes w: "core w" "ws_state (w_stream w) = Writable" "writable_inv w"
    and c: "\<not> close_queued_or_in_flight (w_stream w)" and chunk: "chunk \<noteq> CloseSentinel"
  shows "good w (controller_write u ow chunk sz (upd_stream (\<lambda>s. s\<lparr>ws_write_requests := ws_write_requests s @ [rp]\<rparr>) w))"
    (is "good w (controller_write u ow chunk sz ?w1)")
proof -
  have k: "keeps w ?w1" by (simp add: keeps_def)
  have fc: "ws_in_flight_close (w_stream w) = None" "ws_close_request (w_stream w) = None"
    using c by (auto simp: close_queued_or_in_flight_def)
  have c1: "core ?w1" using w(1) fc by (simp add: core_def has_operation_marked_in_flight_def)
  show ?thesis
  proof (cases "enqueue_value_with_size chunk sz (wc_container (w_controller w))")
    case (Inl e)
    have "good ?w1 (controller_error u ow e ?w1)"
      using c1 w by (intro controller_error_ok) (auto simp: writable_inv_def)
    with Inl w k show ?thesis using good_trans by (simp add: controller_write_def error_if_needed_def)
  next
    case (Inr q)
    then obtain x where x: "queue q = ws_queue w @ [x]" "vs_value x = chunk" by (auto elim: enqueue_Inr)
    let ?w2 = "upd_controller (\<lambda>c. c\<lparr>wc_container := q\<rparr>) ?w1"
    have "queue_shape ?w2"
    proof -
      obtain cs where "map vs_value (ws_queue w) = cs" "CloseSentinel \<notin> set cs"
        "length cs = length (ws_write_requests (w_stream w)) + (if ws_in_flight_write (w_stream w) = None then 0 else 1)"
        using w(3) fc(2) by (auto simp: writable_inv_def queue_shape_def)
      then show ?thesis using x chunk fc(2) by (simp add: queue_shape_def)
    qed
    moreover have "core ?w2" using c1 x fc by (simp add: core_def)
    ultimately have pre: "advance_pre ?w2" using w fc by (simp add: advance_pre_def writable_inv_def has_algorithms_def)
    have "keeps w ?w2" using k by (simp add: keeps_def)
    then have "keeps w (refresh_backpressure ow ?w2)" using refresh_backpressure_pre(2) [OF pre] keeps_trans by blast
    with advance_ok [OF refresh_backpressure_pre(1) [OF pre]] Inr show ?thesis
      using good_trans by (simp add: controller_write_def)
  qed
qed

lemma controller_close_ok:
  assumes w: "ws_inv w" "\<not> closed_or_errored (ws_state (w_stream w))" "\<not> close_queued_or_in_flight (w_stream w)"
  shows "good_result w (controller_close u ow (upd_stream (\<lambda>s. s\<lparr>ws_close_request := Some rp\<rparr>) w))"
    (is "good_result w (controller_close u ow ?w1)")
proof -
  have fc: "ws_in_flight_close (w_stream w) = None" "ws_close_request (w_stream w) = None"
    using w(3) by (auto simp: close_queued_or_in_flight_def)
  obtain q where q: "enqueue_value_with_size CloseSentinel (SizeNative (Fin 0)) (wc_container (w_controller w)) = Inr q"
    by (simp add: enqueue_value_with_size_def is_non_negative_number_def)
  then obtain x where x: "queue q = ws_queue w @ [x]" "vs_value x = CloseSentinel" by (auto elim: enqueue_Inr)
  let ?w2 = "upd_controller (\<lambda>c. c\<lparr>wc_container := q\<rparr>) ?w1"
  have "core ?w2" using w(1) x fc by (simp add: ws_inv_def core_def has_operation_marked_in_flight_def)
  moreover have "writable_inv ?w2" if "ws_state (w_stream w) = Writable"
    using w(1) that x fc by (simp add: ws_inv_def writable_inv_def queue_shape_def has_algorithms_def)
  ultimately have "advance_pre ?w2" using w(2) fc by (auto simp: advance_pre_def)
  then have "good ?w2 (advance_queue_if_needed u ow ?w2)" by (rule advance_ok)
  moreover have "keeps w ?w2" by (simp add: keeps_def)
  ultimately have "good w (advance_queue_if_needed u ow ?w2)" using good_trans by blast
  with q show ?thesis by (auto simp: controller_close_def good_def good_result_def)
qed

lemma reject_type_error_ok: "ws_inv w \<Longrightarrow> good_result w (reject_type_error msg w)"
proof -
  assume i: "ws_inv w"
  obtain p w' where w': "with_promises (promise_rejected_with_constructor msg) w = (p, w')" by fastforce
  then have "same_core w w'"
    by (rule same_core_with_promises)
      (auto simp: promise_rejected_with_constructor_def intro: store_le_promise_rejected_with)
  with i w' show ?thesis
    by (auto simp: reject_type_error_def good_result_def same_core_inv(1) same_core_keeps)
qed

lemma rejected_promise_ok:
  "ws_inv w \<Longrightarrow> good_result w (let (p, w') = with_promises (promise_rejected_with e) w in Some (Inr p, w'))"
proof -
  assume i: "ws_inv w"
  obtain p w' where w': "with_promises (promise_rejected_with e) w = (p, w')" by fastforce
  then have "same_core w w'"
    by (rule same_core_with_promises) (rule store_le_promise_rejected_with)
  with i w' show ?thesis by (auto simp: good_result_def same_core_inv(1) same_core_keeps)
qed

lemma writable_stream_close_ok:
  assumes w: "ws_inv w" "\<not> close_queued_or_in_flight (w_stream w)"
  shows "good_result w (writable_stream_close u ow w)"
proof (cases "closed_or_errored (ws_state (w_stream w))")
  case True
  then show ?thesis using reject_type_error_ok [OF w(1)] by (simp add: writable_stream_close_def)
next
  case False
  obtain rp w1 where w1: "with_promises rp_new w = (rp, w1)" by fastforce
  have q1: "same_core w w1" using w1 by (rule same_core_with_promises) (rule store_le_new)
  let ?f = "\<lambda>i w. if ws_backpressure (w_stream w) \<and> ws_state (w_stream w) = Writable
     then upd_promises (rp_resolve_undefined (wr_ready (w_writers w i))) w else w"
  let ?w2 = "upd_stream (\<lambda>s. s\<lparr>ws_close_request := Some rp\<rparr>) w1"
  have q: "same_core ?w2 (with_writer ow ?f ?w2)"
    by (rule same_core_with_writer) (auto intro: same_core_refl same_core_promises store_le_resolve)
  define w3 where "w3 = (with_writer ow ?f ?w2)\<lparr>w_stream := w_stream w1\<rparr>"
  have q3: "same_core w w3" using q q1 by (auto simp: same_core_def w3_def intro: store_le_trans)
  have eq: "with_writer ow ?f ?w2 = upd_stream (\<lambda>s. s\<lparr>ws_close_request := Some rp\<rparr>) w3"
    using q by (simp add: same_core_def w3_def)
  have "good_result w3 (controller_close u ow (with_writer ow ?f ?w2))"
    unfolding eq using w False q3 same_core_inv(1) [OF q3]
    by (intro controller_close_ok) (simp_all add: same_core_def)
  then have "good_result w (controller_close u ow (with_writer ow ?f ?w2))"
    using good_result_trans same_core_keeps [OF q3] by blast
  then obtain res w4 where "controller_close u ow (with_writer ow ?f ?w2) = Some (res, w4)" "ws_inv w4" "keeps w w4"
    by (blast elim: good_resultE)
  then show ?thesis using False w1
    by (cases res) (simp_all add: writable_stream_close_def Let_def good_result_def)
qed

lemma abort_controller_ok:
  assumes "ws_inv w"
  shows "good_result w (abort_controller_abort u reason w)"
proof (cases "wc_signal_aborted (w_controller w)")
  case True
  with assms show ?thesis by (simp add: abort_controller_abort_def good_result_def)
next
  case False
  define r where "r = (case reason of Some v \<Rightarrow> if v = Undefined then DomException ''AbortError'' else v
      | None \<Rightarrow> DomException ''AbortError'')"
  let ?w1 = "upd_controller (\<lambda>c. c\<lparr>wc_signal_aborted := True, wc_signal_reason := Some r\<rparr>) w"
  have "ws_inv ?w1" using assms unfolding inv_defs by simp
  then obtain out w2 where w2: "u CallAbortListeners ?w1 = Some (out, w2)" "ws_inv w2" "keeps ?w1 w2"
    using user_ok by (blast elim: good_resultE)
  moreover have "keeps w ?w1" by (simp add: keeps_def)
  ultimately have "keeps w w2" by (blast intro: keeps_trans)
  with False w2 show ?thesis
    by (cases out) (simp_all add: abort_controller_abort_def Let_def good_result_def flip: r_def)
qed

lemma abort_after_signal_ok:
  assumes w: "ws_inv w"
  shows "good_result w (abort_after_signal u ow reason w)"
proof (cases "closed_or_errored (ws_state (w_stream w)) \<or> ws_pending_abort (w_stream w) \<noteq> None")
  case True
  with w show ?thesis by (auto simp: abort_after_signal_def good_result_def)
next
  case False
  obtain rp w1 where w1: "with_promises rp_new w = (rp, w1)" by fastforce
  have q1: "same_core w w1" using w1 by (rule same_core_with_promises) (rule store_le_new)
  have i1: "ws_inv w1" "keeps w w1" using w same_core_inv(1) [OF q1] same_core_keeps [OF q1] by simp_all
  define pa where "pa r a = \<lparr>pa_promise = rp, pa_reason = r, pa_was_already_erroring = a\<rparr>" for r a
  let ?w2 = "\<lambda>r a. upd_stream (\<lambda>s. s\<lparr>ws_pending_abort := Some (pa r a)\<rparr>) w1"
  have k2: "keeps w (?w2 r a)" for r a using i1(2) by (simp add: keeps_def)
  have st: "w_stream w1 = w_stream w" using q1 by (simp add: same_core_def)
  show ?thesis
  proof (cases "is_erroring (ws_state (w_stream w))")
    case True
    then have "ws_state (w_stream w1) \<noteq> Writable" "\<not> closed_or_errored (ws_state (w_stream w1))"
      using False st by auto
    then have "ws_inv (?w2 r True)" for r using i1(1)
      by (auto simp: ws_inv_def core_def pa_def has_operation_marked_in_flight_def closed_or_errored_def)
    with True False w1 k2 show ?thesis
      by (auto simp: abort_after_signal_def Let_def good_result_def pa_def)
  next
    case erroring: False
    then have wr: "ws_state (w_stream w1) = Writable"
      using False st by (cases "ws_state (w_stream w)") auto
    then have "writable_inv w1" "core w1" using i1(1) by (auto simp: ws_inv_def)
    then have "core (?w2 r False)" for r by (simp add: core_def writable_inv_def has_algorithms_def has_operation_marked_in_flight_def)
    then have "good (?w2 r False) (start_erroring u ow r (?w2 r False))" for r
      using wr by (intro start_erroring_ok) auto
    then have "good w (start_erroring u ow r (?w2 r False))" for r using good_trans k2 by blast
    then obtain w3 where "start_erroring u ow (case reason of Some v \<Rightarrow> v | None \<Rightarrow> Undefined)
        (?w2 (case reason of Some v \<Rightarrow> v | None \<Rightarrow> Undefined) False) = Some w3" "ws_inv w3" "keeps w w3"
      by (blast elim: goodE)
    with erroring False w1 show ?thesis
      by (simp add: abort_after_signal_def Let_def good_result_def pa_def)
  qed
qed

lemma writable_stream_abort_ok:
  assumes "ws_inv w"
  shows "good_result w (writable_stream_abort u ow reason w)"
proof (cases "closed_or_errored (ws_state (w_stream w))")
  case True
  with assms show ?thesis by (simp add: writable_stream_abort_def good_result_def)
next
  case False
  obtain res w1 where w1: "abort_controller_abort u reason w = Some (res, w1)" "ws_inv w1" "keeps w w1"
    using abort_controller_ok [OF assms] by (blast elim: good_resultE)
  obtain p w2 where w2: "abort_after_signal u ow reason w1 = Some (p, w2)" "ws_inv w2" "keeps w1 w2"
    using abort_after_signal_ok [OF w1(2)] by (blast elim: good_resultE)
  have "keeps w w2" using w1(3) w2(3) by (rule keeps_trans)
  with False w1 w2 show ?thesis
    by (cases res) (simp_all add: writable_stream_abort_def good_result_def)
qed

lemma set_up_writer_ok:
  assumes "ws_inv w"
  shows "good_result w (Some (set_up_writer w))"
proof (cases "is_writable_stream_locked (w_stream w)")
  case True
  with assms show ?thesis by (simp add: set_up_writer_def good_result_def)
next
  case False
  have le: "store_le ps ps'" if "writer_promises s ps = (x, ps')" for s ps x ps'
    using that unfolding writer_promises_def Let_def
    by (auto split: ws_state.splits prod.splits if_splits
        intro: store_le_new store_le_trans [OF store_le_new store_le_new] store_le_trans [OF store_le_rejected_with store_le_handled]
          store_le_trans [OF store_le_rejected_with store_le_trans [OF store_le_handled store_le_new]])
  obtain r c w1 where w1: "with_promises (writer_promises (w_stream w)) w = ((r, c), w1)"
    by (metis surj_pair)
  have "same_core w w1" using w1 by (rule same_core_with_promises) (rule le)
  then have i1: "ws_inv w1" "keeps w w1" using assms same_core_inv(1) same_core_keeps by blast+
  let ?w2 = "\<lambda>i ws n. upd_stream (\<lambda>s. s\<lparr>ws_writer := Some i\<rparr>) (w1\<lparr>w_writers := ws, w_next_writer := n\<rparr>)"
  have "ws_inv (?w2 i ws n)" "keeps w (?w2 i ws n)" for i ws n
    using i1 unfolding inv_defs keeps_def by simp_all
  with False w1 show ?thesis by (simp add: set_up_writer_def good_result_def Let_def)
qed

lemma writer_release_ok:
  assumes "ws_inv w"
  shows "good w (Some (writer_release_lock i w))"
proof -
  let ?w1 = "ensure_closed_promise_rejected released_error i (ensure_ready_promise_rejected released_error i w)"
  have "same_core w ?w1" by (rule same_core_trans [OF same_core_ensure_ready same_core_ensure_closed])
  then have i1: "ws_inv ?w1" "keeps w ?w1" using assms same_core_inv(1) same_core_keeps by blast+
  then have "ws_inv (writer_release i w)" "keeps w (writer_release i w)"
    unfolding writer_release_def inv_defs keeps_def by simp_all
  with assms show ?thesis by (simp add: writer_release_lock_def good_def)
qed

lemma strategy_size_ok:
  assumes "ws_inv w"
  shows "good_result w (strategy_size_algorithm u chunk w)"
proof -
  have "good_result w (size_algorithm_call (\<lambda>v. u (CallSize v)) (\<lambda>v. u (CallByteLength v)) alg chunk w)" for alg
  proof (cases alg)
    case (SizeFunction f)
    obtain out w1 where "u (CallSize chunk) w = Some (out, w1)" "ws_inv w1" "keeps w w1"
      using user_ok [OF assms] by (blast elim: good_resultE)
    moreover obtain out' w1' where "u (CallByteLength chunk) w = Some (out', w1')" "ws_inv w1'" "keeps w w1'"
      using user_ok [OF assms] by (blast elim: good_resultE)
    ultimately show ?thesis using SizeFunction assms
      by (cases f) (simp_all add: good_result_def byte_length_size_def)
  qed (use assms in \<open>simp add: good_result_def\<close>)
  then show ?thesis by (simp add: strategy_size_algorithm_def)
qed

lemma get_chunk_size_ok:
  assumes "ws_inv w"
  shows "good_result w (get_chunk_size u ow chunk w)"
proof -
  obtain res w1 where w1: "strategy_size_algorithm u chunk w = Some (res, w1)" "ws_inv w1" "keeps w w1"
    using strategy_size_ok [OF assms] by (blast elim: good_resultE)
  show ?thesis
  proof (cases res)
    case (Inl e)
    obtain w2 where w2: "error_if_needed u ow e w1 = Some w2" "ws_inv w2" "keeps w1 w2"
      using error_if_needed_ok [OF w1(2)] by (blast elim: goodE)
    have "keeps w w2" using w1(3) w2(3) by (rule keeps_trans)
    with w1 w2 Inl show ?thesis by (simp add: get_chunk_size_def good_result_def)
  qed (use w1 in \<open>simp add: get_chunk_size_def good_result_def\<close>)
qed

lemma write_sized_ok:
  assumes w: "ws_inv w" and chunk: "chunk \<noteq> CloseSentinel"
  shows "good_result w (write_sized u i chunk sz w)"
proof -
  have rej: "good_result w (reject_type_error msg w)" for msg using w by (rule reject_type_error_ok)
  have err: "good_result w (let (p, w') = with_promises (promise_rejected_with e) w in Some (Inr p, w'))" for e
    using w by (rule rejected_promise_ok)
  have wr: "good_result w (let (p, w1) = add_write_request w in
      do { w2 \<leftarrow> controller_write u (Some i) chunk sz w1; Some (Inr p, w2) })"
    if st: "ws_state (w_stream w) = Writable" and c: "\<not> close_queued_or_in_flight (w_stream w)"
  proof -
    obtain rp w1 where w1: "with_promises rp_new w = (rp, w1)" by fastforce
    have q: "same_core w w1" using w1 by (rule same_core_with_promises) (rule store_le_new)
    have "good w1 (controller_write u (Some i) chunk sz
        (upd_stream (\<lambda>s. s\<lparr>ws_write_requests := ws_write_requests s @ [rp]\<rparr>) w1))"
      using w same_core_inv(1) [OF q] st c q chunk
      by (intro controller_write_ok) (auto simp: same_core_def ws_inv_def)
    then have "good w (controller_write u (Some i) chunk sz
        (upd_stream (\<lambda>s. s\<lparr>ws_write_requests := ws_write_requests s @ [rp]\<rparr>) w1))"
      by (rule good_same_core_trans [OF q])
    with w1 show ?thesis by (auto simp: add_write_request_def Let_def good_def good_result_def)
  qed
  show ?thesis
    by (cases "ws_state (w_stream w)"; cases "close_queued_or_in_flight (w_stream w)"; cases "wr_attached (w_writers w i)")
      (simp_all add: write_sized_def rej err [unfolded Let_def] wr [unfolded Let_def])
qed

lemma writer_write_ok:
  assumes w: "ws_inv w" and chunk: "chunk \<noteq> Some CloseSentinel"
  shows "good_result w (writer_write u i chunk w)"
proof (cases "wr_attached (w_writers w i)")
  case False
  then show ?thesis using reject_type_error_ok [OF w] by (simp add: writer_write_def)
next
  case True
  define v where "v = (case chunk of Some v \<Rightarrow> v | None \<Rightarrow> Undefined)"
  have v: "v \<noteq> CloseSentinel" using chunk by (cases chunk) (auto simp: v_def)
  obtain sz w1 where w1: "get_chunk_size u (Some i) v w = Some (sz, w1)" "ws_inv w1" "keeps w w1"
    using get_chunk_size_ok [OF w] by (blast elim: good_resultE)
  have "good_result w (write_sized u i v sz w1)"
    using write_sized_ok [OF w1(2) v] w1(3) good_result_trans by blast
  then show ?thesis using True w1 by (simp add: writer_write_def flip: v_def)
qed

subsection \<open>Reactions\<close>

text \<open>A reaction runs after it was taken off the list; it needs no frame.\<close>

lemma on_start_ok:
  assumes w: "ws_inv w" and "\<not> wc_started (w_controller w)" "n_start (w_reactions w) = 0"
  shows "\<exists>w'. on_start u result w = Some w' \<and> ws_inv w' \<and> forward (ws_state (w_stream w)) (ws_state (w_stream w'))"
proof -
  let ?w1 = "upd_controller (\<lambda>c. c\<lparr>wc_started := True\<rparr>) w"
  have fl: "\<not> has_operation_marked_in_flight (w_stream w)" and c: "core ?w1"
    and nc: "\<not> closed_or_errored (ws_state (w_stream w))"
    using assms by (auto simp: inv_defs)
  have "advance_pre ?w1" using w fl c nc
    by (auto simp: advance_pre_def ws_inv_def writable_inv_def queue_shape_def has_algorithms_def
        has_operation_marked_in_flight_def)
  note a = good_forward [OF advance_ok [OF this, of "refresh_writer w"]]
  have "good ?w1 (deal_with_rejection u (refresh_writer w) r ?w1)" for r
    using c fl nc by (intro deal_with_rejection_ok) simp_all
  note b = good_forward [OF this]
  show ?thesis using a b by (cases result) (simp_all add: on_start_def Let_def)
qed

lemma on_write_ok:
  assumes w: "ws_inv w" and rp: "ws_in_flight_write (w_stream w) = Some rp" and n: "n_write (w_reactions w) = 0"
  shows "\<exists>w'. on_write u result w = Some w' \<and> ws_inv w' \<and> forward (ws_state (w_stream w)) (ws_state (w_stream w'))"
proof -
  have c: "core w" and fc: "ws_in_flight_close (w_stream w) = None" and st: "wc_started (w_controller w)"
    and nc: "\<not> closed_or_errored (ws_state (w_stream w))" and q: "ws_queue w \<noteq> []"
    using w rp by (auto simp: inv_defs)
  show ?thesis
  proof (cases result)
    case (Inr v)
    let ?w1 = "upd_promises (rp_resolve_undefined rp) (upd_stream (\<lambda>s. s\<lparr>ws_in_flight_write := None\<rparr>) w)"
    obtain x xs where xs: "ws_queue w = x # xs" using q by (cases "ws_queue w") auto
    then obtain y q' where d: "dequeue_value (wc_container (w_controller w)) = Some (y, q')" "queue q' = xs"
      by (auto simp: dequeue_value_def Let_def)
    let ?w2 = "upd_controller (\<lambda>c. c\<lparr>wc_container := q'\<rparr>) ?w1"
    have "core ?w2" using c n fc by (simp add: core_def has_operation_marked_in_flight_def)
    moreover have "writable_inv ?w2" if "ws_state (w_stream w) = Writable"
    proof -
      have "queue_shape w" using w that by (simp add: ws_inv_def writable_inv_def)
      then obtain cs where cs: "map vs_value (ws_queue w) = cs @ (if ws_close_request (w_stream w) = None then [] else [CloseSentinel])"
        "CloseSentinel \<notin> set cs"
        "length cs = length (ws_write_requests (w_stream w)) + (if ws_in_flight_write (w_stream w) = None then 0 else 1)"
        unfolding queue_shape_def by blast
      then obtain y ys where ys: "cs = y # ys" using rp by (cases cs) auto
      have "queue_shape ?w2" unfolding queue_shape_def
        by (rule exI [of _ ys]) (use cs ys rp xs d(2) in \<open>simp split: if_split_asm\<close>)
      then show ?thesis using w that by (simp add: ws_inv_def writable_inv_def has_algorithms_def)
    qed
    ultimately have "advance_pre ?w2" using nc fc by (auto simp: advance_pre_def)
    then have "good ?w2 (advance_queue_if_needed u (refresh_writer w) (refresh_backpressure (refresh_writer w) ?w2))"
      using advance_ok [OF refresh_backpressure_pre(1)] refresh_backpressure_pre(2) good_trans by blast
    with Inr rp d show ?thesis
      by (auto simp: on_write_def Let_def finish_in_flight_write_def good_def keeps_def forward_def)
  next
    case (Inl e)
    let ?w0 = "if ws_state (w_stream w) = Writable then upd_controller clear_algorithms w else w"
    let ?w1 = "upd_promises (rp_do_reject rp e) (upd_stream (\<lambda>s. s\<lparr>ws_in_flight_write := None\<rparr>) ?w0)"
    have "core ?w1" using c n fc w
      by (auto simp: core_def has_operation_marked_in_flight_def clear_algorithms_def ws_inv_def writable_inv_def)
    moreover have "\<not> has_operation_marked_in_flight (w_stream ?w1)" "wc_started (w_controller ?w1)"
      "\<not> closed_or_errored (ws_state (w_stream ?w1))"
      using fc st nc by (auto simp: has_operation_marked_in_flight_def clear_algorithms_def)
    ultimately have "good ?w1 (deal_with_rejection u (refresh_writer w) e ?w1)"
      by (intro deal_with_rejection_ok)
    then show ?thesis using Inl rp
      by (auto simp: on_write_def Let_def finish_in_flight_write_with_error_def good_def keeps_def forward_def)
  qed
qed

lemma closing_state:
  "ws_state (w_stream (with_writer ow (\<lambda>i w. w\<lparr>w_promises := f i w\<rparr>) w)) = ws_state (w_stream w)"
  by (simp add: with_writer_def split: option.split)

lemma on_close_ok:
  assumes w: "ws_inv w" and rp: "ws_in_flight_close (w_stream w) = Some rp" and n: "n_close (w_reactions w) = 0"
  shows "\<exists>w'. on_close u ow result w = Some w' \<and> ws_inv w' \<and> forward (ws_state (w_stream w)) (ws_state (w_stream w'))"
proof -
  have c: "core w" and st: "wc_started (w_controller w)"
    and nc: "\<not> closed_or_errored (ws_state (w_stream w))"
    and e: "ws_in_flight_write (w_stream w) = None" "ws_close_request (w_stream w) = None" "ws_queue w = []"
      "ws_write_requests (w_stream w) = []"
    using w rp by (auto simp: inv_defs)
  show ?thesis
  proof (cases result)
    case (Inr v)
    let ?w1 = "upd_promises (rp_resolve_undefined rp) (upd_stream (\<lambda>s. s\<lparr>ws_in_flight_close := None\<rparr>) w)"
    have nw: "n_write (w_reactions w) = 0" "n_start (w_reactions w) = 0" using c e st by (auto simp: core_def)
    have closed: "ws_inv (with_writer ow (\<lambda>i w. upd_promises (rp_resolve_undefined (wr_closed (w_writers w i))) w)
        (upd_stream (\<lambda>s. s\<lparr>ws_state := Closed\<rparr>) w2))"
      if w2: "w_stream w2 = (w_stream w)\<lparr>ws_in_flight_close := None, ws_pending_abort := None\<rparr>"
        "w_controller w2 = w_controller w" "w_reactions w2 = w_reactions w" for w2
    proof -
      have "ws_inv (upd_stream (\<lambda>s. s\<lparr>ws_state := Closed\<rparr>) w2)"
        using c st e n nw w2 nc is_errored_closed [of "ws_state (w_stream w)"] by (auto simp: inv_defs)
      moreover have "same_core (upd_stream (\<lambda>s. s\<lparr>ws_state := Closed\<rparr>) w2)
          (with_writer ow (\<lambda>i w. upd_promises (rp_resolve_undefined (wr_closed (w_writers w i))) w)
            (upd_stream (\<lambda>s. s\<lparr>ws_state := Closed\<rparr>) w2))"
        by (rule same_core_with_writer) (auto intro: same_core_promises store_le_resolve)
      ultimately show ?thesis using same_core_inv(1) by blast
    qed
    show ?thesis
    proof (cases "ws_pending_abort (w_stream w)")
      case None
      then show ?thesis using Inr rp closed [of ?w1]
        by (auto simp: on_close_def finish_in_flight_close_def Let_def forward_def nc closing_state split: ws_state.splits)
    next
      case (Some pa)
      then obtain e where "ws_state (w_stream w) = Erroring e"
        using w nc by (cases "ws_state (w_stream w)") (auto simp: ws_inv_def writable_inv_def)
      then show ?thesis using Inr rp Some
          closed [of "upd_promises (rp_resolve_undefined (pa_promise pa)) (upd_stream (\<lambda>s. s\<lparr>ws_pending_abort := None\<rparr>) ?w1)"]
        by (simp add: on_close_def finish_in_flight_close_def Let_def forward_def closing_state)
    qed
  next
    case (Inl reason)
    let ?w1 = "upd_promises (rp_do_reject rp reason) (upd_stream (\<lambda>s. s\<lparr>ws_in_flight_close := None\<rparr>) w)"
    let ?w2 = "case ws_pending_abort (w_stream ?w1) of None \<Rightarrow> ?w1
      | Some pa \<Rightarrow> upd_promises (rp_do_reject (pa_promise pa) reason) (upd_stream (\<lambda>s. s\<lparr>ws_pending_abort := None\<rparr>) ?w1)"
    have "core ?w2" using c e n st
      by (cases "ws_pending_abort (w_stream w)") (auto simp: core_def has_operation_marked_in_flight_def)
    moreover have "\<not> has_operation_marked_in_flight (w_stream ?w2)" "wc_started (w_controller ?w2)"
      "\<not> closed_or_errored (ws_state (w_stream ?w2))"
      using e st nc by (auto simp: has_operation_marked_in_flight_def split: option.splits)
    ultimately have "good ?w2 (deal_with_rejection u ow reason ?w2)" by (intro deal_with_rejection_ok)
    then show ?thesis using Inl rp
      by (cases "ws_pending_abort (w_stream w)")
        (auto simp: on_close_def finish_in_flight_close_with_error_def Let_def good_def keeps_def forward_def)
  qed
qed

lemma on_abort_ok:
  assumes w: "ws_inv w" "is_errored (ws_state (w_stream w))"
  shows "\<exists>w'. on_abort rp result w = Some w' \<and> ws_inv w' \<and> forward (ws_state (w_stream w)) (ws_state (w_stream w'))"
proof -
  obtain e where e: "ws_state (w_stream w) = Errored e" using w(2) by (cases "ws_state (w_stream w)") auto
  let ?w1 = "upd_promises (case result of Inr _ \<Rightarrow> rp_resolve_undefined rp | Inl e \<Rightarrow> rp_do_reject rp e) w"
  have "same_core w ?w1" by (rule same_core_promises) (auto split: sum.splits intro: store_intros)
  then have "ws_inv ?w1" using w(1) same_core_inv(1) by blast
  then have "ws_inv (reject_close_and_closed_promise_if_needed ow ?w1)" for ow
    using e by (auto simp: inv_defs effects)
  then show ?thesis using e by (simp add: on_abort_def effects forward_def)
qed

end

end
