(* ===== verification/WritableRun.thy ===== *)
theory WritableRun
  imports WritableInv
begin

text \<open>
  Runs of a writable stream.  \<open>api\<close> performs one public operation, \<open>cb\<close> turns a
  program of the user (what a callback does in which state, and what it returns)
  into code of the user that calls the public operations again, \<open>ws_step\<close> is one
  turn of the event loop: a public operation from the outside or a reaction whose
  promise is settled.  Reactions may run in any order that respects settlement, and
  any promise may be settled by the outside, so that every scheduling of the
  JavaScript engine is included.

  The results: no run panics, the states only move forward, and what goes wrong
  where the code departs from the Streams standard.
\<close>

subsection \<open>Public operations\<close>

datatype api_op =
    GetWriter
  | StreamAbort "js_value option"
  | StreamClose
  | ControllerError "js_value option"
  | WriterAbort nat "js_value option"
  | WriterClose nat
  | WriterCloseWithErrorPropagation nat
  | WriterReleaseLock nat
  | WriterWrite nat "js_value option"
  | ErrorStream js_value
  | NewPromise
  | SettlePromise nat promise_state

fun api :: "user \<Rightarrow> api_op \<Rightarrow> world \<Rightarrow> world option" where
  "api u GetWriter w = Some (snd (set_up_writer w))"
| "api u (StreamAbort r) w = map_option snd (stream_abort u r w)"
| "api u StreamClose w = map_option snd (stream_close u w)"
| "api u (ControllerError e) w = controller_error_method u e w"
| "api u (WriterAbort i r) w = map_option snd (writer_abort u i r w)"
| "api u (WriterClose i) w = map_option snd (writer_close u i w)"
| "api u (WriterCloseWithErrorPropagation i) w =
     (if wr_attached (w_writers w i) then map_option snd (writer_close_with_error_propagation u i w) else Some w)"
| "api u (WriterReleaseLock i) w = Some (writer_release_lock i w)"
| "api u (WriterWrite i chunk) w = map_option snd (writer_write u i chunk w)"
| "api u (ErrorStream e) w = error_stream u e w"
| "api u NewPromise w = Some (snd (with_promises (alloc Pending) w))"
| "api u (SettlePromise p st) w = Some (upd_promises (settle p st) w)"

fun api_ops :: "user \<Rightarrow> api_op list \<Rightarrow> world \<Rightarrow> world option" where
  "api_ops u [] w = Some w"
| "api_ops u (x # xs) w = do { w' \<leftarrow> api u x w; api_ops u xs w' }"

fun sane_op :: "api_op \<Rightarrow> bool" where
  "sane_op (WriterWrite i chunk) \<longleftrightarrow> chunk \<noteq> Some CloseSentinel"
| "sane_op _ \<longleftrightarrow> True"

context user_code
begin

lemma map_snd_good: "good_result w x \<Longrightarrow> good w (map_option snd x)"
  by (auto simp: good_result_def good_def)

lemma api_ok:
  assumes w: "ws_inv w" and "sane_op x"
  shows "good w (api u x w)"
proof (cases x)
  case (StreamAbort r)
  show ?thesis unfolding StreamAbort
    by (auto simp: stream_abort_def intro!: map_snd_good reject_type_error_ok writable_stream_abort_ok w)
next
  case StreamClose
  show ?thesis unfolding StreamClose
    by (auto simp: stream_close_def intro!: map_snd_good reject_type_error_ok writable_stream_close_ok w)
next
  case (ControllerError e)
  show ?thesis using w unfolding ControllerError
    by (auto simp: controller_error_method_def ws_inv_def writable_inv_def intro!: controller_error_ok goodI)
next
  case (WriterAbort i r)
  show ?thesis unfolding WriterAbort
    by (auto simp: writer_abort_def intro!: map_snd_good reject_type_error_ok writable_stream_abort_ok w)
next
  case (WriterClose i)
  show ?thesis unfolding WriterClose
    by (auto simp: writer_close_def intro!: map_snd_good reject_type_error_ok writable_stream_close_ok w)
next
  case (WriterCloseWithErrorPropagation i)
  have "good_result w (writer_close_with_error_propagation u i w)"
    using w by (cases "ws_state (w_stream w)")
      (simp_all add: writer_close_with_error_propagation_def good_result_def [of _ "Some (_, w)"]
        rejected_promise_ok [OF w, unfolded Let_def] writable_stream_close_ok [OF w])
  with w show ?thesis unfolding WriterCloseWithErrorPropagation by (auto intro: map_snd_good goodI)
next
  case (WriterWrite i chunk)
  then show ?thesis using writer_write_ok [OF w] assms(2) by (auto intro: map_snd_good)
next
  case (ErrorStream e)
  show ?thesis using w unfolding ErrorStream
    by (auto simp: error_stream_def ws_inv_def intro!: start_erroring_ok goodI)
next
  case NewPromise
  obtain p w' where w': "with_promises (alloc Pending) w = (p, w')" by fastforce
  then have "same_core w w'" by (rule same_core_with_promises) (rule store_le_alloc)
  with w w' NewPromise show ?thesis by (simp add: good_same_core)
next
  case (SettlePromise p st)
  with w show ?thesis by (auto intro!: good_same_core same_core_promises store_le_settle)
next
  case GetWriter
  with set_up_writer_ok [OF w] show ?thesis using map_snd_good by fastforce
qed (use writer_release_ok [OF w] in auto)

lemma api_ops_ok: "ws_inv w \<Longrightarrow> list_all sane_op xs \<Longrightarrow> good w (api_ops u xs w)"
proof (induction xs arbitrary: w)
  case (Cons x xs)
  obtain w1 where w1: "api u x w = Some w1" "ws_inv w1" "keeps w w1"
    using api_ok [of w x] Cons.prems by (auto elim: goodE)
  then have "good w1 (api_ops u xs w1)" using Cons by simp
  with w1 show ?case using good_trans by simp
qed (simp add: goodI)

end

subsection \<open>Programs of the user\<close>

type_synonym program = "callback \<Rightarrow> world \<Rightarrow> api_op list \<times> outcome"

text \<open>Calls nest at most \<open>n\<close> deep; deeper ones are the stack overflow of the engine.\<close>

fun cb :: "program \<Rightarrow> nat \<Rightarrow> user" where
  "cb prog 0 c w = Some (Throw (RangeError ''Maximum call stack size exceeded''), w)"
| "cb prog (Suc n) c w =
     (let (ops, out) = prog c w in do { w' \<leftarrow> api_ops (cb prog n) ops w; Some (out, w') })"

definition sane :: "program \<Rightarrow> bool" where
  "sane prog \<longleftrightarrow> (\<forall>c w. list_all sane_op (fst (prog c w)))"

definition without_sentinel :: "program \<Rightarrow> program" where
  "without_sentinel prog c w = (filter sane_op (fst (prog c w)), snd (prog c w))"

lemma sane_without_sentinel: "sane (without_sentinel prog)"
  by (simp add: sane_def without_sentinel_def list_all_iff)

lemma without_sentinel_sane: "sane prog \<Longrightarrow> without_sentinel prog = prog"
  by (auto simp: sane_def without_sentinel_def list_all_iff fun_eq_iff prod_eq_iff)

lemma user_code_cb: "sane prog \<Longrightarrow> user_code (cb prog n)"
proof (induction n)
  case 0
  show ?case by unfold_locales (simp add: good_result_def)
next
  case (Suc n)
  then have "user_code (cb prog n)" by blast
  then have *: "ws_inv w \<Longrightarrow> good w (api_ops (cb prog n) (fst (prog c w)) w)" for c w
    using user_code.api_ops_ok [of "cb prog n"] Suc.prems by (auto simp: sane_def)
  show ?case
  proof
    fix w c
    assume "ws_inv w"
    from * [OF this, of c] show "good_result w (cb prog (Suc n) c w)"
      by (auto simp: good_def good_result_def split_beta)
  qed
qed

interpretation prog: user_code "cb (without_sentinel prog) n" for prog n
  by (rule user_code_cb) (rule sane_without_sentinel)

subsection \<open>Runs\<close>

datatype event = Api api_op | React nat

definition remove_nth :: "nat \<Rightarrow> 'a list \<Rightarrow> 'a list" where
  "remove_nth k xs = take k xs @ drop (Suc k) xs"

definition react :: "user \<Rightarrow> nat \<Rightarrow> world \<Rightarrow> world option" where
  "react u k w =
     (if k < length (w_reactions w) then
        let (p, r) = w_reactions w ! k;
            w1 = w\<lparr>w_reactions := remove_nth k (w_reactions w)\<rparr>
        in case pstate (w_promises w) p of
             Pending \<Rightarrow> Some w
           | Fulfilled v \<Rightarrow> run_reaction u r (Inr v) w1
           | Rejected e \<Rightarrow> run_reaction u r (Inl e) w1
      else Some w)"

fun ws_step :: "user \<Rightarrow> event \<Rightarrow> world \<Rightarrow> world option" where
  "ws_step u (Api x) w = api u x w"
| "ws_step u (React k) w = react u k w"

fun sane_event :: "event \<Rightarrow> bool" where
  "sane_event (Api x) \<longleftrightarrow> sane_op x"
| "sane_event (React k) \<longleftrightarrow> True"

inductive reachable :: "user \<Rightarrow> world \<Rightarrow> bool" for u where
  new: "stream_new u sink strategy primordial_promises = Some (res, w) \<Longrightarrow> reachable u w"
| step: "reachable u w \<Longrightarrow> sane_event ev \<Longrightarrow> ws_step u ev w = Some w' \<Longrightarrow> reachable u w'"

lemma n_remove_nth:
  assumes "k < length rs" "rs ! k = (p, r)"
  shows "n_start rs = n_start (remove_nth k rs) + (if r = OnStart then 1 else 0)"
    "n_write rs = n_write (remove_nth k rs) + (if r = OnWrite then 1 else 0)"
    "n_close rs = n_close (remove_nth k rs) + (case r of OnClose _ \<Rightarrow> 1 | _ \<Rightarrow> 0)"
    "n_abort rs = n_abort (remove_nth k rs) + (case r of OnAbort _ \<Rightarrow> 1 | _ \<Rightarrow> 0)"
proof -
  have rs: "rs = take k rs @ (p, r) # drop (Suc k) rs"
    using id_take_nth_drop [OF assms(1)] assms(2) by simp
  have "length (filter P rs) = length (filter P (remove_nth k rs)) + (if P (p, r) then 1 else 0)" for P
    by (subst rs) (simp add: remove_nth_def)
  then show "n_start rs = n_start (remove_nth k rs) + (if r = OnStart then 1 else 0)"
    "n_write rs = n_write (remove_nth k rs) + (if r = OnWrite then 1 else 0)"
    "n_close rs = n_close (remove_nth k rs) + (case r of OnClose _ \<Rightarrow> 1 | _ \<Rightarrow> 0)"
    "n_abort rs = n_abort (remove_nth k rs) + (case r of OnAbort _ \<Rightarrow> 1 | _ \<Rightarrow> 0)"
    by (auto simp: n_defs split: reaction.splits)
qed

context user_code
begin

lemma run_reaction_ok:
  assumes w: "ws_inv w" and k: "k < length (w_reactions w)" "w_reactions w ! k = (p, r)"
  shows "\<exists>w'. run_reaction u r result (w\<lparr>w_reactions := remove_nth k (w_reactions w)\<rparr>) = Some w' \<and> ws_inv w'
    \<and> forward (ws_state (w_stream w)) (ws_state (w_stream w'))"
proof -
  let ?w1 = "w\<lparr>w_reactions := remove_nth k (w_reactions w)\<rparr>"
  note n = n_remove_nth [OF k]
  have i: "ws_inv ?w1" using w n by (auto simp: inv_defs split: if_splits)
  show ?thesis
  proof (cases r)
    case OnStart
    then have "\<not> wc_started (w_controller w)" "n_start (w_reactions ?w1) = 0"
      using w n by (auto simp: ws_inv_def core_def split: if_splits)
    with i OnStart show ?thesis using on_start_ok [of ?w1] by simp
  next
    case OnWrite
    then obtain rp where "ws_in_flight_write (w_stream ?w1) = Some rp" "n_write (w_reactions ?w1) = 0"
      using w n by (auto simp: ws_inv_def core_def split: if_splits)
    with i OnWrite show ?thesis using on_write_ok [of ?w1] by simp
  next
    case (OnClose ow)
    then obtain rp where "ws_in_flight_close (w_stream ?w1) = Some rp" "n_close (w_reactions ?w1) = 0"
      using w n by (auto simp: ws_inv_def core_def split: if_splits)
    with i OnClose show ?thesis using on_close_ok [of ?w1] by simp
  next
    case (OnAbort rp)
    then have "is_errored (ws_state (w_stream ?w1))"
      using w n by (auto simp: ws_inv_def core_def)
    with i OnAbort show ?thesis using on_abort_ok [of ?w1] by simp
  qed
qed

lemma ws_step_ok:
  assumes "ws_inv w" "sane_event ev"
  shows "\<exists>w'. ws_step u ev w = Some w' \<and> ws_inv w' \<and> forward (ws_state (w_stream w)) (ws_state (w_stream w'))"
proof (cases ev)
  case (Api x)
  with assms show ?thesis using api_ok [of w x] by (auto simp: good_def keeps_def forward_def)
next
  case (React k)
  with assms show ?thesis
    using run_reaction_ok [OF assms(1)]
    by (auto simp: react_def Let_def forward_def split: prod.splits promise_state.splits)
qed

lemma fresh_inv: "ws_inv (fresh_world sink hwm alg ps)"
  by (simp add: inv_defs fresh_world_def initial_stream_def initial_controller_def queue_new_def n_defs)

lemma set_up_controller_ok:
  assumes w: "ws_inv w" "n_start (w_reactions w) = 0" "\<not> wc_started (w_controller w)"
  shows "\<exists>res w'. set_up_controller u start w = Some (res, w') \<and> ws_inv w'"
proof -
  define w1 where "w1 = update_backpressure None (get_backpressure (w_controller w)) w"
  let ?w0 = "upd_stream (\<lambda>s. s\<lparr>ws_backpressure := get_backpressure (w_controller w)\<rparr>) w"
  have "w1 = w \<or> w1 = ?w0" by (simp add: w1_def update_backpressure_def with_writer_def)
  moreover have "ws_inv ?w0" using w(1) unfolding inv_defs by simp
  ultimately have i1: "ws_inv w1" using w(1) by blast
  have s1: "n_start (w_reactions w1) = 0" "\<not> wc_started (w_controller w1)" using w by (simp_all add: w1_def effects)
  obtain out w2 where w2: "(case start of ReturnUndefined \<Rightarrow> Some (Ret Undefined, w1) | SinkFunction \<Rightarrow> u CallStart w1) = Some (out, w2)"
    "ws_inv w2" "n_start (w_reactions w2) = 0" "\<not> wc_started (w_controller w2)"
  proof (cases start)
    case SinkFunction
    with user_ok [OF i1, of CallStart] s1 that show thesis by (auto simp: keeps_def elim!: good_resultE)
  qed (use i1 s1 that in auto)
  show ?thesis
  proof (cases out)
    case (Ret v)
    obtain p w3 where w3: "with_promises (promise_resolved_with (Ret v)) w2 = (p, w3)" by fastforce
    then have q: "same_core w2 w3" by (rule same_core_with_promises) (rule store_le_promise_resolved_with)
    then have "ws_inv w3" "n_start (w_reactions w3) = 0" "\<not> wc_started (w_controller w3)"
      using w2 same_core_inv(1) [OF q] by (simp_all add: same_core_def)
    then have "ws_inv (upon_promise p OnStart w3)" by (auto simp: inv_defs upon_promise_def n_defs)
    then show ?thesis using w2(1) w3 Ret by (simp add: set_up_controller_def Let_def flip: w1_def)
  next
    case (Throw e)
    then show ?thesis using w2(1,2) by (simp add: set_up_controller_def Let_def flip: w1_def)
  qed
qed

lemma stream_new_ok: "\<exists>res w. stream_new u sink strategy ps = Some (res, w) \<and> ws_inv w"
proof -
  have "n_start (w_reactions (fresh_world sink hwm alg ps)) = 0"
    "\<not> wc_started (w_controller (fresh_world sink hwm alg ps))" for hwm alg
    by (simp_all add: fresh_world_def initial_controller_def n_defs)
  from set_up_controller_ok [OF fresh_inv this] show ?thesis
    by (auto simp: stream_new_def Let_def fresh_inv split: sum.splits)
qed

lemma reachable_inv: "reachable u w \<Longrightarrow> ws_inv w"
proof (induction rule: reachable.induct)
  case (new sink strategy res w)
  then show ?case using stream_new_ok [of sink strategy primordial_promises] by auto
next
  case (step w ev w')
  then show ?case using ws_step_ok [of w ev] by auto
qed

end

subsection \<open>Runs by evaluation\<close>

fun ws_run :: "user \<Rightarrow> event list \<Rightarrow> world \<Rightarrow> world option" where
  "ws_run u [] w = Some w"
| "ws_run u (x # xs) w = do { w' \<leftarrow> ws_step u x w; ws_run u xs w' }"

definition start_and_run :: "user \<Rightarrow> underlying_sink \<Rightarrow> event list \<Rightarrow> world option" where
  "start_and_run u sink evs =
     do { (res, w) \<leftarrow> stream_new u sink None primordial_promises; ws_run u (React 0 # evs) w }"

definition empty_sink :: underlying_sink where
  "empty_sink = \<lparr>us_start = False, us_write = False, us_close = False, us_abort = False, us_type = False\<rparr>"

definition idle :: program where
  "idle c w = ([], Ret Undefined)"

lemma round64_small: "round64 0 = Fin 0" "round64 1 = Fin 1"
  using round64_nat [of 0] round64_nat [of 1] by simp_all

lemmas ws_eval = start_and_run_def stream_new_def set_up_controller_def empty_sink_def idle_def
  fresh_world_def initial_stream_def initial_controller_def sink_algorithm_of_def queue_new_def no_writers_def
  extract_size_algorithm_def extract_high_water_mark_def update_backpressure_def get_backpressure_def
  get_desired_size_def f64_sub_def f64_le_def round64_small with_writer_def with_promises_def alloc_def
  primordial_promises_def promise_resolved_with_undefined_def rp_resolved_with_undefined_def upon_promise_def
  react_def remove_nth_def pstate_def on_start_def on_close_def on_write_def on_abort_def refresh_writer_def
  advance_queue_if_needed_def set_up_writer_def is_writable_stream_locked_def writer_promises_def
  close_queued_or_in_flight_def rp_new_def rp_rejected_with_def promise_rejected_with_def
  writer_write_def get_chunk_size_def strategy_size_algorithm_def write_sized_def add_write_request_def
  controller_write_def enqueue_value_with_size_def is_non_negative_number_def refresh_backpressure_def
  process_close_def process_write_def mark_close_request_in_flight_def mark_first_write_request_in_flight_def
  writer_close_def stream_close_def stream_abort_def writable_stream_close_def closed_or_errored_def is_erroring_def controller_close_def dequeue_value_def
  close_algorithm_def write_algorithm_def abort_algorithm_def clear_algorithms_def
  writer_release_lock_def writer_release_def ensure_ready_promise_rejected_def ensure_closed_promise_rejected_def
  rp_is_pending_def rp_do_reject_def rp_set_is_handled_def rp_resolve_undefined_def settle_def
  finish_in_flight_close_def finish_in_flight_write_def Let_def

lemma reachable_run:
  "reachable u w \<Longrightarrow> list_all sane_event evs \<Longrightarrow> ws_run u evs w = Some w' \<Longrightarrow> reachable u w'"
  by (induction evs arbitrary: w) (auto simp: bind_eq_Some_conv intro: reachable.step)

lemma reachable_start_and_run:
  "list_all sane_event evs \<Longrightarrow> start_and_run u sink evs = Some w \<Longrightarrow> reachable u w"
  unfolding start_and_run_def bind_eq_Some_conv
  by (elim exE conjE) (auto elim!: reachable_run [rotated 2] intro: reachable.new)

subsection \<open>No run panics\<close>



text \<open>
  (C8) The state of a stream only moves forward: an erroring stream keeps its stored
  error until it is errored or its close succeeds, and a closed or errored stream
  stays what it is, whatever is called on it.
\<close>
theorem ws_states_move_forward:
  assumes "sane program" "reachable (cb program n) w" "sane_event ev" "ws_step (cb program n) ev w = Some w'"
  shows "(ws_state (w_stream w) = Closed \<longrightarrow> ws_state (w_stream w') = Closed)
    \<and> (\<forall>e. ws_state (w_stream w) = Errored e \<longrightarrow> ws_state (w_stream w') = Errored e)
    \<and> (\<forall>e. ws_state (w_stream w) = Erroring e \<longrightarrow>
         ws_state (w_stream w') = Erroring e \<or> ws_state (w_stream w') = Errored e \<or> ws_state (w_stream w') = Closed)"
  using prog.ws_step_ok [of w ev program n] prog.reachable_inv [of program n w] assms
  unfolding without_sentinel_sane [OF assms(1)] by (auto simp: forward_def)

theorem ws_states_move_forward_witness:
  "\<exists>w w'. start_and_run (cb idle 0) empty_sink [Api StreamClose, React 0] = Some w
    \<and> ws_state (w_stream w) = Closed
    \<and> ws_step (cb idle 0) (Api (StreamAbort None)) w = Some w' \<and> ws_state (w_stream w') = Closed"
proof -
  obtain w where w: "start_and_run (cb idle 0) empty_sink [Api StreamClose, React 0] = Some w"
    "ws_state (w_stream w) = Closed" "ws_writer (w_stream w) = None" by (simp add: ws_eval)
  have r: "reachable (cb idle 0) w" by (rule reachable_start_and_run [OF _ w(1)]) simp
  have "sane idle" by (simp add: sane_def idle_def)
  note forward = ws_states_move_forward [OF this r, of "Api (StreamAbort None)"]
  obtain w' where w': "ws_step (cb idle 0) (Api (StreamAbort None)) w = Some w'"
    using w(2,3) by (simp add: ws_eval writable_stream_abort_def)
  with forward w show ?thesis by auto
qed

subsection \<open>Where the code departs from the standard\<close>


text \<open>
  The reaction to the sink's close promise uses the writer of the moment the close
  was started.  If that writer is released and another one acquired before the sink
  has closed, the stream becomes closed, no reaction is left, and the closed
  promise of the stream's writer is pending forever.
\<close>
lemma ws_close_forgets_new_writer:
  "\<exists>w. start_and_run (cb idle 0) empty_sink
      [Api GetWriter, Api (WriterClose 0), Api (WriterReleaseLock 0), Api GetWriter, React 0] = Some w
    \<and> ws_state (w_stream w) = Closed \<and> ws_writer (w_stream w) = Some 1 \<and> w_reactions w = []
    \<and> pstate (w_promises w) (rp_promise (wr_closed (w_writers w 1))) = Pending"
proof -
  let ?w = "the (start_and_run (cb idle 0) empty_sink
      [Api GetWriter, Api (WriterClose 0), Api (WriterReleaseLock 0), Api GetWriter, React 0])"
  have "start_and_run (cb idle 0) empty_sink
      [Api GetWriter, Api (WriterClose 0), Api (WriterReleaseLock 0), Api GetWriter, React 0] \<noteq> None
    \<and> ws_state (w_stream ?w) = Closed \<and> ws_writer (w_stream ?w) = Some 1 \<and> w_reactions ?w = []
    \<and> pstate (w_promises ?w) (rp_promise (wr_closed (w_writers ?w 1))) = Pending"
    by (simp add: ws_eval)
  then show ?thesis by auto
qed

text \<open>
  An exception thrown by a listener of the abort signal leaves \<^verbatim>\<open>abort\<close> half done: the
  call throws, the signal is aborted, but the stream stays writable and no abort
  request is pending, while the standard reports such an exception and goes on.
\<close>
lemma ws_abort_listener_exception:
  "\<exists>w w'. start_and_run (cb (\<lambda>c w. ([], Throw (Object 7))) (Suc 0)) empty_sink [] = Some w
    \<and> stream_abort (cb (\<lambda>c w. ([], Throw (Object 7))) (Suc 0)) (Some (Object 1)) w = Some (Inl (Object 7), w')
    \<and> wc_signal_aborted (w_controller w') \<and> ws_state (w_stream w') = Writable
    \<and> ws_pending_abort (w_stream w') = None"
  by (simp add: ws_eval writable_stream_abort_def abort_controller_abort_def)

text \<open>
  The entry point by which a transform stream fails the close of its writable side
  takes the close request that is in flight.  The reaction that
  \<^verbatim>\<open>process_close\<close> registered is still there, and panics as soon as the promise of the
  close algorithm is fulfilled.
\<close>
lemma ws_external_close_failure_panics:
  "\<exists>u w w'. start_and_run u \<lparr>us_start = False, us_write = False, us_close = True, us_abort = False, us_type = False\<rparr>
        [Api NewPromise, Api StreamClose, Api (ErrorStream (Object 1))] = Some w
    \<and> stream_finish_in_flight_close_with_error u (stored_error (w_stream w)) w = Some w'
    \<and> ws_state (w_stream w') = Errored (Object 1)
    \<and> ws_run u [Api (SettlePromise 2 (Fulfilled Undefined)), React 0] w' = None"
  by (rule exI [of _ "cb (\<lambda>c w. ([], Ret (PromiseRef 2))) (Suc 0)"])
    (simp add: ws_eval error_stream_def start_erroring_def has_operation_marked_in_flight_def
      stream_finish_in_flight_close_with_error_def finish_in_flight_close_with_error_def stored_error_def
      deal_with_rejection_def finish_erroring_def error_steps_def reset_queue_def
      reject_close_and_closed_promise_if_needed_def)

end
