(* ===== verification/PathModule.thy ===== *)
theory PathModule
  imports Prelude
begin

text \<open>
  \<^verbatim>\<open>modules/llrt_path/src/lib.rs\<close>, as it is compiled for Unix (the separator is the
  slash).  A path is a string of bytes; every index the code computes is the position
  of a separator or the length of an earlier result, so byte positions are character
  boundaries.  The working directory is an argument.

  \<^verbatim>\<open>join_resolve_path\<close> keeps the result as one string and a stack of the lengths it had
  before each component.  The reference is a fold over the list of components; the
  main results are that joining computes it, that normalising twice changes nothing,
  and that resolving starts over at an absolute part whatever the stack holds.
\<close>

abbreviation MAIN_SEPARATOR :: char where "MAIN_SEPARATOR \<equiv> CHR ''/''"

subsection \<open>Separators\<close>

definition replace_backslash :: "string \<Rightarrow> string" where
  "replace_backslash path = map (\<lambda>c. if c = CHR 0x5C then MAIN_SEPARATOR else c) path"

definition find_next_separator :: "string \<Rightarrow> nat option" where
  "find_next_separator s =
     (if MAIN_SEPARATOR \<in> set s then Some (length (takeWhile (\<lambda>c. c \<noteq> MAIN_SEPARATOR) s)) else None)"

definition rfind_char :: "char \<Rightarrow> string \<Rightarrow> nat option" where
  "rfind_char c s = (if c \<in> set s then Some (length s - 1 - length (takeWhile (\<lambda>x. x \<noteq> c) (rev s))) else None)"

definition find_last_sep :: "string \<Rightarrow> nat option" where
  "find_last_sep path = rfind_char MAIN_SEPARATOR path"

definition starts_with_sep :: "string \<Rightarrow> bool" where
  "starts_with_sep path \<longleftrightarrow> path \<noteq> [] \<and> (hd path = MAIN_SEPARATOR \<or> hd path = CHR 0x5C)"

definition ends_with_sep :: "string \<Rightarrow> bool" where
  "ends_with_sep path \<longleftrightarrow> path \<noteq> [] \<and> last path = MAIN_SEPARATOR"

definition is_absolute :: "string \<Rightarrow> bool" where
  "is_absolute path \<longleftrightarrow> path \<noteq> [] \<and> hd path = MAIN_SEPARATOR"

subsection \<open>Names\<close>

fun find_dirname_end :: "string \<Rightarrow> nat \<Rightarrow> nat \<Rightarrow> bool \<Rightarrow> nat option" where
  "find_dirname_end bytes offset 0 matched_slash = None"
| "find_dirname_end bytes offset (Suc i) matched_slash =
     (if i < offset then None
      else if bytes ! i = MAIN_SEPARATOR
      then if matched_slash then find_dirname_end bytes offset i matched_slash else Some i
      else find_dirname_end bytes offset i False)"

definition dirname :: "string \<Rightarrow> string" where
  "dirname path =
     (if length path = 0 then ''.''
      else if length path = 1 then if hd path = MAIN_SEPARATOR then path else ''.''
      else
        let has_root = (hd path = MAIN_SEPARATOR) in
        case find_dirname_end path 1 (length path) True of
          Some e \<Rightarrow> if has_root \<and> e = 1 then ''//'' else take e path
        | None \<Rightarrow> if has_root then ''/'' else ''.'')"

definition strip_last_sep :: "string \<Rightarrow> string" where
  "strip_last_sep path = (if ends_with_sep path then take (length path - 1) path else path)"

definition name_extname :: "string \<Rightarrow> string \<times> string" where
  "name_extname path0 =
     (let path1 = strip_last_sep path0;
          path = (case find_last_sep path1 of Some idx \<Rightarrow> drop (idx + 1) path1 | None \<Rightarrow> path1)
      in if path \<noteq> [] \<and> hd path = CHR ''.'' then (path, [])
         else case rfind_char CHR ''.'' path of
           Some idx \<Rightarrow> (take idx path, drop idx path)
         | None \<Rightarrow> (path, []))"

text \<open>\<^verbatim>\<open>str::rfind\<close> with a string: the last position where it occurs.\<close>

definition rfind_str :: "string \<Rightarrow> string \<Rightarrow> nat option" where
  "rfind_str pat s =
     (case filter (\<lambda>i. take (length pat) (drop i s) = pat) (rev [0..<Suc (length s)]) of
        [] \<Rightarrow> None | i # _ \<Rightarrow> Some i)"

definition basename :: "string \<Rightarrow> string option \<Rightarrow> string" where
  "basename path suffix =
     (if path = [] \<or> path = [MAIN_SEPARATOR] then []
      else
        let (base, ext) = name_extname path; name = base @ ext in
        case suffix of
          None \<Rightarrow> name
        | Some sfx \<Rightarrow> (case rfind_str sfx name of Some location \<Rightarrow> take location name | None \<Rightarrow> name))"

definition extname :: "string \<Rightarrow> string" where
  "extname path = snd (name_extname path)"

record path_object =
  po_dir :: string
  po_root :: string
  po_base :: string
  po_name :: string
  po_ext :: string

definition format :: "path_object \<Rightarrow> string" where
  "format obj =
     (let prefix =
            (if po_dir obj \<noteq> [] then po_dir obj @ (if ends_with_sep (po_dir obj) then [] else [MAIN_SEPARATOR])
             else if po_root obj \<noteq> [] then po_root obj @ (if ends_with_sep (po_root obj) then [] else [MAIN_SEPARATOR])
             else [])
      in if po_base obj \<noteq> [] then prefix @ po_base obj
         else prefix @ po_name obj @
           (if po_ext obj = [] then []
            else (if hd (po_ext obj) = CHR ''.'' then [] else ''.'') @ po_ext obj))"

subsection \<open>Joining and resolving\<close>

record jr_state =
  jr_result :: string
  jr_stack :: "nat list"
  jr_empty :: bool
  jr_first :: bool

definition sub_part_step :: "bool \<Rightarrow> string \<Rightarrow> jr_state \<Rightarrow> jr_state" where
  "sub_part_step resolve sub_part st =
     (if sub_part = ''..'' then
        (case jr_stack st of
           last_index # rest \<Rightarrow> st\<lparr>jr_stack := rest, jr_result := take last_index (jr_result st)\<rparr>
         | [] \<Rightarrow>
             if jr_empty st \<and> resolve then
               (case find_last_sep (jr_result st) of
                  Some last_index \<Rightarrow> st\<lparr>jr_result := take last_index (jr_result st)\<rparr>
                | None \<Rightarrow> st)
             else if jr_empty st then st\<lparr>jr_result := jr_result st @ ''..'' @ [MAIN_SEPARATOR]\<rparr>
             else st)
      else if sub_part = [] \<or> sub_part = ''.'' then st
      else
        let sep = (if \<not> ends_with_sep (jr_result st) \<and> jr_result st \<noteq> [] then [MAIN_SEPARATOR] else [])
        in st\<lparr>jr_result := jr_result st @ sep @ sub_part @ [MAIN_SEPARATOR],
              jr_stack := length (jr_result st) # jr_stack st\<rparr>)"

function part_loop :: "bool \<Rightarrow> string \<Rightarrow> nat \<Rightarrow> jr_state \<Rightarrow> jr_state" where
  "part_loop resolve part start st =
     (if start < length part then
        let fin = (case find_next_separator (drop start part) of None \<Rightarrow> length part | Some i \<Rightarrow> i + start)
        in part_loop resolve part (fin + 1) (sub_part_step resolve (take (fin - start) (drop start part)) st)
      else st)"
  by pat_completeness auto
termination
  by (relation "measure (\<lambda>(resolve, part, start, st). length part - start)") (auto split: option.splits)

declare part_loop.simps [simp del]

definition join_part :: "bool \<Rightarrow> string \<Rightarrow> jr_state \<Rightarrow> jr_state" where
  "join_part resolve part st =
     (let (start, st1) =
            (if resolve then
               if is_absolute part then (1, st\<lparr>jr_empty := False, jr_result := [MAIN_SEPARATOR]\<rparr>) else (0, st)
             else if starts_with_sep part \<and> jr_empty st \<and> jr_first st
             then (1, st\<lparr>jr_empty := False, jr_result := jr_result st @ [MAIN_SEPARATOR]\<rparr>)
             else (0, st));
          st2 = part_loop resolve part start st1
      in st2\<lparr>jr_first := jr_first st2 \<and> part = []\<rparr>)"

definition join_resolve_path :: "string list \<Rightarrow> bool \<Rightarrow> string \<Rightarrow> string" where
  "join_resolve_path parts resolve result0 =
     (let result1 = (if ends_with_sep result0 \<and> length result0 > 1 then take (length result0 - 1) result0 else result0);
          st = fold (join_part resolve) parts
                 \<lparr>jr_result = result1, jr_stack = [], jr_empty = True, jr_first = True\<rparr>;
          result2 = (if \<not> resolve \<and> jr_result st = [] then ''.'' else jr_result st)
      in if length result2 > 1 \<and> ends_with_sep result2 then take (length result2 - 1) result2 else result2)"

definition join_path :: "string list \<Rightarrow> string" where
  "join_path parts = join_resolve_path parts False []"

definition normalize :: "string \<Rightarrow> string" where
  "normalize path = join_path [path]"

definition resolve_path :: "string \<Rightarrow> string list \<Rightarrow> string" where
  "resolve_path cwd parts =
     join_resolve_path parts True (if ends_with_sep cwd then cwd else cwd @ [MAIN_SEPARATOR])"

subsection \<open>Relative paths\<close>

definition next_sep_from :: "string \<Rightarrow> nat \<Rightarrow> nat" where
  "next_sep_from s i =
     (case find_next_separator (drop i s) of Some k \<Rightarrow> k | None \<Rightarrow> length s - i) + i"

function skip_common :: "string \<Rightarrow> string \<Rightarrow> nat \<Rightarrow> nat \<Rightarrow> nat \<times> nat" where
  "skip_common from_ref to_ref i j =
     (if i < length from_ref \<and> j < length to_ref then
        let i' = next_sep_from from_ref i; j' = next_sep_from to_ref j in
        if take (i' - i) (drop i from_ref) \<noteq> take (j' - j) (drop j to_ref) then (i, j)
        else skip_common from_ref to_ref (i' + 1) (j' + 1)
      else (i, j))"
  by pat_completeness auto
termination
  by (relation "measure (\<lambda>(s, t, i, j). length s - i)") (auto simp: next_sep_from_def)

function add_ups :: "string \<Rightarrow> nat \<Rightarrow> string \<Rightarrow> string" where
  "add_ups from_ref i rel =
     (if i < length from_ref then
        add_ups from_ref (next_sep_from from_ref i + 1)
          ((if rel = [] then [] else rel @ [MAIN_SEPARATOR]) @ ''..'')
      else rel)"
  by pat_completeness auto
termination
  by (relation "measure (\<lambda>(s, i, rel). length s - i)") (auto simp: next_sep_from_def)

function add_rest :: "string \<Rightarrow> nat \<Rightarrow> string \<Rightarrow> string" where
  "add_rest to_ref j rel =
     (if j < length to_ref then
        let j' = next_sep_from to_ref j; c = take (j' - j) (drop j to_ref) in
        add_rest to_ref (j' + 1)
          ((if rel = [] then [] else rel @ [MAIN_SEPARATOR]) @ (if c = ''.'' then [] else c))
      else rel)"
  by pat_completeness auto
termination
  by (relation "measure (\<lambda>(s, j, rel). length s - j)") (auto simp: next_sep_from_def)

declare skip_common.simps [simp del] add_ups.simps [simp del] add_rest.simps [simp del]

definition relative :: "string \<Rightarrow> string \<Rightarrow> string \<Rightarrow> string" where
  "relative cwd from_path to_path =
     (if from_path = to_path then []
      else
        let from_ref = (if is_absolute from_path then from_path else cwd @ [MAIN_SEPARATOR] @ from_path);
            to_ref = (if is_absolute to_path then to_path else cwd @ [MAIN_SEPARATOR] @ to_path);
            (i, j) = skip_common from_ref to_ref 0 0;
            rel = add_rest to_ref j (add_ups from_ref i [])
        in if rel = [] then ''.'' else rel)"

subsection \<open>Components\<close>

text \<open>What the loops over the separators of a path see.\<close>

function pieces :: "string \<Rightarrow> string list" where
  "pieces s = (if s = [] then []
     else takeWhile (\<lambda>c. c \<noteq> MAIN_SEPARATOR) s # pieces (drop 1 (dropWhile (\<lambda>c. c \<noteq> MAIN_SEPARATOR) s)))"
  by pat_completeness auto
termination
proof (relation "measure length", simp)
  fix s :: string
  assume s: "s \<noteq> []"
  have "length (dropWhile (\<lambda>c. c \<noteq> MAIN_SEPARATOR) s) \<le> length s" by (rule length_dropWhile_le)
  with s show "(drop 1 (dropWhile (\<lambda>c. c \<noteq> MAIN_SEPARATOR) s), s) \<in> measure length"
    by (cases s) auto
qed

declare pieces.simps [simp del]

lemma pieces_Nil [simp]: "pieces [] = []"
  by (simp add: pieces.simps)

lemma pieces_sep [simp]: "pieces (MAIN_SEPARATOR # s) = [] # pieces s"
  by (subst pieces.simps) simp

text \<open>The step every loop makes: one piece, then past the separator.\<close>

lemma pieces_drop:
  assumes "i < length s"
  shows "pieces (drop i s) = take (next_sep_from s i - i) (drop i s) # pieces (drop (next_sep_from s i + 1) s)"
proof -
  let ?d = "drop i s" and ?P = "\<lambda>c. c \<noteq> MAIN_SEPARATOR"
  have ne: "?d \<noteq> []" using assms by simp
  show ?thesis
  proof (cases "MAIN_SEPARATOR \<in> set ?d")
    case True
    then have n: "next_sep_from s i = length (takeWhile ?P ?d) + i"
      by (simp add: next_sep_from_def find_next_separator_def)
    have "pieces ?d = takeWhile ?P ?d # pieces (drop 1 (dropWhile ?P ?d))"
      using ne by (subst pieces.simps) simp
    also have "drop 1 (dropWhile ?P ?d) = drop (next_sep_from s i + 1) s"
      unfolding dropWhile_eq_drop [of ?P] by (simp add: n add.commute)
    finally show ?thesis using n takeWhile_eq_take [of ?P ?d] by simp
  next
    case False
    then have n: "next_sep_from s i = length s"
      using assms by (simp add: next_sep_from_def find_next_separator_def)
    have tw: "takeWhile ?P ?d = ?d" and dw: "dropWhile ?P ?d = []" using False by auto
    have "pieces ?d = ?d # pieces []" using ne by (subst pieces.simps) (simp only: tw dw drop_Nil if_False)
    then show ?thesis using assms by (simp add: n)
  qed
qed

lemma part_loop_pieces:
  "part_loop resolve part start st = fold (sub_part_step resolve) (pieces (drop start part)) st"
proof (induction resolve part start st rule: part_loop.induct)
  case (1 resolve part start st)
  show ?case
  proof (cases "start < length part")
    case True
    have n: "(case find_next_separator (drop start part) of None \<Rightarrow> length part | Some i \<Rightarrow> i + start)
        = next_sep_from part start"
      using True by (simp add: next_sep_from_def split: option.split)
    show ?thesis
      using True "1.IH" [OF True refl] unfolding n
      by (subst part_loop.simps) (simp add: n pieces_drop Let_def)
  next
    case False
    then show ?thesis by (simp add: part_loop.simps)
  qed
qed

subsection \<open>The reference\<close>

text \<open>A normalised path: whether it starts at the root, how many \<^verbatim>\<open>..\<close> it starts with,
  and its names, last one first.\<close>

fun norm_step :: "bool \<Rightarrow> string \<Rightarrow> nat \<times> string list \<Rightarrow> nat \<times> string list" where
  "norm_step absolute c (ups, names) =
     (if c = ''..'' then
        (case names of _ # rest \<Rightarrow> (ups, rest) | [] \<Rightarrow> if absolute then (ups, []) else (Suc ups, []))
      else if c = [] \<or> c = ''.'' then (ups, names)
      else (ups, c # names))"

definition norm_comps :: "nat \<times> string list \<Rightarrow> string list" where
  "norm_comps un = replicate (fst un) ''..'' @ rev (snd un)"

fun sep_join :: "string list \<Rightarrow> string" where
  "sep_join [] = []"
| "sep_join [c] = c"
| "sep_join (c # cs) = c @ MAIN_SEPARATOR # sep_join cs"

definition show_path :: "bool \<Rightarrow> nat \<times> string list \<Rightarrow> string" where
  "show_path absolute un =
     (if absolute then MAIN_SEPARATOR # sep_join (norm_comps un)
      else if norm_comps un = [] then ''.'' else sep_join (norm_comps un))"

text \<open>The first part that is not empty decides whether a joined path is absolute; its
  leading separator is not a component.\<close>

definition join_absolute :: "string list \<Rightarrow> bool" where
  "join_absolute parts = (case dropWhile (\<lambda>p. p = []) parts of [] \<Rightarrow> False | p # _ \<Rightarrow> starts_with_sep p)"

definition join_comps :: "string list \<Rightarrow> string list" where
  "join_comps parts =
     (case dropWhile (\<lambda>p. p = []) parts of
        [] \<Rightarrow> []
      | p # ps \<Rightarrow> pieces (if starts_with_sep p then tl p else p) @ concat (map pieces ps))"

definition join_spec :: "string list \<Rightarrow> string" where
  "join_spec parts = show_path (join_absolute parts) (fold (norm_step (join_absolute parts)) (join_comps parts) (0, []))"

subsection \<open>The string and its stack represent the reference\<close>

abbreviation dir_string :: "string list \<Rightarrow> string" where
  "dir_string cs \<equiv> concat (map (\<lambda>c. c @ [MAIN_SEPARATOR]) cs)"

definition root_string :: "bool \<Rightarrow> string" where
  "root_string absolute = (if absolute then [MAIN_SEPARATOR] else [])"

definition norm_string :: "bool \<Rightarrow> nat \<times> string list \<Rightarrow> string" where
  "norm_string absolute un = root_string absolute @ dir_string (norm_comps un)"

fun offsets :: "bool \<Rightarrow> nat \<Rightarrow> string list \<Rightarrow> nat list" where
  "offsets absolute ups [] = []"
| "offsets absolute ups (c # names) = length (norm_string absolute (ups, names)) # offsets absolute ups names"

text \<open>Below the entries of the present names the stack may hold entries of names that an
  absolute part has discarded.\<close>

definition represents :: "bool \<Rightarrow> nat list \<Rightarrow> nat \<times> string list \<Rightarrow> jr_state \<Rightarrow> bool" where
  "represents absolute stale un st \<longleftrightarrow>
     jr_result st = norm_string absolute un
   \<and> jr_stack st = offsets absolute (fst un) (snd un) @ stale
   \<and> jr_empty st = (\<not> absolute)
   \<and> (absolute \<longrightarrow> fst un = 0)
   \<and> (stale \<noteq> [] \<longrightarrow> absolute \<and> (\<forall>k \<in> set stale. 1 \<le> k))"

lemma ends_with_dir_string: "cs \<noteq> [] \<Longrightarrow> ends_with_sep (s @ dir_string cs)"
  by (induction cs rule: rev_induct) (auto simp: ends_with_sep_def)

lemma norm_string_ends: "norm_string absolute un = [] \<or> ends_with_sep (norm_string absolute un)"
  using ends_with_dir_string [of "norm_comps un" "root_string absolute"]
  by (cases "norm_comps un = []") (auto simp: norm_string_def root_string_def ends_with_sep_def)

lemma norm_string_push:
  "norm_string absolute (ups, c # names) = norm_string absolute (ups, names) @ c @ [MAIN_SEPARATOR]"
  by (simp add: norm_string_def norm_comps_def)

lemma represents_step:
  assumes r: "represents absolute stale un st" and mode: "absolute \<or> \<not> resolve"
  shows "\<exists>stale'. represents absolute stale' (norm_step absolute c un) (sub_part_step resolve c st)"
proof -
  obtain ups names where un: "un = (ups, names)" by fastforce
  consider "c = ''..''" | "c = [] \<or> c = ''.''" | "c \<noteq> ''..''" "c \<noteq> []" "c \<noteq> ''.''" by blast
  then show ?thesis
  proof cases
    case 1
    show ?thesis
    proof (cases names)
      case (Cons n ns)
      have "take (length (norm_string absolute (ups, ns))) (norm_string absolute (ups, n # ns)) = norm_string absolute (ups, ns)"
        by (simp add: norm_string_push)
      with r 1 un Cons show ?thesis
        by (intro exI [of _ stale]) (auto simp: represents_def sub_part_step_def)
    next
      case Nil
      show ?thesis
      proof (cases stale)
        case (Cons k ks)
        then have "absolute" "1 \<le> k" "ups = 0" using r un by (auto simp: represents_def)
        with r 1 un Nil Cons show ?thesis
          by (intro exI [of _ ks])
            (auto simp: represents_def sub_part_step_def norm_string_def norm_comps_def root_string_def)
      next
        case empty: Nil
        show ?thesis
        proof (cases absolute)
          case True
          with r 1 un Nil empty show ?thesis
            by (intro exI [of _ "[]"]) (auto simp: represents_def sub_part_step_def)
        next
          case False
          have "replicate (Suc ups) ''..'' = replicate ups ''..'' @ [''..'']"
            by (metis replicate_Suc replicate_append_same)
          with False mode r 1 un Nil empty show ?thesis
            by (intro exI [of _ "[]"])
              (auto simp: represents_def sub_part_step_def norm_string_def norm_comps_def root_string_def simp del: replicate_Suc)
        qed
      qed
    qed
  next
    case 2
    with r un show ?thesis by (intro exI [of _ stale]) (auto simp: represents_def sub_part_step_def)
  next
    case 3
    with r un norm_string_ends [of absolute un] show ?thesis
      by (intro exI [of _ stale]) (auto simp: represents_def sub_part_step_def norm_string_push Let_def)
  qed
qed

lemma represents_fold:
  "represents absolute stale un st \<Longrightarrow> absolute \<or> \<not> resolve \<Longrightarrow>
   \<exists>stale'. represents absolute stale' (fold (norm_step absolute) cs un) (fold (sub_part_step resolve) cs st)"
proof (induction cs arbitrary: stale un st)
  case (Cons c cs)
  obtain stale1 where "represents absolute stale1 (norm_step absolute c un) (sub_part_step resolve c st)"
    using represents_step [OF Cons.prems, of c] by blast
  from Cons.IH [OF this Cons.prems(2)] show ?case by simp
qed auto

lemma dir_string_join: "cs \<noteq> [] \<Longrightarrow> dir_string cs = sep_join cs @ [MAIN_SEPARATOR]"
  by (induction cs rule: sep_join.induct) auto

text \<open>What is left of the string once the last separator is cut off.\<close>

definition finish :: "bool \<Rightarrow> string \<Rightarrow> string" where
  "finish resolve result1 =
     (let result2 = (if \<not> resolve \<and> result1 = [] then ''.'' else result1)
      in if length result2 > 1 \<and> ends_with_sep result2 then take (length result2 - 1) result2 else result2)"

lemma finish_norm_string:
  assumes "absolute \<or> \<not> resolve" and "[] \<notin> set (norm_comps un)"
  shows "finish resolve (norm_string absolute un) = show_path absolute un"
proof (cases "norm_comps un = []")
  case True
  then show ?thesis using assms(1)
    by (auto simp: finish_def norm_string_def show_path_def root_string_def ends_with_sep_def Let_def)
next
  case False
  then have n: "norm_string absolute un = root_string absolute @ sep_join (norm_comps un) @ [MAIN_SEPARATOR]"
    by (simp add: norm_string_def dir_string_join)
  have "sep_join (norm_comps un) \<noteq> []" using False assms(2)
    by (cases "norm_comps un" rule: sep_join.cases) auto
  with False show ?thesis
    by (auto simp: finish_def n show_path_def root_string_def ends_with_sep_def Let_def)
qed

lemma norm_comps_nonempty:
  "[] \<notin> set (snd un) \<Longrightarrow> [] \<notin> set (snd (fold (norm_step absolute) cs un))"
proof (induction cs arbitrary: un)
  case (Cons c cs)
  have "[] \<notin> set (snd (norm_step absolute c un))"
    using Cons.prems by (cases un) (auto split: list.splits)
  with Cons.IH show ?case by simp
qed simp

lemma norm_comps_nonempty_start: "[] \<notin> set (norm_comps (fold (norm_step absolute) cs (0, [])))"
  using norm_comps_nonempty [of "(0, [])" absolute cs] by (auto simp: norm_comps_def)

subsection \<open>Joining computes the reference\<close>

lemma represents_start: "represents False [] (0, []) \<lparr>jr_result = [], jr_stack = [], jr_empty = True, jr_first = f\<rparr>"
  by (simp add: represents_def norm_string_def norm_comps_def root_string_def)

lemma join_part_later:
  assumes "represents absolute stale un st" "\<not> jr_first st"
  shows "\<exists>stale'. represents absolute stale' (fold (norm_step absolute) (pieces p) un) (join_part False p st)
    \<and> \<not> jr_first (join_part False p st)"
proof -
  have first: "jr_first (fold (sub_part_step r) cs st) = jr_first st" for r cs st
    by (induction cs arbitrary: st) (auto simp: sub_part_step_def Let_def split: list.splits option.splits)
  from represents_fold [OF assms(1), of False "pieces p"] assms(2) first show ?thesis
    by (auto simp: join_part_def part_loop_pieces represents_def)
qed

lemma join_parts_later:
  "represents absolute stale un st \<Longrightarrow> \<not> jr_first st \<Longrightarrow>
   \<exists>stale'. represents absolute stale' (fold (norm_step absolute) (concat (map pieces ps)) un) (fold (join_part False) ps st)"
proof (induction ps arbitrary: stale un st)
  case (Cons p ps)
  then obtain stale1 where "represents absolute stale1 (fold (norm_step absolute) (pieces p) un) (join_part False p st)"
    "\<not> jr_first (join_part False p st)" using join_part_later by blast
  from Cons.IH [OF this] show ?case by simp
qed auto

lemma join_part_empty: "join_part False [] st = st"
  by (simp add: join_part_def part_loop_pieces starts_with_sep_def)

lemma join_parts_skip: "fold (join_part False) parts st = fold (join_part False) (dropWhile (\<lambda>p. p = []) parts) st"
  by (induction parts) (auto simp: join_part_empty)

lemma join_part_first:
  assumes "p \<noteq> []"
  shows "\<exists>stale'. represents (starts_with_sep p) stale'
      (fold (norm_step (starts_with_sep p)) (pieces (if starts_with_sep p then tl p else p)) (0, []))
      (join_part False p \<lparr>jr_result = [], jr_stack = [], jr_empty = True, jr_first = True\<rparr>)
    \<and> \<not> jr_first (join_part False p \<lparr>jr_result = [], jr_stack = [], jr_empty = True, jr_first = True\<rparr>)"
proof (cases "starts_with_sep p")
  case True
  let ?st = "\<lparr>jr_result = [MAIN_SEPARATOR], jr_stack = [], jr_empty = False, jr_first = True\<rparr>"
  have "represents True [] (0, []) ?st"
    by (simp add: represents_def norm_string_def norm_comps_def root_string_def)
  from represents_fold [OF this, of False "pieces (tl p)"] True assms show ?thesis
    by (auto simp: join_part_def part_loop_pieces represents_def drop_Suc)
next
  case False
  from represents_fold [OF represents_start, of False "pieces p" True] False assms show ?thesis
    by (auto simp: join_part_def part_loop_pieces represents_def)
qed

lemma join_path_spec: "join_path parts = join_spec parts"
proof (cases "dropWhile (\<lambda>p. p = []) parts")
  case Nil
  have "fold (join_part False) parts st = st" for st unfolding join_parts_skip [of parts] Nil by simp
  moreover have "join_spec parts = ''.''"
    unfolding join_spec_def join_absolute_def join_comps_def Nil by (simp add: show_path_def norm_comps_def)
  ultimately show ?thesis by (simp add: join_path_def join_resolve_path_def ends_with_sep_def)
next
  case (Cons p ps)
  let ?a = "starts_with_sep p" and ?st = "\<lparr>jr_result = [], jr_stack = [], jr_empty = True, jr_first = True\<rparr>"
  let ?un = "fold (norm_step ?a) (join_comps parts) (0, [])"
  have "p \<noteq> []" using hd_dropWhile [of "\<lambda>p. p = []" parts] unfolding Cons by simp
  then obtain stale1 where "represents ?a stale1 (fold (norm_step ?a) (pieces (if ?a then tl p else p)) (0, []))
      (join_part False p ?st)" "\<not> jr_first (join_part False p ?st)" using join_part_first by blast
  from join_parts_later [OF this, of ps] obtain stale' where
    "represents ?a stale' ?un (fold (join_part False) (p # ps) ?st)" using Cons by (auto simp: join_comps_def)
  then have "jr_result (fold (join_part False) parts ?st) = norm_string ?a ?un"
    using Cons by (simp add: join_parts_skip [of parts] represents_def)
  then have "join_path parts = finish False (norm_string ?a ?un)"
    by (simp add: join_path_def join_resolve_path_def finish_def ends_with_sep_def Let_def)
  also have "\<dots> = show_path ?a ?un" by (rule finish_norm_string) (simp_all add: norm_comps_nonempty_start)
  finally show ?thesis using Cons by (simp add: join_spec_def join_absolute_def)
qed

text \<open>
  (C23) Joining paths computes the reference on every list of parts: empty and \<^verbatim>\<open>.\<close>
  components disappear, \<^verbatim>\<open>..\<close> removes the name before it, is dropped at the root and
  kept at the front of a relative path, and the result is \<^verbatim>\<open>.\<close> when nothing is left.
\<close>
theorem path_join_correct: "join_path parts = join_spec parts"
  by (rule join_path_spec)

subsection \<open>Canonical components\<close>

definition canonical :: "string \<Rightarrow> bool" where
  "canonical c \<longleftrightarrow> c \<noteq> [] \<and> c \<noteq> ''.'' \<and> c \<noteq> ''..'' \<and> MAIN_SEPARATOR \<notin> set c"

lemma canonicalD:
  "canonical c \<Longrightarrow> c \<noteq> []" "canonical c \<Longrightarrow> MAIN_SEPARATOR \<notin> set c"
  by (simp_all add: canonical_def)

lemma pieces_no_sep: "c \<in> set (pieces s) \<Longrightarrow> MAIN_SEPARATOR \<notin> set c \<and> set c \<subseteq> set s"
proof (induction s rule: pieces.induct)
  case (1 s)
  show ?case
  proof (cases "s = []")
    case True
    with 1 show ?thesis by simp
  next
    case False
    let ?P = "\<lambda>c. c \<noteq> MAIN_SEPARATOR"
    have "set (drop 1 (dropWhile ?P s)) \<subseteq> set s"
      by (meson set_drop_subset set_dropWhileD subset_iff)
    moreover have "pieces s = takeWhile ?P s # pieces (drop 1 (dropWhile ?P s))"
      using False by (subst pieces.simps) simp
    ultimately show ?thesis using 1 False by (auto dest: set_takeWhileD)
  qed
qed

lemma pieces_append_sep: "MAIN_SEPARATOR \<notin> set c \<Longrightarrow> pieces (c @ MAIN_SEPARATOR # s) = c # pieces s"
  by (subst pieces.simps) (auto simp: takeWhile_append dropWhile_append)

lemma pieces_single: "MAIN_SEPARATOR \<notin> set c \<Longrightarrow> c \<noteq> [] \<Longrightarrow> pieces c = [c]"
  using pieces_drop [of 0 c] by (simp add: next_sep_from_def find_next_separator_def)

lemma pieces_sep_join:
  "(\<forall>c \<in> set cs. c \<noteq> [] \<and> MAIN_SEPARATOR \<notin> set c) \<Longrightarrow> pieces (sep_join cs) = cs"
  by (induction cs rule: sep_join.induct) (auto simp: pieces_append_sep pieces_single)

lemma fold_norm_names:
  "(\<forall>c \<in> set cs. canonical c) \<Longrightarrow> fold (norm_step absolute) cs (ups, names) = (ups, rev cs @ names)"
  by (induction cs arbitrary: names) (auto simp: canonical_def)

lemma fold_norm_ups: "fold (norm_step False) (replicate n ''..'') (ups, []) = (ups + n, [])"
  by (induction n arbitrary: ups) auto

lemma fold_norm_downs:
  "fold (norm_step absolute) (replicate (length xs) ''..'') (ups, xs @ names) = (ups, names)"
  by (induction xs) auto

text \<open>What the fold produces: canonical names made of the pieces, and no \<^verbatim>\<open>..\<close> at the root.\<close>

lemma fold_norm_canonical:
  assumes "\<forall>c \<in> set (snd un). canonical c \<and> P c" "absolute \<longrightarrow> fst un = 0"
    and "\<forall>c \<in> set cs. MAIN_SEPARATOR \<notin> set c \<and> P c"
  shows "(\<forall>c \<in> set (snd (fold (norm_step absolute) cs un)). canonical c \<and> P c)
    \<and> (absolute \<longrightarrow> fst (fold (norm_step absolute) cs un) = 0)"
  using assms
proof (induction cs arbitrary: un)
  case (Cons c cs)
  obtain ups names where un: "un = (ups, names)" by fastforce
  have "\<forall>c \<in> set (snd (norm_step absolute c un)). canonical c \<and> P c"
    "absolute \<longrightarrow> fst (norm_step absolute c un) = 0"
    using Cons.prems unfolding un by (auto simp: canonical_def split: list.splits)
  with Cons.IH [of "norm_step absolute c un"] Cons.prems(3) show ?case by simp
qed simp

lemma norm_comps_fold:
  assumes "\<forall>c \<in> set names. canonical c" "absolute \<longrightarrow> ups = 0"
  shows "fold (norm_step absolute) (norm_comps (ups, names)) (0, []) = (ups, names)"
proof -
  have "fold (norm_step absolute) (replicate ups ''..'') (0, []) = (ups, [])"
    using assms(2) fold_norm_ups [of ups 0] by (cases absolute) (simp_all del: fold_replicate)
  then show ?thesis using assms(1) by (simp add: norm_comps_def fold_norm_names del: fold_replicate)
qed

lemma hd_sep_join: "cs \<noteq> [] \<Longrightarrow> hd cs \<noteq> [] \<Longrightarrow> hd (sep_join cs) = hd (hd cs) \<and> sep_join cs \<noteq> []"
  by (cases cs rule: sep_join.cases) auto

lemma normalize_show_path:
  assumes names: "\<forall>c \<in> set names. canonical c \<and> CHR 0x5C \<notin> set c" and a: "absolute \<longrightarrow> ups = 0"
  shows "normalize (show_path absolute (ups, names)) = show_path absolute (ups, names)"
proof (cases "norm_comps (ups, names) = []")
  case True
  then have "ups = 0" "names = []" by (auto simp: norm_comps_def)
  then have "show_path absolute (ups, names) = (if absolute then ''/'' else ''.'')"
    by (simp add: show_path_def norm_comps_def)
  moreover have "normalize ''/'' = ''/''" "normalize ''.'' = ''.''" by code_simp+
  ultimately show ?thesis by simp
next
  case False
  let ?cs = "norm_comps (ups, names)" and ?s = "show_path absolute (ups, names)"
  have cs: "\<forall>c \<in> set ?cs. c \<noteq> [] \<and> MAIN_SEPARATOR \<notin> set c \<and> CHR 0x5C \<notin> set c"
  proof
    fix c
    assume "c \<in> set ?cs"
    then consider "c = ''..''" | "c \<in> set names" by (force simp: norm_comps_def)
    then show "c \<noteq> [] \<and> MAIN_SEPARATOR \<notin> set c \<and> CHR 0x5C \<notin> set c"
      using names by cases (simp_all add: canonical_def)
  qed
  have s: "?s = (if absolute then MAIN_SEPARATOR # sep_join ?cs else sep_join ?cs)"
    using False by (simp add: show_path_def)
  have h: "hd (sep_join ?cs) = hd (hd ?cs)" "sep_join ?cs \<noteq> []" "hd (hd ?cs) \<in> set (hd ?cs)" "hd ?cs \<in> set ?cs"
    using False cs hd_sep_join [of ?cs] hd_in_set [of ?cs] hd_in_set [of "hd ?cs"] by blast+
  then have "hd (hd ?cs) \<noteq> MAIN_SEPARATOR" "hd (hd ?cs) \<noteq> CHR 0x5C" using cs by metis+
  with h have st: "starts_with_sep ?s = absolute" unfolding s starts_with_sep_def by (cases absolute) auto
  have "?s \<noteq> []" using h(2) unfolding s by simp
  then have "join_absolute [?s] = absolute" "join_comps [?s] = ?cs"
    using pieces_sep_join [of ?cs] cs st unfolding s by (auto simp: join_absolute_def join_comps_def)
  then show ?thesis
    using norm_comps_fold [of names absolute ups] names a by (simp add: normalize_def join_path_spec join_spec_def)
qed

text \<open>
  (C26) Normalising a path twice is the same as normalising it once, for every path
  without a backslash.
\<close>
theorem path_normalize_idempotent:
  assumes "CHR 0x5C \<notin> set p"
  shows "normalize (normalize p) = normalize p"
proof -
  let ?a = "join_absolute [p]" and ?cs = "join_comps [p]"
  let ?un = "fold (norm_step ?a) ?cs (0, [])"
  have "set (tl p) \<subseteq> set p" by (cases p) auto
  then have "\<forall>c \<in> set ?cs. MAIN_SEPARATOR \<notin> set c \<and> CHR 0x5C \<notin> set c"
    using assms pieces_no_sep by (fastforce simp: join_comps_def split: if_splits)
  then have "(\<forall>c \<in> set (snd ?un). canonical c \<and> CHR 0x5C \<notin> set c) \<and> (?a \<longrightarrow> fst ?un = 0)"
    by (intro fold_norm_canonical) auto
  then have "normalize (show_path ?a ?un) = show_path ?a ?un"
    using normalize_show_path [of "snd ?un" ?a "fst ?un"] by simp
  then show ?thesis by (simp add: normalize_def join_path_spec join_spec_def)
qed

theorem path_normalize_idempotent_witness:
  "normalize (normalize ''/foo/.//bar/../baz'') = normalize ''/foo/.//bar/../baz''"
  by (rule path_normalize_idempotent) simp

text \<open>
  With a backslash it is not: a leading backslash counts as a separator when parts
  are joined, although it is an ordinary character of a name everywhere else on Unix,
  so normalising a relative path twice makes it absolute.
\<close>
lemma path_backslash_becomes_root:
  "normalize (''./'' @ [CHR 0x5C] @ ''foo'') = CHR 0x5C # ''foo''
   \<and> \<not> is_absolute (CHR 0x5C # ''foo'')
   \<and> normalize (CHR 0x5C # ''foo'') = ''/foo''"
  by code_simp


subsection \<open>Resolving\<close>

text \<open>The reference for \<^verbatim>\<open>resolve\<close>: every absolute part starts over at the root.\<close>

definition resolve_step :: "string \<Rightarrow> nat \<times> string list \<Rightarrow> nat \<times> string list" where
  "resolve_step p un =
     (if is_absolute p then fold (norm_step True) (pieces (tl p)) (0, [])
      else fold (norm_step True) (pieces p) un)"

text \<open>Relative to the working directory, no \<^verbatim>\<open>..\<close> climbs out of the last directory below
  the root.\<close>

fun stays_below :: "string list \<Rightarrow> nat \<times> string list \<Rightarrow> bool" where
  "stays_below [] un = True"
| "stays_below (c # cs) un =
     ((c = ''..'' \<longrightarrow> 2 \<le> length (snd un)) \<and> stays_below cs (norm_step True c un))"

lemma stays_below_append:
  "stays_below (cs @ ds) un = (stays_below cs un \<and> stays_below ds (fold (norm_step True) cs un))"
  by (induction cs arbitrary: un) auto

text \<open>Names of the working directory that are left, and names pushed on top of them.\<close>

definition cwd_string :: "string list \<Rightarrow> string list \<Rightarrow> string" where
  "cwd_string base pushed =
     (if pushed = [] then MAIN_SEPARATOR # sep_join (rev base) else norm_string True (0, pushed @ base))"

fun cwd_offsets :: "string list \<Rightarrow> string list \<Rightarrow> nat list" where
  "cwd_offsets base [] = []"
| "cwd_offsets base (c # pushed) = length (cwd_string base pushed) # cwd_offsets base pushed"

definition cwd_represents :: "string list \<Rightarrow> string list \<Rightarrow> jr_state \<Rightarrow> bool" where
  "cwd_represents base pushed st \<longleftrightarrow>
     jr_result st = cwd_string base pushed \<and> jr_stack st = cwd_offsets base pushed \<and> jr_empty st
   \<and> base \<noteq> [] \<and> (\<forall>c \<in> set base. canonical c)"

lemma sep_join_snoc: "cs \<noteq> [] \<Longrightarrow> sep_join (cs @ [c]) = sep_join cs @ MAIN_SEPARATOR # c"
  by (induction cs rule: sep_join.induct) auto

lemma rfind_char_last: "c \<notin> set t \<Longrightarrow> rfind_char c (s @ c # t) = Some (length s)"
  by (simp add: rfind_char_def takeWhile_append)

lemma cwd_string_push:
  assumes "base \<noteq> []"
  shows "cwd_string base (c # pushed)
    = cwd_string base pushed @ (if pushed = [] then [MAIN_SEPARATOR] else []) @ c @ [MAIN_SEPARATOR]"
  using assms dir_string_join [of "rev base"]
  by (cases pushed) (simp_all add: cwd_string_def norm_string_def norm_comps_def root_string_def)

lemma ends_cwd_string:
  assumes "base \<noteq> []" "\<forall>c \<in> set base. canonical c"
  shows "ends_with_sep (cwd_string base pushed) = (pushed \<noteq> [])"
proof (cases pushed)
  case Nil
  obtain b bs where b: "base = b # bs" using assms(1) by (cases base) auto
  then have "canonical b" using assms(2) by simp
  note c = canonicalD [OF this]
  then have l: "last b \<noteq> MAIN_SEPARATOR" using last_in_set [of b] by metis
  have "last (sep_join (rev bs @ [b])) = last b \<and> sep_join (rev bs @ [b]) \<noteq> []"
    using c(1) by (cases "bs = []") (simp_all add: sep_join_snoc)
  then show ?thesis using Nil b l by (simp add: cwd_string_def ends_with_sep_def)
next
  case (Cons c cs)
  have "cwd_string base pushed \<noteq> []"
    using Cons by (simp add: cwd_string_def norm_string_def root_string_def)
  then show ?thesis using Cons norm_string_ends [of True "(0, pushed @ base)"] by (simp add: cwd_string_def)
qed

lemma cwd_string_pop:
  "bs \<noteq> [] \<Longrightarrow> MAIN_SEPARATOR \<notin> set b \<Longrightarrow>
   find_last_sep (cwd_string (b # bs) []) = Some (length (cwd_string bs []))
   \<and> take (length (cwd_string bs [])) (cwd_string (b # bs) []) = cwd_string bs []"
  using rfind_char_last [of MAIN_SEPARATOR b "MAIN_SEPARATOR # sep_join (rev bs)"]
  by (simp add: cwd_string_def sep_join_snoc find_last_sep_def)

lemma cwd_represents_step:
  assumes r: "cwd_represents base pushed st" and c: "c = ''..'' \<longrightarrow> 2 \<le> length (pushed @ base)"
  shows "\<exists>base' pushed'. cwd_represents base' pushed' (sub_part_step True c st)
    \<and> norm_step True c (0, pushed @ base) = (0, pushed' @ base')"
proof -
  have base: "base \<noteq> []" "\<forall>c \<in> set base. canonical c" using r by (auto simp: cwd_represents_def)
  consider (pop) n ns where "c = ''..''" "pushed = n # ns"
    | (up) b bs where "c = ''..''" "pushed = []" "base = b # bs" "bs \<noteq> []"
    | (skip) "c = [] \<or> c = ''.''" | (push) "c \<noteq> ''..''" "c \<noteq> []" "c \<noteq> ''.''"
  proof (cases "c = ''..'' \<and> pushed = []")
    case True
    obtain b bs where "base = b # bs" using base(1) by (cases base) auto
    with True c show ?thesis using that(2) [of b bs] by (cases bs) simp_all
  next
    case False
    show ?thesis
    proof (cases pushed)
      case (Cons n ns)
      then show ?thesis using that(1) [of n ns] that(3) that(4) by blast
    next
      case Nil
      then show ?thesis using False that(3) that(4) by blast
    qed
  qed
  then show ?thesis
  proof cases
    case pop
    then show ?thesis using r base
      by (intro exI [of _ base] exI [of _ ns])
        (auto simp: cwd_represents_def sub_part_step_def cwd_string_push)
  next
    case up
    then have "MAIN_SEPARATOR \<notin> set b" using base by (simp add: canonical_def)
    from cwd_string_pop [OF up(4) this] up r show ?thesis
      by (intro exI [of _ bs] exI [of _ "[]"]) (auto simp: cwd_represents_def sub_part_step_def)
  next
    case skip
    then show ?thesis using r
      by (intro exI [of _ base] exI [of _ pushed]) (auto simp: cwd_represents_def sub_part_step_def)
  next
    case push
    have "cwd_string base pushed \<noteq> []" by (simp add: cwd_string_def norm_string_def root_string_def)
    with push show ?thesis using r base ends_cwd_string [OF base, of pushed]
      by (intro exI [of _ base] exI [of _ "c # pushed"])
        (auto simp: cwd_represents_def sub_part_step_def cwd_string_push Let_def)
  qed
qed

lemma cwd_represents_fold:
  "cwd_represents base pushed st \<Longrightarrow> stays_below cs (0, pushed @ base) \<Longrightarrow>
   \<exists>base' pushed'. cwd_represents base' pushed' (fold (sub_part_step True) cs st)
    \<and> fold (norm_step True) cs (0, pushed @ base) = (0, pushed' @ base')"
proof (induction cs arbitrary: base pushed st)
  case (Cons c cs)
  then obtain base1 pushed1 where "cwd_represents base1 pushed1 (sub_part_step True c st)"
    "norm_step True c (0, pushed @ base) = (0, pushed1 @ base1)"
    using cwd_represents_step [of base pushed st c] by auto
  with Cons.IH [of base1 pushed1 "sub_part_step True c st"] Cons.prems(2) show ?case by simp
qed auto


lemma represents_first [simp]: "represents absolute stale un (st\<lparr>jr_first := f\<rparr>) = represents absolute stale un st"
  by (simp add: represents_def)

lemma join_part_relative:
  "\<not> is_absolute p \<Longrightarrow> represents absolute stale un (join_part True p st)
     = represents absolute stale un (fold (sub_part_step True) (pieces p) st)"
  by (simp add: join_part_def part_loop_pieces Let_def)

text \<open>Once a part is absolute the ordinary representation holds, with whatever the stack
  held before left below it.\<close>

lemma represents_restart:
  assumes "\<forall>k \<in> set (jr_stack st). 1 \<le> k" "is_absolute p"
  shows "\<exists>stale. represents True stale (resolve_step p un) (join_part True p st)"
proof -
  have "represents True (jr_stack st) (0, []) (st\<lparr>jr_empty := False, jr_result := [MAIN_SEPARATOR]\<rparr>)"
    using assms by (simp add: represents_def norm_string_def norm_comps_def root_string_def)
  from represents_fold [OF this, of True "pieces (tl p)"] assms(2) show ?thesis
    by (simp add: join_part_def resolve_step_def part_loop_pieces drop_Suc Let_def)
qed

lemma represents_positive: "represents True stale un st \<Longrightarrow> \<forall>k \<in> set (jr_stack st). 1 \<le> k"
proof -
  have "\<forall>k \<in> set (offsets True ups names). 1 \<le> k" for ups names
    by (induction names) (auto simp: norm_string_def root_string_def)
  then show "represents True stale un st \<Longrightarrow> ?thesis" by (fastforce simp: represents_def)
qed

lemma cwd_represents_positive: "cwd_represents base pushed st \<Longrightarrow> \<forall>k \<in> set (jr_stack st). 1 \<le> k"
proof -
  have "\<forall>k \<in> set (cwd_offsets base pushed). 1 \<le> k" for pushed
    by (induction pushed) (auto simp: cwd_string_def norm_string_def root_string_def)
  then show "cwd_represents base pushed st \<Longrightarrow> ?thesis" by (simp add: cwd_represents_def)
qed

lemma resolve_absolute_parts:
  "represents True stale un st \<Longrightarrow>
   \<exists>stale'. represents True stale' (fold resolve_step ps un) (fold (join_part True) ps st)"
proof (induction ps arbitrary: stale un st)
  case (Cons p ps)
  have "\<exists>stale1. represents True stale1 (resolve_step p un) (join_part True p st)"
  proof (cases "is_absolute p")
    case True
    with represents_restart [OF represents_positive [OF Cons.prems]] show ?thesis .
  next
    case False
    with represents_fold [OF Cons.prems, of True "pieces p"] show ?thesis
      by (simp add: join_part_relative resolve_step_def)
  qed
  with Cons.IH show ?case by fastforce
qed auto

lemma finish_cwd_string:
  assumes "base \<noteq> []" "\<forall>c \<in> set base. canonical c" "[] \<notin> set pushed"
  shows "finish True (cwd_string base pushed) = show_path True (0, pushed @ base)"
proof (cases "pushed = []")
  case True
  then show ?thesis using ends_cwd_string [OF assms(1,2), of "[]"]
    by (simp add: finish_def cwd_string_def show_path_def norm_comps_def Let_def)
next
  case False
  have "[] \<notin> set (norm_comps (0, pushed @ base))" using assms canonicalD by (auto simp: norm_comps_def)
  then show ?thesis using False finish_norm_string [of True True "(0, pushed @ base)"] by (simp add: cwd_string_def)
qed

lemma resolve_parts:
  "cwd_represents base pushed st \<Longrightarrow> [] \<notin> set pushed \<Longrightarrow>
   stays_below (concat (map pieces (takeWhile (\<lambda>p. \<not> is_absolute p) ps))) (0, pushed @ base) \<Longrightarrow>
   finish True (jr_result (fold (join_part True) ps st)) = show_path True (fold resolve_step ps (0, pushed @ base))"
proof (induction ps arbitrary: base pushed st)
  case Nil
  then show ?case using finish_cwd_string by (simp add: cwd_represents_def)
next
  case (Cons p ps)
  show ?case
  proof (cases "is_absolute p")
    case True
    obtain stale where "represents True stale (resolve_step p (0, pushed @ base)) (join_part True p st)"
      using represents_restart [OF cwd_represents_positive [OF Cons.prems(1)] True] by blast
    define un where un: "un = fold resolve_step (p # ps) (0, pushed @ base)"
    from resolve_absolute_parts [OF \<open>represents True stale _ _\<close>, of ps] obtain stale' where
      r: "represents True stale' un (fold (join_part True) (p # ps) st)" by (auto simp: un)
    have "[] \<notin> set (snd (fold resolve_step qs v))" if "[] \<notin> set (snd v)" for qs v
      using that by (induction qs arbitrary: v) (simp_all add: resolve_step_def norm_comps_nonempty)
    from this [of "(0, [])" "[]"] this [of "resolve_step p (0, pushed @ base)" ps]
    have "[] \<notin> set (norm_comps un)" using True
      by (auto simp: un norm_comps_def resolve_step_def norm_comps_nonempty)
    from finish_norm_string [of True True un, OF _ this] r show ?thesis by (simp add: represents_def un)
  next
    case False
    then have ok: "stays_below (pieces p) (0, pushed @ base)"
      "stays_below (concat (map pieces (takeWhile (\<lambda>p. \<not> is_absolute p) ps))) (fold (norm_step True) (pieces p) (0, pushed @ base))"
      using Cons.prems(3) by (simp_all add: stays_below_append)
    from cwd_represents_fold [OF Cons.prems(1) ok(1)] obtain base1 pushed1 where
      r: "cwd_represents base1 pushed1 (fold (sub_part_step True) (pieces p) st)"
      and n: "fold (norm_step True) (pieces p) (0, pushed @ base) = (0, pushed1 @ base1)" by blast
    have j: "cwd_represents base1 pushed1 (join_part True p st)"
      using r False by (simp add: join_part_def part_loop_pieces cwd_represents_def Let_def)
    have "[] \<notin> set (pushed @ base)" using Cons.prems canonicalD by (auto simp: cwd_represents_def)
    then have "[] \<notin> set pushed1" using norm_comps_nonempty [of "(0, pushed @ base)" True "pieces p"] n by simp
    from Cons.IH [OF j this] ok(2) n False show ?thesis by (simp add: resolve_step_def)
  qed
qed

text \<open>
  (C24) Resolving parts against a working directory below the root computes the reference,
  however often absolute parts start over, as long as no \<^verbatim>\<open>..\<close> before the first
  absolute part climbs out of the working directory's first component.
\<close>
theorem path_resolve_correct:
  assumes "cs \<noteq> []" "\<forall>c \<in> set cs. canonical c"
    and "stays_below (concat (map pieces (takeWhile (\<lambda>p. \<not> is_absolute p) parts))) (0, rev cs)"
  shows "resolve_path (show_path True (0, rev cs)) parts = show_path True (fold resolve_step parts (0, rev cs))"
proof -
  let ?cwd = "show_path True (0, rev cs)"
  have cwd: "?cwd = cwd_string (rev cs) []" by (simp add: show_path_def cwd_string_def norm_comps_def)
  have ends: "\<not> ends_with_sep ?cwd" using assms(1,2) ends_cwd_string [of "rev cs" "[]"] by (simp add: cwd)
  have "cwd_represents (rev cs) [] \<lparr>jr_result = ?cwd, jr_stack = [], jr_empty = True, jr_first = True\<rparr>"
    using assms by (simp add: cwd_represents_def cwd)
  from resolve_parts [OF this, of parts] assms(3) show ?thesis using ends assms(1)
    by (auto simp: resolve_path_def join_resolve_path_def finish_def ends_with_sep_def show_path_def Let_def)
qed

theorem path_resolve_correct_witness:
  "resolve_path ''/home/u'' [''../v'', ''x'', ''/etc'', ''../a''] = ''/a''"
  using path_resolve_correct [of "[''home'', ''u'']" "[''../v'', ''x'', ''/etc'', ''../a'']"]
  by (simp add: canonical_def is_absolute_def show_path_def norm_comps_def resolve_step_def pieces.simps)

text \<open>
  Climbing out of it, resolving loses the root: the result is a relative path, or
  empty, where the root directory would be right.
\<close>
lemma path_resolve_loses_root:
  "resolve_path ''/x'' [''../foo''] = ''foo''
   \<and> resolve_path ''/'' [''..''] = []
   \<and> show_path True (fold resolve_step [''../foo''] (0, [''x''])) = ''/foo''"
  by code_simp

text \<open>
  The suffix of \<^verbatim>\<open>basename\<close> is cut off wherever it last occurs, not only at the
  end, and an empty extension does not protect the name.
\<close>
lemma path_basename_cuts_inside:
  "basename ''/tmp/foo.html.bak'' (Some ''.html'') = ''foo''
   \<and> basename ''/tmp/foo.html'' (Some ''.html'') = ''foo''"
  by code_simp


subsection \<open>Relative paths lead from one path to the other\<close>

lemma skip_common_pieces:
  "skip_common s t i j = (i', j') \<Longrightarrow>
   \<exists>common. pieces (drop i s) = common @ pieces (drop i' s) \<and> pieces (drop j t) = common @ pieces (drop j' t)"
proof (induction s t i j rule: skip_common.induct)
  case (1 s t i j)
  let ?i = "next_sep_from s i" and ?j = "next_sep_from t j"
  let ?c = "take (?i - i) (drop i s)" and ?d = "take (?j - j) (drop j t)"
  show ?case
  proof (cases "i < length s \<and> j < length t \<and> ?c = ?d")
    case True
    then have "skip_common s t (?i + 1) (?j + 1) = (i', j')"
      using "1.prems" by (simp add: skip_common.simps [of s t i j])
    with "1.IH" True obtain common where
      "pieces (drop (?i + 1) s) = common @ pieces (drop i' s)"
      "pieces (drop (?j + 1) t) = common @ pieces (drop j' t)" by blast
    with True pieces_drop [of i s] pieces_drop [of j t] show ?thesis by (intro exI [of _ "?d # common"]) simp
  next
    case False
    then have "i' = i" "j' = j" using "1.prems" by (auto simp: skip_common.simps [of s t i j] Let_def split: if_splits)
    then show ?thesis by (intro exI [of _ "[]"]) simp
  qed
qed

text \<open>A path that has been built so far, and one more component.\<close>

definition plain_comps :: "string list \<Rightarrow> bool" where
  "plain_comps cs \<longleftrightarrow> (\<forall>c \<in> set cs. c \<noteq> [] \<and> c \<noteq> ''.'' \<and> MAIN_SEPARATOR \<notin> set c)"

lemma sep_join_extend:
  assumes "plain_comps cs"
  shows "(if sep_join cs = [] then [] else sep_join cs @ [MAIN_SEPARATOR]) @ c = sep_join (cs @ [c])"
proof (cases "cs = []")
  case False
  then have "sep_join cs \<noteq> []" using assms hd_sep_join [of cs] by (simp add: plain_comps_def)
  with False show ?thesis by (simp add: sep_join_snoc)
qed simp

lemma add_ups_pieces:
  "plain_comps cs \<Longrightarrow> add_ups s i (sep_join cs) = sep_join (cs @ replicate (length (pieces (drop i s))) ''..'')"
proof (induction "length s - i" arbitrary: i cs rule: less_induct)
  case less
  show ?case
  proof (cases "i < length s")
    case True
    have "length s - (next_sep_from s i + 1) < length s - i" using True by (simp add: next_sep_from_def)
    moreover have "plain_comps (cs @ [''..''])" using less.prems by (simp add: plain_comps_def)
    ultimately show ?thesis using less.hyps [of "next_sep_from s i + 1" "cs @ [''..'']"] True less.prems
      by (simp add: add_ups.simps [of s i] sep_join_extend pieces_drop del: append_assoc)
        (simp add: append_assoc)
  next
    case False
    then show ?thesis by (simp add: add_ups.simps)
  qed
qed

lemma add_rest_pieces:
  "plain_comps (cs @ pieces (drop j t)) \<Longrightarrow> add_rest t j (sep_join cs) = sep_join (cs @ pieces (drop j t))"
proof (induction "length t - j" arbitrary: j cs rule: less_induct)
  case less
  show ?case
  proof (cases "j < length t")
    case True
    let ?j = "next_sep_from t j"
    let ?c = "take (?j - j) (drop j t)"
    have "length t - (?j + 1) < length t - j" using True by (simp add: next_sep_from_def)
    moreover have "plain_comps ((cs @ [?c]) @ pieces (drop (?j + 1) t))" "plain_comps cs" "?c \<noteq> ''.''"
      using less.prems pieces_drop [OF True] by (simp_all add: plain_comps_def)
    ultimately show ?thesis using less.hyps [of "?j + 1" "cs @ [?c]"] True
      by (simp add: add_rest.simps [of t j] sep_join_extend pieces_drop Let_def del: append_assoc)
        (simp add: append_assoc)
  next
    case False
    then show ?thesis by (simp add: add_rest.simps)
  qed
qed

lemma canonical_pieces: "\<forall>c \<in> set cs. canonical c \<Longrightarrow> pieces (sep_join cs) = cs"
  using canonicalD by (intro pieces_sep_join) blast

lemma join_below:
  assumes "\<forall>c \<in> set fs. canonical c"
  shows "join_path [MAIN_SEPARATOR # sep_join fs, r] = show_path True (fold (norm_step True) (pieces r) (0, rev fs))"
  using canonical_pieces [OF assms] fold_norm_names [OF assms]
  by (simp add: join_path_spec join_spec_def join_absolute_def join_comps_def starts_with_sep_def)

lemma relative_leads:
  assumes fs: "\<forall>c \<in> set fs. canonical c" and ts: "\<forall>c \<in> set ts. canonical c" and "fs \<noteq> ts"
  shows "fold (norm_step True) (pieces (relative cwd (MAIN_SEPARATOR # sep_join fs) (MAIN_SEPARATOR # sep_join ts)))
    (0, rev fs) = (0, rev ts)"
proof -
  let ?s = "MAIN_SEPARATOR # sep_join fs" and ?t = "MAIN_SEPARATOR # sep_join ts"
  obtain i j where ij: "skip_common ?s ?t 1 1 = (i, j)" by fastforce
  have start: "skip_common ?s ?t 0 0 = (i, j)"
    using ij by (subst skip_common.simps) (simp add: next_sep_from_def find_next_separator_def)
  obtain common where "fs = common @ pieces (drop i ?s)" "ts = common @ pieces (drop j ?t)"
    using skip_common_pieces [OF ij] canonical_pieces fs ts by (auto simp del: drop_Suc_Cons simp: drop_Suc)
  then obtain fr tr where c: "fs = common @ fr" "ts = common @ tr"
    and fr: "fr = pieces (drop i ?s)" and tr: "tr = pieces (drop j ?t)" by blast
  let ?cs = "replicate (length fr) ''..'' @ tr"
  have can: "\<forall>c \<in> set common. canonical c" "\<forall>c \<in> set tr. canonical c" using ts unfolding c(2) by simp_all
  have plain_comps: "plain_comps ?cs" using can(2) unfolding plain_comps_def canonical_def by (simp add: ball_Un)
  have ne: "?s \<noteq> ?t" using \<open>fs \<noteq> ts\<close> canonical_pieces fs ts by (metis list.inject)
  have "?cs \<noteq> []" using \<open>fs \<noteq> ts\<close> unfolding c by auto
  then have ne_cs: "sep_join ?cs \<noteq> []" using plain_comps hd_sep_join [of ?cs] hd_in_set [of ?cs]
    unfolding plain_comps_def by blast
  have "add_ups ?s i [] = sep_join (replicate (length fr) ''..'')"
    using add_ups_pieces [of "[]" ?s i] by (simp add: plain_comps_def fr)
  then have "add_rest ?t j (add_ups ?s i []) = sep_join ?cs"
    using add_rest_pieces [of "replicate (length fr) ''..''" j ?t] plain_comps by (simp add: tr)
  then have "relative cwd ?s ?t = sep_join ?cs"
    using ne ne_cs start by (simp add: relative_def is_absolute_def)
  moreover have "pieces (sep_join ?cs) = ?cs" using plain_comps by (intro pieces_sep_join) (simp add: plain_comps_def)
  moreover have "fold (norm_step True) (replicate (length fr) ''..'') (0, rev fs) = (0, rev common)"
    using fold_norm_downs [of True "rev fr" 0 "rev common"] c(1) by (simp del: fold_replicate)
  ultimately show ?thesis using fold_norm_names [OF can(2), of True 0 "rev common"] c(2)
    by (simp del: fold_replicate)
qed

text \<open>
  (C25) Joining a directory with the relative path from it to another path gives that
  path: for all absolute paths in normal form, whatever the working directory.
\<close>
theorem path_relative_round_trip:
  assumes "\<forall>c \<in> set fs. canonical c" "\<forall>c \<in> set ts. canonical c"
  shows "join_path [show_path True (0, rev fs), relative cwd (show_path True (0, rev fs)) (show_path True (0, rev ts))]
    = show_path True (0, rev ts)"
proof (cases "fs = ts")
  case True
  then show ?thesis using join_below [OF assms(1)] by (simp add: show_path_def norm_comps_def relative_def)
next
  case False
  have "show_path True (0, rev cs) = MAIN_SEPARATOR # sep_join cs" for cs by (simp add: show_path_def norm_comps_def)
  then show ?thesis using join_below [OF assms(1)] relative_leads [OF assms False] by simp
qed

theorem path_relative_round_trip_witness:
  "join_path [''/a/b/c'', relative ''/'' ''/a/b/c'' ''/a/d''] = ''/a/d''"
  using path_relative_round_trip [of "[''a'', ''b'', ''c'']" "[''a'', ''d'']" "''/''"]
  by (simp add: canonical_def show_path_def norm_comps_def)

end
