(* ===== verification/Events.thy ===== *)
theory Events
  imports Prelude "HOL-Library.Monad_Syntax"
begin

text \<open>
  \<^verbatim>\<open>modules/llrt_events/src/lib.rs\<close>: event emitters and event targets.  The lists of
  listeners are shared and locked (\<^verbatim>\<open>Arc<RwLock<EventList>>\<close>); here they live in a store
  and an object refers to them by index.  A native object carries its list, any other
  object gets one in a hidden property the first time it is used as an emitter.

  Listeners are functions of JavaScript: an argument of the model, called with the whole
  world, so that a listener may add, remove and emit while an event is emitted.  A result
  is \<^verbatim>\<open>None\<close> when the process panics; otherwise it is an exception or a value, and the
  world.  The log records registrations, calls and aborts; no operation reads it.
\<close>

datatype js_fn = UserFn nat | AnyListener nat nat

datatype ev_value =
    VUndefined
  | VNull
  | VBool bool
  | VNat nat
  | VString string
  | VSymbol nat
  | VObject nat
  | VFn js_fn
  | VList "ev_value list"
  | VTypeError string
  | VError string
  | VDomException string

datatype event_key = KSymbol nat | KString string

record event_item =
  ei_callback :: js_fn
  ei_once :: bool

type_synonym event_list = "(event_key \<times> event_item list) list"

datatype obj_class = CPlain | CEmitter | CTarget | CSignal | CController

record abort_signal =
  as_aborted :: bool
  as_reason :: "ev_value option"
  as_sent :: "ev_value option"

record js_object =
  o_class :: obj_class
  o_events :: nat
  o_hidden :: "nat option"
  o_extensible :: bool
  o_type :: "ev_value option"
  o_signal :: abort_signal
  o_signal_ref :: nat

datatype ev_log = LAdd js_fn bool | LCall js_fn nat "ev_value list" | LAbort nat | LAny nat

record ev_world =
  e_lists :: "nat \<Rightarrow> event_list"
  e_next_list :: nat
  e_objects :: "nat \<Rightarrow> js_object"
  e_next_obj :: nat
  e_jobs :: "(js_fn \<times> nat \<times> ev_value list) list"
  e_timers :: "(nat \<times> ev_value) list"
  e_log :: "ev_log list"

type_synonym 'a ev_result = "((ev_value + 'a) \<times> ev_world) option"

type_synonym ev_user = "js_fn \<Rightarrow> nat \<Rightarrow> ev_value list \<Rightarrow> ev_world \<Rightarrow> unit ev_result"

abbreviation upd_list :: "nat \<Rightarrow> (event_list \<Rightarrow> event_list) \<Rightarrow> ev_world \<Rightarrow> ev_world" where
  "upd_list l f w \<equiv> w\<lparr>e_lists := (e_lists w)(l := f (e_lists w l))\<rparr>"

abbreviation upd_obj :: "nat \<Rightarrow> (js_object \<Rightarrow> js_object) \<Rightarrow> ev_world \<Rightarrow> ev_world" where
  "upd_obj i f w \<equiv> w\<lparr>e_objects := (e_objects w)(i := f (e_objects w i))\<rparr>"

abbreviation log_ev :: "ev_log \<Rightarrow> ev_world \<Rightarrow> ev_world" where
  "log_ev e w \<equiv> w\<lparr>e_log := e_log w @ [e]\<rparr>"

subsection \<open>Keys and lists\<close>

definition from_value :: "ev_value \<Rightarrow> ev_value + event_key" where
  "from_value v =
     (case v of
        VString s \<Rightarrow> Inr (KString s)
      | VSymbol n \<Rightarrow> Inr (KSymbol n)
      | _ \<Rightarrow> Inl (VError ''Not a symbol''))"

definition key_value :: "event_key \<Rightarrow> ev_value" where
  "key_value k = (case k of KSymbol n \<Rightarrow> VSymbol n | KString s \<Rightarrow> VString s)"

text \<open>The entry at the first position with the key.\<close>

fun find_entry :: "event_key \<Rightarrow> event_list \<Rightarrow> event_item list option" where
  "find_entry key [] = None"
| "find_entry key ((k, items) # rest) = (if k = key then Some items else find_entry key rest)"

fun set_entry :: "event_key \<Rightarrow> event_item list \<Rightarrow> event_list \<Rightarrow> event_list" where
  "set_entry key items [] = []"
| "set_entry key items ((k, old) # rest) =
     (if k = key then (k, items) # rest else (k, old) # set_entry key items rest)"

fun remove_entry :: "event_key \<Rightarrow> event_list \<Rightarrow> event_list" where
  "remove_entry key [] = []"
| "remove_entry key ((k, items) # rest) = (if k = key then rest else (k, items) # remove_entry key rest)"

text \<open>\<^verbatim>\<open>items.remove(pos)\<close> at the first position with the callback.\<close>

fun remove_callback :: "js_fn \<Rightarrow> event_item list \<Rightarrow> event_item list option" where
  "remove_callback f [] = None"
| "remove_callback f (it # items) =
     (if ei_callback it = f then Some items else map_option ((#) it) (remove_callback f items))"

definition has_key :: "event_list \<Rightarrow> event_key \<Rightarrow> bool" where
  "has_key events key \<longleftrightarrow> list_ex (\<lambda>(k, _). k = key) events"

definition find_all_listeners :: "event_list \<Rightarrow> event_key \<Rightarrow> js_fn list" where
  "find_all_listeners events key =
     (case find_entry key events of Some items \<Rightarrow> map ei_callback items | None \<Rightarrow> [])"

subsection \<open>The list of an object\<close>

definition new_list :: "ev_world \<Rightarrow> nat \<times> ev_world" where
  "new_list w = (e_next_list w, w\<lparr>e_next_list := Suc (e_next_list w), e_lists := (e_lists w)(e_next_list w := [])\<rparr>)"

definition resolve_events :: "nat \<Rightarrow> ev_world \<Rightarrow> (ev_value + nat) \<times> ev_world" where
  "resolve_events this w =
     (let ob = e_objects w this in
      if o_class ob = CEmitter then (Inr (o_events ob), w)
      else case o_hidden ob of
        Some l \<Rightarrow> (Inr l, w)
      | None \<Rightarrow>
          let (l, w1) = new_list w in
          if o_extensible ob then (Inr l, upd_obj this (\<lambda>ob. ob\<lparr>o_hidden := Some l\<rparr>) w1)
          else (Inl (VTypeError ''object is not extensible''), w1))"

text \<open>The class is the one whose prototype the method belongs to.\<close>

definition resolve_events_from :: "obj_class \<Rightarrow> nat \<Rightarrow> ev_world \<Rightarrow> (ev_value + nat) \<times> ev_world" where
  "resolve_events_from cls this w =
     (if o_class (e_objects w this) = cls then (Inr (o_events (e_objects w this)), w)
      else resolve_events this w)"

text \<open>Every operation finds the list first and converts the event after that.\<close>

definition with_entry ::
  "obj_class \<Rightarrow> nat \<Rightarrow> ev_value \<Rightarrow> (nat \<Rightarrow> event_key \<Rightarrow> ev_world \<Rightarrow> 'a ev_result) \<Rightarrow> ev_world \<Rightarrow> 'a ev_result" where
  "with_entry cls this event f w =
     (case resolve_events_from cls this w of
        (Inl e, w1) \<Rightarrow> Some (Inl e, w1)
      | (Inr l, w1) \<Rightarrow>
          (case from_value event of
             Inl e \<Rightarrow> Some (Inl e, w1)
           | Inr key \<Rightarrow> f l key w1))"

subsection \<open>Listeners\<close>

definition add_item :: "nat \<Rightarrow> event_key \<Rightarrow> event_item \<Rightarrow> bool \<Rightarrow> ev_world \<Rightarrow> ev_world" where
  "add_item l key item prepend w =
     (let w1 = (if find_entry key (e_lists w l) = None then upd_list l (\<lambda>evs. evs @ [(key, [])]) w else w);
          items = (case find_entry key (e_lists w1 l) of Some items \<Rightarrow> items | None \<Rightarrow> [])
      in log_ev (LAdd (ei_callback item) (ei_once item))
           (upd_list l (set_entry key (if prepend then item # items else items @ [item])) w1))"

definition add_event_listener ::
  "obj_class \<Rightarrow> nat \<Rightarrow> ev_value \<Rightarrow> js_fn \<Rightarrow> bool \<Rightarrow> bool \<Rightarrow> ev_world \<Rightarrow> ev_value ev_result" where
  "add_event_listener cls this event listener prepend once =
     with_entry cls this event (\<lambda>l key w.
       Some (Inr (VObject this), add_item l key \<lparr>ei_callback = listener, ei_once = once\<rparr> prepend w))"

definition on_listener :: "obj_class \<Rightarrow> nat \<Rightarrow> ev_value \<Rightarrow> js_fn \<Rightarrow> ev_world \<Rightarrow> ev_value ev_result" where
  "on_listener cls this event listener = add_event_listener cls this event listener False False"

definition once_listener :: "obj_class \<Rightarrow> nat \<Rightarrow> ev_value \<Rightarrow> js_fn \<Rightarrow> ev_world \<Rightarrow> ev_value ev_result" where
  "once_listener cls this event listener = add_event_listener cls this event listener False True"

definition prepend_listener :: "obj_class \<Rightarrow> nat \<Rightarrow> ev_value \<Rightarrow> js_fn \<Rightarrow> ev_world \<Rightarrow> ev_value ev_result" where
  "prepend_listener cls this event listener = add_event_listener cls this event listener True False"

definition prepend_once_listener :: "obj_class \<Rightarrow> nat \<Rightarrow> ev_value \<Rightarrow> js_fn \<Rightarrow> ev_world \<Rightarrow> ev_value ev_result" where
  "prepend_once_listener cls this event listener = add_event_listener cls this event listener True True"

text \<open>The outer option is whether options are given, the inner one their property
  \<^verbatim>\<open>once\<close>.\<close>

definition evt_add_event_listener ::
  "obj_class \<Rightarrow> nat \<Rightarrow> ev_value \<Rightarrow> js_fn \<Rightarrow> ev_value option option \<Rightarrow> ev_world \<Rightarrow> ev_value ev_result" where
  "evt_add_event_listener cls this event listener options w =
     (case options of
        Some (Some (VBool b)) \<Rightarrow> add_event_listener cls this event listener False b w
      | Some (Some VUndefined) \<Rightarrow> add_event_listener cls this event listener False False w
      | Some (Some VNull) \<Rightarrow> add_event_listener cls this event listener False False w
      | Some (Some _) \<Rightarrow> Some (Inl (VTypeError ''once is not a bool''), w)
      | _ \<Rightarrow> add_event_listener cls this event listener False False w)"

definition remove_event_listener ::
  "obj_class \<Rightarrow> nat \<Rightarrow> ev_value \<Rightarrow> js_fn \<Rightarrow> ev_world \<Rightarrow> ev_value ev_result" where
  "remove_event_listener cls this event listener =
     with_entry cls this event (\<lambda>l key w.
       Some (Inr (VObject this),
         case find_entry key (e_lists w l) of
           None \<Rightarrow> w
         | Some items \<Rightarrow>
             (case remove_callback listener items of
                None \<Rightarrow> w
              | Some items' \<Rightarrow>
                  if items' = [] then upd_list l (remove_entry key) w
                  else upd_list l (set_entry key items') w)))"

definition remove_all_listeners ::
  "obj_class \<Rightarrow> nat \<Rightarrow> ev_value option \<Rightarrow> ev_world \<Rightarrow> ev_value ev_result" where
  "remove_all_listeners cls this event w =
     (case resolve_events_from cls this w of
        (Inl e, w1) \<Rightarrow> Some (Inl e, w1)
      | (Inr l, w1) \<Rightarrow>
          (case event of
             Some ev \<Rightarrow>
               if ev = VUndefined then Some (Inr (VObject this), upd_list l (\<lambda>_. []) w1)
               else (case from_value ev of
                       Inl e \<Rightarrow> Some (Inl e, w1)
                     | Inr key \<Rightarrow>
                         Some (Inr (VObject this), upd_list l (filter (\<lambda>(k, _). k \<noteq> key)) w1))
           | None \<Rightarrow> Some (Inr (VObject this), upd_list l (\<lambda>_. []) w1)))"

definition event_names :: "obj_class \<Rightarrow> nat \<Rightarrow> ev_world \<Rightarrow> ev_value ev_result" where
  "event_names cls this w =
     (case resolve_events_from cls this w of
        (Inl e, w1) \<Rightarrow> Some (Inl e, w1)
      | (Inr l, w1) \<Rightarrow> Some (Inr (VList (map (\<lambda>(k, _). key_value k) (e_lists w1 l))), w1))"

definition listener_count :: "obj_class \<Rightarrow> nat \<Rightarrow> ev_value \<Rightarrow> ev_world \<Rightarrow> ev_value ev_result" where
  "listener_count cls this event =
     with_entry cls this event (\<lambda>l key w.
       Some (Inr (VNat (case find_entry key (e_lists w l) of None \<Rightarrow> 0 | Some items \<Rightarrow> length items)), w))"

subsection \<open>Emitting\<close>

definition call_listener :: "ev_user \<Rightarrow> ev_user" where
  "call_listener u f this args w = u f this args (log_ev (LCall f this args) w)"

fun call_all :: "ev_user \<Rightarrow> nat \<Rightarrow> ev_value list \<Rightarrow> js_fn list \<Rightarrow> ev_world \<Rightarrow> unit ev_result" where
  "call_all u this args [] w = Some (Inr (), w)"
| "call_all u this args (f # fs) w =
     do { (res, w1) \<leftarrow> call_listener u f this args w;
          (case res of Inl e \<Rightarrow> Some (Inl e, w1) | Inr _ \<Rightarrow> call_all u this args fs w1) }"

definition defer_all :: "nat \<Rightarrow> ev_value list \<Rightarrow> js_fn list \<Rightarrow> ev_world \<Rightarrow> ev_world" where
  "defer_all this args fs w = w\<lparr>e_jobs := e_jobs w @ map (\<lambda>f. (f, this, args)) fs\<rparr>"

text \<open>The listeners are collected, and those registered once are removed, before the first
  of them is called.\<close>

definition retain_listeners :: "nat \<Rightarrow> event_key \<Rightarrow> event_item list \<Rightarrow> ev_world \<Rightarrow> ev_world" where
  "retain_listeners l key items w =
     (let kept = filter (\<lambda>it. \<not> ei_once it) items
      in if kept = [] then upd_list l (remove_entry key) w else upd_list l (set_entry key kept) w)"

definition do_emit ::
  "ev_user \<Rightarrow> obj_class \<Rightarrow> ev_value \<Rightarrow> nat \<Rightarrow> ev_value list \<Rightarrow> bool \<Rightarrow> ev_world \<Rightarrow> ev_value ev_result" where
  "do_emit u cls event this args defer =
     with_entry cls this event (\<lambda>l key w.
       case find_entry key (e_lists w l) of
         None \<Rightarrow> Some (Inr (VBool False), w)
       | Some items \<Rightarrow>
           let callbacks = map ei_callback items;
               w1 = retain_listeners l key items w
           in if defer then Some (Inr (VBool True), defer_all this args callbacks w1)
              else do { (res, w2) \<leftarrow> call_all u this args callbacks w1;
                        Some (case res of Inl e \<Rightarrow> Inl e | Inr _ \<Rightarrow> Inr (VBool True), w2) })"

definition emit_str :: "ev_user \<Rightarrow> obj_class \<Rightarrow> nat \<Rightarrow> string \<Rightarrow> ev_value list \<Rightarrow> bool \<Rightarrow> ev_world \<Rightarrow> unit ev_result" where
  "emit_str u cls this event args defer w =
     do { (res, w1) \<leftarrow> do_emit u cls (VString event) this args defer w;
          Some (case res of Inl e \<Rightarrow> Inl e | Inr _ \<Rightarrow> Inr (), w1) }"

definition emit :: "ev_user \<Rightarrow> obj_class \<Rightarrow> nat \<Rightarrow> ev_value \<Rightarrow> ev_value list \<Rightarrow> ev_world \<Rightarrow> ev_value ev_result" where
  "emit u cls this event args = do_emit u cls event this args False"

text \<open>\<^verbatim>\<open>get_optional\<close> finds nothing in a value that is no object, and takes undefined and
  null for nothing; \<^verbatim>\<open>unwrap\<close> then panics.\<close>

definition get_optional_type :: "ev_value \<Rightarrow> ev_world \<Rightarrow> ev_value option" where
  "get_optional_type v w =
     (case v of
        VObject i \<Rightarrow>
          (case o_type (e_objects w i) of Some t \<Rightarrow> if t = VUndefined \<or> t = VNull then None else Some t | None \<Rightarrow> None)
      | _ \<Rightarrow> None)"

definition evt_dispatch_event :: "ev_user \<Rightarrow> obj_class \<Rightarrow> nat \<Rightarrow> ev_value \<Rightarrow> ev_world \<Rightarrow> ev_value ev_result" where
  "evt_dispatch_event u cls this event w =
     do { event_type \<leftarrow> get_optional_type event w; do_emit u cls event_type this [event] False w }"

text \<open>\<^verbatim>\<open>emit_error\<close>: a failure goes to the listeners of \<^verbatim>\<open>error\<close>, and is passed on when there
  are none.\<close>

definition emit_error :: "ev_user \<Rightarrow> obj_class \<Rightarrow> nat \<Rightarrow> ev_value + 'a \<Rightarrow> ev_world \<Rightarrow> bool ev_result" where
  "emit_error u cls this r w =
     (case r of
        Inr _ \<Rightarrow> Some (Inr False, w)
      | Inl err \<Rightarrow>
          if has_key (e_lists w (o_events (e_objects w this))) (KString ''error'') then
            do { (res, w1) \<leftarrow> emit_str u cls this ''error'' [err] False w;
                 Some (case res of Inl e \<Rightarrow> Inl e | Inr _ \<Rightarrow> Inr True, w1) }
          else Some (Inl err, w))"

end
