(* ===== verification/AbortSignal.thy ===== *)
theory AbortSignal
  imports Events
begin

text \<open>
  \<^verbatim>\<open>modules/llrt_abort/src\<close>: abort signals and controllers.  A signal is an event emitter
  with a flag, a reason and a one-shot channel.  \<^verbatim>\<open>AbortSignal.any\<close> registers a native
  listener on each of its sources, here the function \<^term>\<open>AnyListener c j\<close> for the new
  signal \<^term>\<open>c\<close>.  A timer of \<^verbatim>\<open>AbortSignal.timeout\<close> is an entry of the world that an
  event of the environment fires.
\<close>

abbreviation upd_signal :: "nat \<Rightarrow> (abort_signal \<Rightarrow> abort_signal) \<Rightarrow> ev_world \<Rightarrow> ev_world" where
  "upd_signal i f w \<equiv> upd_obj i (\<lambda>ob. ob\<lparr>o_signal := f (o_signal ob)\<rparr>) w"

abbreviation signal_of :: "ev_world \<Rightarrow> nat \<Rightarrow> abort_signal" where
  "signal_of w i \<equiv> o_signal (e_objects w i)"

definition signal_new :: abort_signal where
  "signal_new = \<lparr>as_aborted = False, as_reason = None, as_sent = None\<rparr>"

text \<open>An object of a native class comes with a list of its own.\<close>

definition new_object :: "obj_class \<Rightarrow> abort_signal \<Rightarrow> nat \<Rightarrow> ev_world \<Rightarrow> nat \<times> ev_world" where
  "new_object cls sig ref w =
     (let (l, w1) = new_list w; i = e_next_obj w1 in
      (i, w1\<lparr>e_next_obj := Suc i,
             e_objects := (e_objects w1)(i := \<lparr>o_class = cls, o_events = l, o_hidden = None,
               o_extensible = True, o_type = None, o_signal = sig, o_signal_ref = ref\<rparr>)\<rparr>))"

definition get_on_abort :: "nat \<Rightarrow> ev_world \<Rightarrow> js_fn option" where
  "get_on_abort this w =
     (case find_all_listeners (e_lists w (o_events (e_objects w this))) (KString ''abort'') of
        [] \<Rightarrow> None | f # _ \<Rightarrow> Some f)"

definition set_on_abort :: "nat \<Rightarrow> js_fn \<Rightarrow> ev_world \<Rightarrow> ev_value ev_result" where
  "set_on_abort this listener = add_event_listener CSignal this (VString ''abort'') listener False False"

definition remove_on_abort :: "nat \<Rightarrow> js_fn \<Rightarrow> ev_world \<Rightarrow> ev_value ev_result" where
  "remove_on_abort this listener = remove_event_listener CSignal this (VString ''abort'') listener"

definition throw_if_aborted :: "nat \<Rightarrow> ev_world \<Rightarrow> ev_value + unit" where
  "throw_if_aborted this w =
     (if as_aborted (signal_of w this)
      then Inl (case as_reason (signal_of w this) of Some r \<Rightarrow> r | None \<Rightarrow> VUndefined)
      else Inr ())"

definition set_reason :: "ev_value option \<Rightarrow> abort_signal \<Rightarrow> abort_signal" where
  "set_reason reason sig =
     (case reason of
        Some r \<Rightarrow> if r \<noteq> VUndefined then sig\<lparr>as_reason := Some r\<rparr> else sig\<lparr>as_reason := None\<rparr>
      | None \<Rightarrow> sig\<lparr>as_reason := None\<rparr>)"

definition get_reason_or_dom_exception :: "ev_value option \<Rightarrow> string \<Rightarrow> ev_value" where
  "get_reason_or_dom_exception reason name = (case reason of Some r \<Rightarrow> r | None \<Rightarrow> VDomException name)"

text \<open>The channel keeps the first value it is sent.\<close>

definition sender_send :: "ev_value \<Rightarrow> abort_signal \<Rightarrow> abort_signal" where
  "sender_send v sig = (if as_sent sig = None then sig\<lparr>as_sent := Some v\<rparr> else sig)"

definition mark_aborted :: "abort_signal \<Rightarrow> abort_signal" where
  "mark_aborted sig =
     (let reason = get_reason_or_dom_exception (as_reason sig) ''AbortError''
      in sender_send reason (sig\<lparr>as_aborted := True, as_reason := Some reason\<rparr>))"

definition send_aborted :: "ev_user \<Rightarrow> nat \<Rightarrow> ev_world \<Rightarrow> unit ev_result" where
  "send_aborted u this w =
     emit_str u CSignal this ''abort'' [] False (log_ev (LAbort this) (upd_signal this mark_aborted w))"

definition signal_abort :: "ev_user \<Rightarrow> ev_value option \<Rightarrow> ev_world \<Rightarrow> nat ev_result" where
  "signal_abort u reason w =
     (let (i, w1) = new_object CSignal (set_reason reason signal_new) 0 w
      in do { (res, w2) \<leftarrow> send_aborted u i w1;
              Some (case res of Inl e \<Rightarrow> Inl e | Inr _ \<Rightarrow> Inr i, w2) })"

definition controller_new :: "ev_world \<Rightarrow> nat \<times> ev_world" where
  "controller_new w =
     (let (s, w1) = new_object CSignal signal_new 0 w in new_object CController signal_new s w1)"

definition controller_abort :: "ev_user \<Rightarrow> nat \<Rightarrow> ev_value option \<Rightarrow> ev_world \<Rightarrow> unit ev_result" where
  "controller_abort u this reason w =
     (let sig = o_signal_ref (e_objects w this)
      in if as_aborted (signal_of w sig) then Some (Inr (), w)
         else send_aborted u sig (upd_signal sig (set_reason reason) w))"

subsection \<open>Signals that follow others\<close>

text \<open>The first loop of \<^verbatim>\<open>any\<close>: an aborted source ends it with its reason.\<close>

datatype any_scan = AnyError ev_value | AnyAborted "ev_value option" | AnySources "nat list"

fun scan_sources :: "ev_value list \<Rightarrow> nat list \<Rightarrow> ev_world \<Rightarrow> any_scan" where
  "scan_sources [] acc w = AnySources (rev acc)"
| "scan_sources (v # vs) acc w =
     (case v of
        VObject i \<Rightarrow>
          if o_class (e_objects w i) = CSignal then
            if as_aborted (signal_of w i) then AnyAborted (as_reason (signal_of w i))
            else scan_sources vs (i # acc) w
          else AnyError (VTypeError ''Value is not an AbortSignal instance'')
      | _ \<Rightarrow> AnyError (VTypeError ''Value is not an AbortSignal instance''))"

fun follow_all :: "nat \<Rightarrow> nat \<Rightarrow> nat list \<Rightarrow> ev_world \<Rightarrow> unit ev_result" where
  "follow_all c j [] w = Some (Inr (), w)"
| "follow_all c j (s # ss) w =
     do { (res, w1) \<leftarrow> add_event_listener CSignal s (VString ''abort'') (AnyListener c j) False True w;
          (case res of Inl e \<Rightarrow> Some (Inl e, w1) | Inr _ \<Rightarrow> follow_all c (Suc j) ss w1) }"

definition signal_any :: "ev_value list \<Rightarrow> ev_world \<Rightarrow> nat ev_result" where
  "signal_any signals w =
     (case scan_sources signals [] w of
        AnyError e \<Rightarrow> Some (Inl e, w)
      | AnyAborted reason \<Rightarrow>
          let (i, w1) = new_object CSignal (signal_new\<lparr>as_aborted := True, as_reason := reason\<rparr>) 0 w
          in Some (Inr i, w1)
      | AnySources ss \<Rightarrow>
          let (i, w1) = new_object CSignal signal_new 0 w
          in do { (res, w2) \<leftarrow> follow_all i 0 ss (log_ev (LAny i) w1);
                  Some (case res of Inl e \<Rightarrow> Inl e | Inr _ \<Rightarrow> Inr i, w2) })"

text \<open>The listener \<^verbatim>\<open>any\<close> registers.  Its receiver must be a signal; borrowing the receiver
  while the new signal is borrowed mutably panics when they are the same.\<close>

definition any_listener :: "ev_user \<Rightarrow> nat \<Rightarrow> nat \<Rightarrow> ev_world \<Rightarrow> unit ev_result" where
  "any_listener u c this w =
     (if o_class (e_objects w this) \<noteq> CSignal then Some (Inl (VTypeError ''receiver is not an AbortSignal''), w)
      else if this = c then None
      else send_aborted u c
             (upd_signal c (\<lambda>sig. sig\<lparr>as_aborted := True, as_reason := as_reason (signal_of w this)\<rparr>) w))"

subsection \<open>Timeouts\<close>

definition signal_timeout :: "ev_world \<Rightarrow> nat \<times> ev_world" where
  "signal_timeout w =
     (let (i, w1) = new_object CSignal signal_new 0 w
      in (i, w1\<lparr>e_timers := e_timers w1 @ [(i, get_reason_or_dom_exception None ''TimeoutError'')]\<rparr>))"

definition timeout_callback :: "ev_user \<Rightarrow> nat \<times> ev_value \<Rightarrow> ev_world \<Rightarrow> unit ev_result" where
  "timeout_callback u t w = send_aborted u (fst t) (upd_signal (fst t) (set_reason (Some (snd t))) w)"

end
