(* ===== verification/EventInv.thy ===== *)
theory EventInv
  imports AbortSignal
begin

text \<open>
  The invariant of emitters and abort signals and the relation between the worlds before
  and after an operation.  Two kinds of balance are kept: per function, how many times it
  was registered against how many times it was called and how many times it is still
  registered; per signal, how many abort events it was sent against its flag.
\<close>

subsection \<open>Counting\<close>

definition all_items :: "event_list \<Rightarrow> event_item list" where
  "all_items evs = concat (map snd evs)"

definition icount :: "js_fn \<Rightarrow> event_item list \<Rightarrow> nat" where
  "icount f items = count_list (map ei_callback items) f"

definition present :: "ev_world \<Rightarrow> js_fn \<Rightarrow> nat" where
  "present w f = (\<Sum>l<e_next_list w. icount f (all_items (e_lists w l)))"

definition added :: "js_fn \<Rightarrow> ev_log list \<Rightarrow> nat" where
  "added f lg = length (filter (\<lambda>e. case e of LAdd g _ \<Rightarrow> g = f | _ \<Rightarrow> False) lg)"

definition called :: "js_fn \<Rightarrow> ev_log list \<Rightarrow> nat" where
  "called f lg = length (filter (\<lambda>e. case e of LCall g _ _ \<Rightarrow> g = f | _ \<Rightarrow> False) lg)"

definition aborts :: "nat \<Rightarrow> ev_log list \<Rightarrow> nat" where
  "aborts s lg = count_list lg (LAbort s)"

definition queued :: "js_fn \<Rightarrow> ev_world \<Rightarrow> nat" where
  "queued f w = count_list (map fst (e_jobs w)) f"

text \<open>How many calls of a function its registrations still leave.\<close>

definition slack :: "ev_world \<Rightarrow> js_fn \<Rightarrow> int" where
  "slack w f = int (added f (e_log w)) - int (called f (e_log w)) - int (present w f) - int (queued f w)"

definition persistent :: "ev_log list \<Rightarrow> js_fn \<Rightarrow> bool" where
  "persistent lg f \<longleftrightarrow> LAdd f False \<in> set lg"

definition composite :: "ev_log list \<Rightarrow> nat \<Rightarrow> bool" where
  "composite lg s \<longleftrightarrow> LAny s \<in> set lg"

text \<open>Native listeners belong to signals that \<^verbatim>\<open>any\<close> has made.\<close>

definition known :: "ev_log list \<Rightarrow> js_fn \<Rightarrow> bool" where
  "known lg f = (case f of UserFn _ \<Rightarrow> True | AnyListener c _ \<Rightarrow> composite lg c)"

subsection \<open>The invariant\<close>

definition item_ok :: "ev_log list \<Rightarrow> event_item \<Rightarrow> bool" where
  "item_ok lg it \<longleftrightarrow> known lg (ei_callback it) \<and> (\<not> ei_once it \<longrightarrow> persistent lg (ei_callback it))"

definition list_ok :: "ev_log list \<Rightarrow> event_list \<Rightarrow> bool" where
  "list_ok lg evs \<longleftrightarrow>
     distinct (map fst evs) \<and> (\<forall>e \<in> set evs. snd e \<noteq> []) \<and> (\<forall>it \<in> set (all_items evs). item_ok lg it)"

definition lists_of :: "js_object \<Rightarrow> nat set" where
  "lists_of ob = (if o_class ob = CPlain then {} else {o_events ob}) \<union> set_option (o_hidden ob)"

definition lists_inv :: "ev_world \<Rightarrow> bool" where
  "lists_inv w \<longleftrightarrow>
     (\<forall>l. list_ok (e_log w) (e_lists w l)) \<and> (\<forall>l \<ge> e_next_list w. e_lists w l = [])
   \<and> (\<forall>i. lists_of (e_objects w i) \<subseteq> {..<e_next_list w})
   \<and> (\<forall>i j. i \<noteq> j \<longrightarrow> lists_of (e_objects w i) \<inter> lists_of (e_objects w j) = {})
   \<and> (\<forall>job \<in> set (e_jobs w). known (e_log w) (fst job))"

definition timer_ok :: "ev_world \<Rightarrow> nat \<Rightarrow> bool" where
  "timer_ok w i \<longleftrightarrow>
     i < e_next_obj w \<and> \<not> as_aborted (signal_of w i) \<and> \<not> composite (e_log w) i
   \<and> (\<forall>c. o_class (e_objects w c) = CController \<longrightarrow> o_signal_ref (e_objects w c) \<noteq> i)"

definition aborts_inv :: "ev_world \<Rightarrow> bool" where
  "aborts_inv w \<longleftrightarrow>
     (\<forall>s. \<not> composite (e_log w) s \<longrightarrow> aborts s (e_log w) \<le> (if as_aborted (signal_of w s) then 1 else 0))
   \<and> (\<forall>c. o_class (e_objects w c) = CController \<longrightarrow>
        o_signal_ref (e_objects w c) < e_next_obj w \<and> \<not> composite (e_log w) (o_signal_ref (e_objects w c)))
   \<and> (\<forall>t \<in> set (e_timers w). timer_ok w (fst t)) \<and> distinct (map fst (e_timers w))
   \<and> (\<forall>s. composite (e_log w) s \<or> 0 < aborts s (e_log w) \<longrightarrow> s < e_next_obj w)
   \<and> (\<forall>i \<ge> e_next_obj w. o_class (e_objects w i) = CPlain)"

definition ev_inv :: "ev_world \<Rightarrow> bool" where
  "ev_inv w \<longleftrightarrow> lists_inv w \<and> aborts_inv w"

subsection \<open>What an operation may change\<close>

text \<open>The function \<^term>\<open>d\<close> is the number of calls an operation may take from the balance.\<close>

definition ev_rel :: "(js_fn \<Rightarrow> int) \<Rightarrow> ev_world \<Rightarrow> ev_world \<Rightarrow> bool" where
  "ev_rel d w w' \<longleftrightarrow>
     (\<exists>new. e_log w' = e_log w @ new)
   \<and> (\<forall>f. \<not> persistent (e_log w') f \<longrightarrow> slack w f \<le> slack w' f + d f)
   \<and> e_next_list w \<le> e_next_list w' \<and> e_next_obj w \<le> e_next_obj w'
   \<and> (\<forall>i < e_next_obj w. o_class (e_objects w' i) = o_class (e_objects w i)
        \<and> (as_aborted (signal_of w i) \<longrightarrow> as_aborted (signal_of w' i))
        \<and> (composite (e_log w') i \<longrightarrow> composite (e_log w) i))"

definition evolves :: "ev_world \<Rightarrow> (js_fn \<Rightarrow> int) \<Rightarrow> ev_world \<Rightarrow> bool" where
  "evolves w d w' \<longleftrightarrow> ev_inv w' \<and> ev_rel d w w'"

abbreviation no_calls :: "js_fn \<Rightarrow> int" where
  "no_calls \<equiv> \<lambda>_. 0"

definition fine :: "ev_world \<Rightarrow> (js_fn \<Rightarrow> int) \<Rightarrow> 'a ev_result \<Rightarrow> bool" where
  "fine w d r \<longleftrightarrow> (case r of None \<Rightarrow> True | Some (_, w') \<Rightarrow> evolves w d w')"

lemma persistent_append: "persistent lg f \<Longrightarrow> persistent (lg @ new) f"
  by (simp add: persistent_def)

lemma composite_append: "composite lg s \<Longrightarrow> composite (lg @ new) s"
  by (simp add: composite_def)

lemma known_append: "known lg f \<Longrightarrow> known (lg @ new) f"
  by (simp add: known_def composite_append split: js_fn.splits)

lemma item_ok_append: "item_ok lg it \<Longrightarrow> item_ok (lg @ new) it"
  by (simp add: item_ok_def known_append persistent_append)

lemma list_ok_append: "list_ok lg evs \<Longrightarrow> list_ok (lg @ new) evs"
  by (simp add: list_ok_def item_ok_append)

lemma ev_rel_refl: "ev_rel no_calls w w"
  by (simp add: ev_rel_def)

lemma ev_rel_trans:
  assumes "ev_rel d1 w w1" "ev_rel d2 w1 w2"
  shows "ev_rel (\<lambda>f. d1 f + d2 f) w w2"
proof -
  have "\<not> persistent (e_log w2) f \<longrightarrow> slack w f \<le> slack w2 f + (d1 f + d2 f)" for f
    using assms persistent_append [of "e_log w1" f] by (force simp: ev_rel_def)
  moreover have "\<forall>i < e_next_obj w. o_class (e_objects w2 i) = o_class (e_objects w i)
        \<and> (as_aborted (signal_of w i) \<longrightarrow> as_aborted (signal_of w2 i))
        \<and> (composite (e_log w2) i \<longrightarrow> composite (e_log w) i)"
    using assms by (auto simp: ev_rel_def)
  ultimately show ?thesis using assms by (auto simp: ev_rel_def)
qed

lemma evolves_refl: "ev_inv w \<Longrightarrow> evolves w no_calls w"
  by (simp add: evolves_def ev_rel_refl)

lemma evolves_trans: "evolves w d1 w1 \<Longrightarrow> evolves w1 d2 w2 \<Longrightarrow> evolves w (\<lambda>f. d1 f + d2 f) w2"
  using ev_rel_trans by (auto simp: evolves_def)

lemma evolves_trans0: "evolves w no_calls w1 \<Longrightarrow> evolves w1 d w2 \<Longrightarrow> evolves w d w2"
  using evolves_trans [of w no_calls w1 d w2] by simp

lemma evolves_inv: "evolves w d w' \<Longrightarrow> ev_inv w'"
  by (simp add: evolves_def)

lemma evolves_known: "evolves w d w' \<Longrightarrow> known (e_log w) f \<Longrightarrow> known (e_log w') f"
  by (auto simp: evolves_def ev_rel_def known_append)

lemma fine_Some [simp]: "fine w d (Some (x, w')) = evolves w d w'"
  by (simp add: fine_def)

lemma fine_None [simp]: "fine w d None"
  by (simp add: fine_def)

lemma fine_bind:
  assumes "fine w d1 r" "\<And>x w1. r = Some (x, w1) \<Longrightarrow> evolves w d1 w1 \<Longrightarrow> fine w1 d2 (k (x, w1))"
  shows "fine w (\<lambda>f. d1 f + d2 f) (r \<bind> k)"
proof (cases r)
  case (Some p)
  then obtain x w1 where p: "r = Some (x, w1)" by (cases p) auto
  then have "evolves w d1 w1" using assms(1) by simp
  with assms(2) [OF p] show ?thesis using p evolves_trans
    by (auto simp: fine_def split: option.splits)
qed simp

lemma fine_bind0:
  assumes "fine w no_calls r" "\<And>x w1. r = Some (x, w1) \<Longrightarrow> evolves w no_calls w1 \<Longrightarrow> fine w1 no_calls (k (x, w1))"
  shows "fine w no_calls (r \<bind> k)"
  using fine_bind [of w no_calls r no_calls k] assms by simp

subsection \<open>Lists\<close>

lemma icount_append [simp]: "icount f (xs @ ys) = icount f xs + icount f ys"
  by (simp add: icount_def)

lemma icount_Cons [simp]: "icount f (it # xs) = (if ei_callback it = f then 1 else 0) + icount f xs"
  by (simp add: icount_def)

lemma icount_Nil [simp]: "icount f [] = 0"
  by (simp add: icount_def)

lemma all_items_simps [simp]:
  "all_items [] = []" "all_items (e # evs) = snd e @ all_items evs" "all_items (xs @ ys) = all_items xs @ all_items ys"
  by (simp_all add: all_items_def)

lemma find_entry_None: "find_entry key evs = None \<longleftrightarrow> key \<notin> fst ` set evs"
  by (induction key evs rule: find_entry.induct) auto

lemma find_entry_Some: "find_entry key evs = Some items \<Longrightarrow> (key, items) \<in> set evs"
  by (induction key evs rule: find_entry.induct) (auto split: if_splits)

lemma find_entry_items:
  "find_entry key evs = Some items \<Longrightarrow> set items \<subseteq> set (all_items evs)"
  by (induction key evs rule: find_entry.induct) (auto split: if_splits)

lemma fst_set_entry [simp]: "map fst (set_entry key items evs) = map fst evs"
  by (induction key items evs rule: set_entry.induct) auto

lemma set_entry_items: "set (all_items (set_entry key items evs)) \<subseteq> set items \<union> set (all_items evs)"
  by (induction key items evs rule: set_entry.induct) auto

lemma set_entry_nonempty:
  "items \<noteq> [] \<Longrightarrow> \<forall>e \<in> set evs. snd e \<noteq> [] \<Longrightarrow> \<forall>e \<in> set (set_entry key items evs). snd e \<noteq> []"
  by (induction key items evs rule: set_entry.induct) auto

lemma set_remove_entry: "set (remove_entry key evs) \<subseteq> set evs"
  by (induction key evs rule: remove_entry.induct) auto

lemma fst_remove_entry: "map fst (remove_entry key evs) = remove1 key (map fst evs)"
  by (induction key evs rule: remove_entry.induct) auto

lemma distinct_remove_entry: "distinct (map fst evs) \<Longrightarrow> distinct (map fst (remove_entry key evs))"
  by (simp add: fst_remove_entry)

lemma remove_entry_items: "set (all_items (remove_entry key evs)) \<subseteq> set (all_items evs)"
  by (induction key evs rule: remove_entry.induct) auto

lemma icount_set_entry:
  "find_entry key evs = Some old \<Longrightarrow>
   icount f (all_items (set_entry key items evs)) + icount f old = icount f (all_items evs) + icount f items"
  by (induction key evs rule: find_entry.induct) (auto split: if_splits)

lemma icount_remove_entry:
  "find_entry key evs = Some old \<Longrightarrow>
   icount f (all_items (remove_entry key evs)) + icount f old = icount f (all_items evs)"
  by (induction key evs rule: find_entry.induct) (auto split: if_splits)

lemma list_ok_set_entry:
  "list_ok lg evs \<Longrightarrow> items \<noteq> [] \<Longrightarrow> \<forall>it \<in> set items. item_ok lg it \<Longrightarrow> list_ok lg (set_entry key items evs)"
  using set_entry_items [of key items evs] set_entry_nonempty [of items evs key] by (auto simp: list_ok_def)

lemma list_ok_remove_entry: "list_ok lg evs \<Longrightarrow> list_ok lg (remove_entry key evs)"
  using set_remove_entry [of key evs] remove_entry_items [of key evs] distinct_remove_entry [of evs key]
  by (auto simp: list_ok_def)


subsection \<open>Atomic changes\<close>

lemma present_upd:
  assumes "l < e_next_list w"
  shows "int (present (w\<lparr>e_lists := (e_lists w)(l := evs)\<rparr>) f)
    = int (present w f) - int (icount f (all_items (e_lists w l))) + int (icount f (all_items evs))"
proof -
  let ?g = "\<lambda>m k. icount f (all_items (m k))"
  have "(\<Sum>k<e_next_list w. ?g ((e_lists w)(l := evs)) k)
      = icount f (all_items evs) + (\<Sum>k \<in> {..<e_next_list w} - {l}. ?g (e_lists w) k)"
    using assms by (subst sum.remove [of _ l]) auto
  moreover have "(\<Sum>k<e_next_list w. ?g (e_lists w) k)
      = ?g (e_lists w) l + (\<Sum>k \<in> {..<e_next_list w} - {l}. ?g (e_lists w) k)"
    using assms by (subst sum.remove [of _ l]) auto
  ultimately show ?thesis by (simp add: present_def)
qed

text \<open>One list is replaced.\<close>

lemma evolves_list:
  assumes "ev_inv w" "l < e_next_list w" "list_ok (e_log w) evs"
    and "\<And>f. \<not> persistent (e_log w) f \<Longrightarrow>
      int (icount f (all_items evs)) \<le> int (icount f (all_items (e_lists w l))) + d f"
  shows "evolves w d (w\<lparr>e_lists := (e_lists w)(l := evs)\<rparr>)"
proof -
  let ?w = "w\<lparr>e_lists := (e_lists w)(l := evs)\<rparr>"
  have "ev_inv ?w"
    using assms(1-3) by (auto simp: ev_inv_def lists_inv_def aborts_inv_def timer_ok_def)
  moreover have "slack w f \<le> slack ?w f + d f" if "\<not> persistent (e_log w) f" for f
    using present_upd [OF assms(2), of evs f] assms(4) [OF that] by (simp add: slack_def queued_def)
  ultimately show ?thesis by (simp add: evolves_def ev_rel_def)
qed

text \<open>A registration, with its record in the log.\<close>

lemma added_append [simp]: "added f (lg @ new) = added f lg + added f new"
  by (simp add: added_def)

lemma called_append [simp]: "called f (lg @ new) = called f lg + called f new"
  by (simp add: called_def)

lemma aborts_append [simp]: "aborts s (lg @ new) = aborts s lg + aborts s new"
  by (simp add: aborts_def)

lemma log_counts [simp]:
  "added f [LAdd g b] = (if g = f then 1 else 0)" "added f [LCall g t a] = 0" "added f [LAbort s] = 0" "added f [LAny s] = 0"
  "called f [LAdd g b] = 0" "called f [LCall g t a] = (if g = f then 1 else 0)" "called f [LAbort s] = 0" "called f [LAny s] = 0"
  "aborts s [LAdd g b] = 0" "aborts s [LCall g t a] = 0" "aborts s [LAbort s'] = (if s' = s then 1 else 0)" "aborts s [LAny s'] = 0"
  by (simp_all add: added_def called_def aborts_def)

lemma composite_snoc [simp]: "composite (lg @ [e]) s \<longleftrightarrow> composite lg s \<or> e = LAny s"
  by (auto simp: composite_def)

lemma persistent_snoc [simp]: "persistent (lg @ [e]) f \<longleftrightarrow> persistent lg f \<or> e = LAdd f False"
  by (auto simp: persistent_def)

text \<open>Records that do not concern signals keep the invariant.\<close>

lemma ev_inv_log:
  assumes "ev_inv w" "\<And>s. e \<noteq> LAny s" "\<And>s. e \<noteq> LAbort s"
  shows "ev_inv (log_ev e w)"
proof -
  have "aborts s [e] = 0" for s using assms(3) by (auto simp: aborts_def)
  then show ?thesis using assms
    by (auto simp: ev_inv_def lists_inv_def aborts_inv_def timer_ok_def list_ok_append known_append)
qed

lemma evolves_log_add:
  assumes "ev_inv w"
  shows "evolves w (\<lambda>g. if g = f then -1 else 0) (log_ev (LAdd f once) w)"
  using ev_inv_log [OF assms(1)] by (auto simp: evolves_def ev_rel_def slack_def present_def queued_def)

lemma evolves_log_call:
  assumes "ev_inv w"
  shows "evolves w (\<lambda>g. if g = f then 1 else 0) (log_ev (LCall f this args) w)"
  using ev_inv_log [OF assms(1)] by (auto simp: evolves_def ev_rel_def slack_def present_def queued_def)

lemma evolves_jobs:
  assumes "ev_inv w" "\<forall>f \<in> set fs. known (e_log w) f"
  shows "evolves w (\<lambda>f. int (count_list fs f)) (defer_all this args fs w)"
proof -
  have "map fst (map (\<lambda>f. (f, this, args)) fs) = fs" by (induction fs) auto
  then show ?thesis using assms
    by (auto simp: evolves_def ev_rel_def slack_def present_def queued_def defer_all_def ev_inv_def lists_inv_def
        aborts_inv_def timer_ok_def)
qed

lemma evolves_new_list:
  assumes "ev_inv w" "new_list w = (l, w1)"
  shows "evolves w no_calls w1 \<and> l = e_next_list w \<and> l < e_next_list w1 \<and> e_objects w1 = e_objects w
    \<and> e_next_obj w1 = e_next_obj w \<and> e_log w1 = e_log w \<and> e_lists w1 l = []"
proof -
  have w1: "w1 = w\<lparr>e_next_list := Suc (e_next_list w), e_lists := (e_lists w)(e_next_list w := [])\<rparr>" "l = e_next_list w"
    using assms(2) by (auto simp: new_list_def)
  have fresh: "e_lists w (e_next_list w) = []" using assms(1) by (simp add: ev_inv_def lists_inv_def)
  have "present w1 f = present w f" for f using fresh by (simp add: w1 present_def)
  moreover have "ev_inv w1" using assms(1) unfolding w1 ev_inv_def lists_inv_def aborts_inv_def
    by (auto simp: timer_ok_def list_ok_def less_Suc_eq subset_iff)
  ultimately show ?thesis using w1 by (auto simp: evolves_def ev_rel_def slack_def queued_def)
qed

lemma evolves_hidden:
  assumes "ev_inv w" "l < e_next_list w" "\<And>i. l \<notin> lists_of (e_objects w i)"
  shows "evolves w no_calls (upd_obj this (\<lambda>ob. ob\<lparr>o_hidden := Some l\<rparr>) w)"
proof -
  let ?w = "upd_obj this (\<lambda>ob. ob\<lparr>o_hidden := Some l\<rparr>) w"
  have sub: "lists_of (e_objects ?w i) \<subseteq> lists_of (e_objects w i) \<union> (if i = this then {l} else {})" for i
    by (auto simp: lists_of_def)
  have "lists_inv ?w"
    unfolding lists_inv_def
  proof (intro conjI allI impI)
    fix i j :: nat
    assume "i \<noteq> j"
    then have "lists_of (e_objects w i) \<inter> lists_of (e_objects w j) = {}"
      using assms(1) by (simp add: ev_inv_def lists_inv_def)
    then show "lists_of (e_objects ?w i) \<inter> lists_of (e_objects ?w j) = {}"
      using sub [of i] sub [of j] assms(3) \<open>i \<noteq> j\<close> by (auto split: if_splits)
  next
    fix i
    have "lists_of (e_objects w i) \<subseteq> {..<e_next_list w}" using assms(1) by (simp add: ev_inv_def lists_inv_def)
    then show "lists_of (e_objects ?w i) \<subseteq> {..<e_next_list ?w}" using sub [of i] assms(2) by (auto split: if_splits)
  qed (use assms(1) in \<open>auto simp: ev_inv_def lists_inv_def\<close>)
  moreover have "aborts_inv ?w" using assms(1) by (auto simp: ev_inv_def aborts_inv_def timer_ok_def)
  ultimately show ?thesis
    by (auto simp: evolves_def ev_inv_def ev_rel_def slack_def present_def queued_def)
qed


subsection \<open>Finding the list of an object\<close>

text \<open>Only the object itself and lists that did not exist before can change.\<close>

definition same_elsewhere :: "nat \<Rightarrow> ev_world \<Rightarrow> ev_world \<Rightarrow> bool" where
  "same_elsewhere this w w' \<longleftrightarrow>
     (\<forall>l < e_next_list w. e_lists w' l = e_lists w l) \<and> (\<forall>i. i \<noteq> this \<longrightarrow> e_objects w' i = e_objects w i)
   \<and> e_log w' = e_log w \<and> e_timers w' = e_timers w \<and> e_next_obj w' = e_next_obj w
   \<and> e_objects w' this \<in> {e_objects w this, (e_objects w this)\<lparr>o_hidden := o_hidden (e_objects w' this)\<rparr>}"

lemma same_elsewhere_refl: "same_elsewhere this w w"
  by (simp add: same_elsewhere_def)

lemma resolve_events_ok:
  assumes inv: "ev_inv w" and r: "resolve_events this w = (r, w1)"
  shows "evolves w no_calls w1 \<and> same_elsewhere this w w1
    \<and> (\<forall>l. r = Inr l \<longrightarrow> l < e_next_list w1 \<and> l \<in> lists_of (e_objects w1 this))"
proof -
  let ?ob = "e_objects w this"
  have sub: "lists_of ?ob \<subseteq> {..<e_next_list w}" using inv by (simp add: ev_inv_def lists_inv_def)
  show ?thesis
  proof (cases "o_class ?ob = CEmitter \<or> o_hidden ?ob \<noteq> None")
    case True
    then have "w1 = w \<and> (\<exists>l. r = Inr l \<and> l \<in> lists_of ?ob)"
      using r by (cases "o_class ?ob = CEmitter") (auto simp: resolve_events_def lists_of_def)
    then show ?thesis using evolves_refl [OF inv] same_elsewhere_refl [of this w] sub by auto
  next
    case False
    obtain l w2 where l: "new_list w = (l, w2)" by fastforce
    note new = evolves_new_list [OF inv l]
    have w2: "same_elsewhere this w w2" using l by (auto simp: new_list_def same_elsewhere_def)
    have fresh: "l \<notin> lists_of (e_objects w2 i)" for i
      using inv new by (auto simp: ev_inv_def lists_inv_def subset_iff)
    let ?w3 = "upd_obj this (\<lambda>ob. ob\<lparr>o_hidden := Some l\<rparr>) w2"
    have h: "evolves w no_calls ?w3"
      using evolves_trans0 [OF conjunct1 [OF new] evolves_hidden [OF _ _ fresh]] new evolves_inv by blast
    have s: "same_elsewhere this w ?w3" using w2 new by (auto simp: same_elsewhere_def)
    show ?thesis
    proof (cases "o_extensible ?ob")
      case True
      then have "w1 = ?w3" "r = Inr l" using False r l by (auto simp: resolve_events_def)
      then show ?thesis using h s new by (auto simp: lists_of_def)
    next
      case nx: False
      then have "w1 = w2" "\<exists>e. r = Inl e" using False r l by (auto simp: resolve_events_def)
      then show ?thesis using new w2 by auto
    qed
  qed
qed

lemma resolve_events_from_ok:
  assumes inv: "ev_inv w" and cls: "cls \<noteq> CPlain" and r: "resolve_events_from cls this w = (r, w1)"
  shows "evolves w no_calls w1 \<and> same_elsewhere this w w1
    \<and> (\<forall>l. r = Inr l \<longrightarrow> l < e_next_list w1 \<and> l \<in> lists_of (e_objects w1 this))"
proof (cases "o_class (e_objects w this) = cls")
  case True
  have "lists_of (e_objects w this) \<subseteq> {..<e_next_list w}" using inv by (simp add: ev_inv_def lists_inv_def)
  then show ?thesis using r True cls evolves_refl [OF inv] same_elsewhere_refl [of this w]
    by (auto simp: resolve_events_from_def lists_of_def)
next
  case False
  then show ?thesis using resolve_events_ok [OF inv] r by (simp add: resolve_events_from_def)
qed

lemma with_entry_fine:
  assumes "ev_inv w" "cls \<noteq> CPlain"
    and "\<And>l key w1. evolves w no_calls w1 \<Longrightarrow> same_elsewhere this w w1 \<Longrightarrow> l < e_next_list w1 \<Longrightarrow>
      l \<in> lists_of (e_objects w1 this) \<Longrightarrow> fine w1 no_calls (f l key w1)"
  shows "fine w no_calls (with_entry cls this event f w)"
proof -
  obtain r w1 where r: "resolve_events_from cls this w = (r, w1)" by fastforce
  note ok = resolve_events_from_ok [OF assms(1,2) r]
  show ?thesis
  proof (cases r)
    case (Inl e)
    then show ?thesis using r ok by (simp add: with_entry_def)
  next
    case (Inr l)
    have *: "fine w1 no_calls (f l key w1)" for key using assms(3) [of w1 l key] ok Inr by blast
    have "fine w no_calls (f l key w1)" for key
      using * [of key] ok evolves_trans0 [of w w1 no_calls]
      by (cases "f l key w1") (auto simp: fine_def split: prod.splits)
    with Inr r ok show ?thesis by (auto simp: with_entry_def split: sum.split)
  qed
qed

subsection \<open>Adding and removing listeners\<close>

lemma set_entry_new: "key \<notin> fst ` set evs \<Longrightarrow> set_entry key items (evs @ [(key, old)]) = evs @ [(key, items)]"
  by (induction key items evs rule: set_entry.induct) auto

lemma find_entry_new: "key \<notin> fst ` set evs \<Longrightarrow> find_entry key (evs @ [(key, old)]) = Some old"
  by (induction key evs rule: find_entry.induct) auto

text \<open>The list after a registration.\<close>

definition add_entry :: "event_key \<Rightarrow> event_item \<Rightarrow> bool \<Rightarrow> event_list \<Rightarrow> event_list" where
  "add_entry key item prepend evs =
     (case find_entry key evs of
        None \<Rightarrow> evs @ [(key, [item])]
      | Some items \<Rightarrow> set_entry key (if prepend then item # items else items @ [item]) evs)"

lemma add_item_eq:
  "add_item l key item prepend w =
     (log_ev (LAdd (ei_callback item) (ei_once item)) w)\<lparr>e_lists := (e_lists w)(l := add_entry key item prepend (e_lists w l))\<rparr>"
proof (cases "find_entry key (e_lists w l)")
  case None
  then have "key \<notin> fst ` set (e_lists w l)" by (simp add: find_entry_None)
  then show ?thesis using None by (simp add: add_item_def add_entry_def find_entry_new set_entry_new)
next
  case (Some items)
  then show ?thesis by (simp add: add_item_def add_entry_def)
qed

lemma add_entry_ok:
  assumes "list_ok lg evs" "item_ok lg item"
  shows "list_ok lg (add_entry key item prepend evs)"
proof (cases "find_entry key evs")
  case None
  then have "key \<notin> fst ` set evs" by (simp add: find_entry_None)
  then show ?thesis using None assms by (auto simp: add_entry_def list_ok_def)
next
  case (Some items)
  have "\<forall>it \<in> set items. item_ok lg it" using assms(1) find_entry_items [OF Some] by (auto simp: list_ok_def)
  then show ?thesis using Some assms by (auto simp: add_entry_def intro!: list_ok_set_entry)
qed

lemma add_entry_count:
  "icount f (all_items (add_entry key item prepend evs)) = icount f (all_items evs) + icount f [item]"
proof (cases "find_entry key evs")
  case (Some items)
  then show ?thesis
    using icount_set_entry [OF Some, of f "if prepend then item # items else items @ [item]"]
    by (auto simp: add_entry_def split: if_splits)
qed (simp add: add_entry_def)

lemma evolves_add_item:
  assumes "ev_inv w" "l < e_next_list w" "known (e_log w) (ei_callback item)"
  shows "evolves w no_calls (add_item l key item prepend w)"
proof -
  let ?f = "ei_callback item"
  let ?w = "log_ev (LAdd ?f (ei_once item)) w"
  have log: "evolves w (\<lambda>g. if g = ?f then -1 else 0) ?w" using evolves_log_add [OF assms(1)] .
  have "item_ok (e_log ?w) item"
    using known_append [OF assms(3)] by (cases "ei_once item") (simp_all add: item_ok_def)
  moreover have "list_ok (e_log ?w) (e_lists ?w l)"
    using evolves_inv [OF log] unfolding ev_inv_def lists_inv_def by blast
  ultimately have ok: "list_ok (e_log ?w) (add_entry key item prepend (e_lists ?w l))" by (intro add_entry_ok)
  have "evolves ?w (\<lambda>g. if g = ?f then 1 else 0) (?w\<lparr>e_lists := (e_lists ?w)(l := add_entry key item prepend (e_lists ?w l))\<rparr>)"
    using assms(2) by (intro evolves_list [OF evolves_inv [OF log] _ ok]) (auto simp: add_entry_count)
  from evolves_trans [OF log this] show ?thesis
    by (simp add: add_item_eq if_distrib [of "\<lambda>x. x + _"] cong: if_cong)
qed

lemma add_event_listener_fine:
  assumes "ev_inv w" "cls \<noteq> CPlain" "known (e_log w) f"
  shows "fine w no_calls (add_event_listener cls this event f prepend once' w)"
  unfolding add_event_listener_def
proof (rule with_entry_fine [OF assms(1,2)])
  fix l key w1
  assume "evolves w no_calls w1" "l < e_next_list w1"
  then show "fine w1 no_calls (Some (Inr (VObject this) :: ev_value + ev_value, add_item l key \<lparr>ei_callback = f, ei_once = once'\<rparr> prepend w1))"
    using evolves_add_item [of w1 l "\<lparr>ei_callback = f, ei_once = once'\<rparr>"] evolves_inv evolves_known assms(3)
    by simp
qed

lemma remove_callback_Some:
  "remove_callback f items = Some items' \<Longrightarrow>
   set items' \<subseteq> set items \<and> icount g items' \<le> icount g items"
  by (induction f items arbitrary: items' rule: remove_callback.induct) (auto split: if_splits)

text \<open>An entry is replaced by part of it, or removed when nothing is left.\<close>

lemma evolves_shrink_entry:
  assumes inv: "ev_inv w" and l: "l < e_next_list w" and e: "find_entry key (e_lists w l) = Some items"
    and sub: "set items' \<subseteq> set items"
    and d: "\<And>f. \<not> persistent (e_log w) f \<Longrightarrow> int (icount f items') \<le> int (icount f items) + d f"
  shows "evolves w d (if items' = [] then upd_list l (remove_entry key) w else upd_list l (set_entry key items') w)"
proof -
  have ok: "list_ok (e_log w) (e_lists w l)" using inv by (simp add: ev_inv_def lists_inv_def)
  then have items: "\<forall>it \<in> set items'. item_ok (e_log w) it"
    using find_entry_items [OF e] sub by (auto simp: list_ok_def)
  show ?thesis
  proof (cases "items' = []")
    case True
    have "evolves w d (upd_list l (remove_entry key) w)"
    proof (rule evolves_list [OF inv l list_ok_remove_entry [OF ok]])
      fix f
      assume "\<not> persistent (e_log w) f"
      then show "int (icount f (all_items (remove_entry key (e_lists w l)))) \<le> int (icount f (all_items (e_lists w l))) + d f"
        using d [of f] True icount_remove_entry [OF e, of f] by simp
    qed
    then show ?thesis using True by simp
  next
    case False
    have "evolves w d (upd_list l (set_entry key items') w)"
    proof (rule evolves_list [OF inv l list_ok_set_entry [OF ok False items]])
      fix f
      assume "\<not> persistent (e_log w) f"
      then show "int (icount f (all_items (set_entry key items' (e_lists w l)))) \<le> int (icount f (all_items (e_lists w l))) + d f"
        using d [of f] icount_set_entry [OF e, of f items'] by simp
    qed
    then show ?thesis using False by simp
  qed
qed

lemma remove_event_listener_fine:
  assumes "ev_inv w" "cls \<noteq> CPlain"
  shows "fine w no_calls (remove_event_listener cls this event f w)"
  unfolding remove_event_listener_def
proof (rule with_entry_fine [OF assms])
  fix l key w1
  assume w1: "evolves w no_calls w1" "l < e_next_list w1"
  note inv = evolves_inv [OF w1(1)]
  show "fine w1 no_calls (Some (Inr (VObject this) :: ev_value + ev_value,
         case find_entry key (e_lists w1 l) of None \<Rightarrow> w1
         | Some items \<Rightarrow> (case remove_callback f items of None \<Rightarrow> w1
              | Some items' \<Rightarrow> if items' = [] then upd_list l (remove_entry key) w1
                  else upd_list l (set_entry key items') w1)))"
    using evolves_shrink_entry [OF inv w1(2), of key _ _ no_calls] remove_callback_Some evolves_refl [OF inv]
    by (fastforce split: option.splits)
qed


lemma list_ok_filter: "list_ok lg evs \<Longrightarrow> list_ok lg (filter P evs)"
  by (auto simp: list_ok_def all_items_def distinct_map_filter)

lemma icount_filter: "icount f (all_items (filter P evs)) \<le> icount f (all_items evs)"
  by (induction evs) auto

lemma remove_all_listeners_fine:
  assumes inv: "ev_inv w" and cls: "cls \<noteq> CPlain"
  shows "fine w no_calls (remove_all_listeners cls this event w)"
proof -
  obtain r w1 where r: "resolve_events_from cls this w = (r, w1)" by fastforce
  note ok = resolve_events_from_ok [OF inv cls r]
  have inv1: "ev_inv w1" using ok evolves_inv by blast
  have f: "evolves w no_calls (upd_list l (filter P) w1)" if "r = Inr l" for l P
  proof -
    have "list_ok (e_log w1) (e_lists w1 l)" using inv1 by (simp add: ev_inv_def lists_inv_def)
    then have "evolves w1 no_calls (upd_list l (filter P) w1)"
      using ok that icount_filter by (intro evolves_list [OF inv1 _ list_ok_filter]) auto
    then show ?thesis using ok evolves_trans0 by blast
  qed
  have "evolves w no_calls (upd_list l (\<lambda>_. []) w1)" if "r = Inr l" for l
    using f [OF that, of "\<lambda>_. False"] by simp
  then show ?thesis using r ok f
    by (auto simp: remove_all_listeners_def split: sum.splits option.splits)
qed

lemma event_names_fine:
  assumes "ev_inv w" "cls \<noteq> CPlain"
  shows "fine w no_calls (event_names cls this w)"
proof -
  obtain r w1 where r: "resolve_events_from cls this w = (r, w1)" by fastforce
  then show ?thesis using resolve_events_from_ok [OF assms r] by (auto simp: event_names_def split: sum.splits)
qed

lemma listener_count_fine:
  "ev_inv w \<Longrightarrow> cls \<noteq> CPlain \<Longrightarrow> fine w no_calls (listener_count cls this event w)"
  unfolding listener_count_def by (rule with_entry_fine) (auto intro: evolves_refl evolves_inv)

subsection \<open>New objects\<close>

lemma evolves_alloc:
  assumes inv: "ev_inv w" and sub: "lists_of ob \<subseteq> {..<e_next_list w}"
    and disj: "\<And>j. lists_of ob \<inter> lists_of (e_objects w j) = {}"
    and ctl: "o_class ob = CController \<Longrightarrow> o_signal_ref ob < e_next_obj w
      \<and> \<not> composite (e_log w) (o_signal_ref ob) \<and> o_signal_ref ob \<notin> fst ` set (e_timers w)"
  shows "evolves w no_calls (w\<lparr>e_next_obj := Suc (e_next_obj w), e_objects := (e_objects w)(e_next_obj w := ob)\<rparr>)"
proof -
  let ?i = "e_next_obj w"
  let ?w = "w\<lparr>e_next_obj := Suc ?i, e_objects := (e_objects w)(?i := ob)\<rparr>"
  have l: "lists_inv ?w" using inv sub disj unfolding ev_inv_def lists_inv_def by (auto simp: Int_commute)
  have zero: "\<not> composite (e_log w) ?i" "aborts ?i (e_log w) = 0"
    using inv unfolding ev_inv_def aborts_inv_def by blast+
  have "timer_ok ?w (fst t)" if "t \<in> set (e_timers w)" for t
  proof -
    have "timer_ok w (fst t)" using inv that unfolding ev_inv_def aborts_inv_def by blast
    moreover have "o_signal_ref ob \<noteq> fst t" if "o_class ob = CController"
      using ctl [OF that] \<open>t \<in> set (e_timers w)\<close> by (metis image_eqI)
    ultimately show ?thesis by (auto simp: timer_ok_def)
  qed
  then have "aborts_inv ?w" using inv zero ctl unfolding ev_inv_def aborts_inv_def by (auto simp: less_Suc_eq)
  then show ?thesis using l
    by (auto simp: evolves_def ev_inv_def ev_rel_def slack_def present_def queued_def)
qed

lemma evolves_new_object:
  assumes inv: "ev_inv w" and new: "new_object cls sig ref w = (i, w1)" and cls: "cls \<noteq> CPlain"
    and ctl: "cls = CController \<Longrightarrow> ref < e_next_obj w \<and> \<not> composite (e_log w) ref \<and> ref \<notin> fst ` set (e_timers w)"
  shows "evolves w no_calls w1" "i = e_next_obj w" "e_next_obj w1 = Suc i" "e_log w1 = e_log w" "e_timers w1 = e_timers w"
    "o_class (e_objects w1 i) = cls" "signal_of w1 i = sig" "o_signal_ref (e_objects w1 i) = ref"
    "\<And>j. j \<noteq> i \<Longrightarrow> e_objects w1 j = e_objects w j"
proof -
  obtain l w0 where l: "new_list w = (l, w0)" by fastforce
  note n = evolves_new_list [OF inv l]
  let ?ob = "\<lparr>o_class = cls, o_events = l, o_hidden = None, o_extensible = True, o_type = None, o_signal = sig, o_signal_ref = ref\<rparr>"
  have w1: "w1 = w0\<lparr>e_next_obj := Suc (e_next_obj w0), e_objects := (e_objects w0)(e_next_obj w0 := ?ob)\<rparr>"
    and i: "i = e_next_obj w0" using new l by (auto simp: new_object_def Let_def)
  have t: "e_timers w0 = e_timers w" using l by (auto simp: new_list_def)
  have fresh: "l \<notin> lists_of (e_objects w j)" for j
    using inv n by (auto simp: ev_inv_def lists_inv_def subset_iff)
  have "evolves w0 no_calls w1"
    unfolding w1
  proof (rule evolves_alloc)
    show "ev_inv w0" using n evolves_inv by blast
    show "lists_of ?ob \<subseteq> {..<e_next_list w0}" using n by (auto simp: lists_of_def)
    show "lists_of ?ob \<inter> lists_of (e_objects w0 j) = {}" for j using n fresh by (auto simp: lists_of_def)
  qed (use n t ctl in auto)
  then show "evolves w no_calls w1" using n evolves_trans0 by blast
  show "i = e_next_obj w" "e_next_obj w1 = Suc i" "e_log w1 = e_log w" "e_timers w1 = e_timers w"
    "o_class (e_objects w1 i) = cls" "signal_of w1 i = sig" "o_signal_ref (e_objects w1 i) = ref"
    using n t by (simp_all add: i w1)
  show "e_objects w1 j = e_objects w j" if "j \<noteq> i" for j using n that by (simp add: i w1)
qed

subsection \<open>Signals\<close>

lemma evolves_signal:
  assumes inv: "ev_inv w" and mono: "as_aborted (signal_of w i) \<Longrightarrow> as_aborted (f (signal_of w i))"
    and timers: "as_aborted (f (signal_of w i)) \<Longrightarrow> i \<notin> fst ` set (e_timers w)"
  shows "evolves w no_calls (upd_signal i f w)"
proof -
  let ?w = "upd_signal i f w"
  have lo: "lists_of (e_objects ?w j) = lists_of (e_objects w j)" for j by (simp add: lists_of_def)
  have l: "lists_inv ?w" using inv unfolding ev_inv_def lists_inv_def lo by simp
  have "timer_ok ?w (fst t)" if "t \<in> set (e_timers w)" for t
  proof -
    have "timer_ok w (fst t)" using inv that unfolding ev_inv_def aborts_inv_def by blast
    moreover have "fst t \<noteq> i" if "as_aborted (f (signal_of w i))"
      using timers [OF that] \<open>t \<in> set (e_timers w)\<close> by (metis image_eqI)
    ultimately show ?thesis by (auto simp: timer_ok_def)
  qed
  moreover have "\<not> composite (e_log w) s \<longrightarrow> aborts s (e_log w) \<le> (if as_aborted (signal_of ?w s) then 1 else 0)" for s
  proof -
    have "\<not> composite (e_log w) s \<longrightarrow> aborts s (e_log w) \<le> (if as_aborted (signal_of w s) then 1 else 0)"
      using inv unfolding ev_inv_def aborts_inv_def by blast
    then show ?thesis using mono by (auto split: if_splits)
  qed
  ultimately have "aborts_inv ?w" using inv unfolding ev_inv_def aborts_inv_def by simp
  then show ?thesis using mono l
    by (auto simp: evolves_def ev_inv_def ev_rel_def slack_def present_def queued_def)
qed

lemma evolves_log_abort:
  assumes inv: "ev_inv w" and i: "i < e_next_obj w"
    and ok: "composite (e_log w) i \<or> aborts i (e_log w) = 0 \<and> as_aborted (signal_of w i)"
  shows "evolves w no_calls (log_ev (LAbort i) w)"
proof -
  let ?w = "log_ev (LAbort i) w"
  have "lists_inv ?w" using inv by (auto simp: ev_inv_def lists_inv_def list_ok_append known_append)
  moreover have "aborts_inv ?w" using inv i ok unfolding ev_inv_def aborts_inv_def by (auto simp: timer_ok_def)
  ultimately show ?thesis
    by (auto simp: evolves_def ev_inv_def ev_rel_def slack_def present_def queued_def)
qed

text \<open>Nothing refers to a new signal.\<close>

lemma new_signal_fresh:
  assumes inv: "ev_inv w" and new: "new_object CSignal sig ref w = (i, w1)"
  shows "o_class (e_objects w1 c) = CController \<Longrightarrow> o_signal_ref (e_objects w1 c) \<noteq> i"
    "i \<notin> fst ` set (e_timers w1)" "\<not> composite (e_log w1) i"
proof -
  note n = evolves_new_object [OF inv new]
  show "o_signal_ref (e_objects w1 c) \<noteq> i" if "o_class (e_objects w1 c) = CController"
    using inv that n by (cases "c = i") (auto simp: ev_inv_def aborts_inv_def)
  show "i \<notin> fst ` set (e_timers w1)" "\<not> composite (e_log w1) i"
    using inv n by (auto simp: ev_inv_def aborts_inv_def timer_ok_def)
qed

text \<open>A signal \<^verbatim>\<open>any\<close> has just made.\<close>

lemma evolves_log_any:
  assumes inv: "ev_inv w" and new: "new_object CSignal sig ref w = (i, w1)"
  shows "evolves w no_calls (log_ev (LAny i) w1)"
proof -
  note n = evolves_new_object [OF inv new]
  let ?w = "log_ev (LAny i) w1"
  have inv1: "ev_inv w1" using n(1) evolves_inv by simp
  have l: "lists_inv ?w" using inv1 by (auto simp: ev_inv_def lists_inv_def list_ok_append known_append)
  note ctl = new_signal_fresh(1) [OF inv new]
  have tim: "fst t \<noteq> i" if "t \<in> set (e_timers w1)" for t
    using new_signal_fresh(2) [OF inv new] that by auto
  have "timer_ok ?w (fst t)" if "t \<in> set (e_timers w1)" for t
    using inv1 tim [OF that] that unfolding ev_inv_def aborts_inv_def by (simp add: timer_ok_def)
  moreover have "\<not> composite (e_log ?w) s \<longrightarrow> aborts s (e_log ?w) \<le> (if as_aborted (signal_of ?w s) then 1 else 0)" for s
    using inv1 unfolding ev_inv_def aborts_inv_def by simp
  ultimately have "aborts_inv ?w" using inv1 n(3) ctl unfolding ev_inv_def aborts_inv_def by auto
  then have "ev_inv ?w" using l by (simp add: ev_inv_def)
  moreover have "ev_rel no_calls w ?w" using n(1,2,4)
    by (auto simp: evolves_def ev_rel_def slack_def present_def queued_def)
  ultimately show ?thesis by (simp add: evolves_def)
qed

end
