(* ===== verification/EventRun.thy ===== *)
theory EventRun
  imports EventInv
begin

text \<open>
  Programs that use emitters and signals, and what holds in every run of them.  A listener
  is a piece of JavaScript that makes calls one after the other and looks at their results;
  calls nest through the listeners they run, up to the depth of the interpreter's stack,
  where the engine throws.
\<close>

subsection \<open>Listeners that keep the invariant\<close>

locale listener_code =
  fixes u :: ev_user
  assumes call_fine: "ev_inv w \<Longrightarrow> known (e_log w) f \<Longrightarrow> fine w no_calls (u f this args w)"
begin

lemma call_listener_fine:
  assumes "ev_inv w" "known (e_log w) f"
  shows "fine w (\<lambda>g. if g = f then 1 else 0) (call_listener u f this args w)"
proof -
  note l = evolves_log_call [OF assms(1), of f this args]
  have "fine (log_ev (LCall f this args) w) no_calls (u f this args (log_ev (LCall f this args) w))"
    using call_fine evolves_inv [OF l] evolves_known [OF l assms(2)] by blast
  then show ?thesis unfolding call_listener_def
    using evolves_trans [OF l, of no_calls] by (auto simp: fine_def split: option.splits)
qed

lemma call_all_fine:
  "ev_inv w \<Longrightarrow> \<forall>f \<in> set fs. known (e_log w) f \<Longrightarrow> fine w (\<lambda>g. int (count_list fs g)) (call_all u this args fs w)"
proof (induction fs arbitrary: w)
  case Nil
  then show ?case by (simp add: evolves_refl)
next
  case (Cons f fs)
  let ?d1 = "\<lambda>g. if g = f then 1 else 0" and ?d2 = "\<lambda>g. int (count_list fs g)"
  have d: "(\<lambda>g. int (count_list (f # fs) g)) = (\<lambda>g. ?d1 g + ?d2 g)" by auto
  show ?case unfolding d call_all.simps
  proof (rule fine_bind)
    show "fine w ?d1 (call_listener u f this args w)" using Cons.prems call_listener_fine by simp
    fix res w1
    assume e: "evolves w ?d1 w1"
    have "fine w1 ?d2 (call_all u this args fs w1)"
      using Cons.IH [OF evolves_inv [OF e]] Cons.prems(2) evolves_known [OF e] by simp
    moreover have "evolves w1 ?d2 w1"
      using evolves_inv [OF e] by (auto simp: evolves_def ev_rel_def)
    ultimately show "fine w1 ?d2 (case (res, w1) of (res, w1) \<Rightarrow> case res of Inl e \<Rightarrow> Some (Inl e, w1) | Inr _ \<Rightarrow> call_all u this args fs w1)"
      by (simp split: sum.split)
  qed
qed

lemma retain_evolves:
  assumes "ev_inv w" "l < e_next_list w" "find_entry key (e_lists w l) = Some items"
  shows "evolves w (\<lambda>f. - int (count_list (map ei_callback items) f)) (retain_listeners l key items w)"
  unfolding retain_listeners_def Let_def
proof (rule evolves_shrink_entry [OF assms])
  fix f
  assume p: "\<not> persistent (e_log w) f"
  have "\<forall>it \<in> set items. item_ok (e_log w) it"
    using assms(1) find_entry_items [OF assms(3)] by (auto simp: ev_inv_def lists_inv_def list_ok_def)
  then have "icount f (filter (\<lambda>it. \<not> ei_once it) items) = 0"
    using p by (induction items) (auto simp: item_ok_def)
  then show "int (icount f (filter (\<lambda>it. \<not> ei_once it) items))
      \<le> int (icount f items) + - int (count_list (map ei_callback items) f)"
    by (simp add: icount_def)
qed simp

lemma emit_found_fine:
  assumes inv: "ev_inv w" and l: "l < e_next_list w" and e: "find_entry key (e_lists w l) = Some items"
  shows "fine w no_calls (let callbacks = map ei_callback items; w1 = retain_listeners l key items w
     in if defer then Some (Inr (VBool True), defer_all this args callbacks w1)
        else do { (res, w2) \<leftarrow> call_all u this args callbacks w1;
                  Some (case res of Inl e \<Rightarrow> Inl e | Inr _ \<Rightarrow> Inr (VBool True), w2) })"
proof -
  let ?fs = "map ei_callback items"
  let ?w1 = "retain_listeners l key items w" and ?c = "\<lambda>f. int (count_list ?fs f)"
  note r = retain_evolves [OF inv l e]
  have inv1: "ev_inv ?w1" using evolves_inv [OF r] .
  have known: "\<forall>f \<in> set ?fs. known (e_log ?w1) f"
    using inv find_entry_items [OF e] evolves_known [OF r]
    by (auto simp: ev_inv_def lists_inv_def list_ok_def item_ok_def)
  have sum: "(\<lambda>f. - ?c f + ?c f) = no_calls" by simp
  have "evolves w no_calls (defer_all this args ?fs ?w1)"
    using evolves_trans [OF r evolves_jobs [OF inv1 known]] by simp
  moreover have "fine w no_calls (do { (res, w2) \<leftarrow> call_all u this args ?fs ?w1;
                  Some (case res of Inl e \<Rightarrow> Inl e | Inr _ \<Rightarrow> Inr (VBool True), w2) })"
    using call_all_fine [OF inv1 known, of this args] evolves_trans [OF r, of ?c]
    by (cases "call_all u this args ?fs ?w1") (auto simp: fine_def)
  ultimately show ?thesis by (simp add: Let_def)
qed

lemma do_emit_fine:
  assumes "ev_inv w" "cls \<noteq> CPlain"
  shows "fine w no_calls (do_emit u cls event this args defer w)"
  unfolding do_emit_def
proof (rule with_entry_fine [OF assms])
  fix l key w1
  assume w1: "evolves w no_calls w1" "l < e_next_list w1"
  note inv = evolves_inv [OF w1(1)]
  show "fine w1 no_calls (case find_entry key (e_lists w1 l) of None \<Rightarrow> Some (Inr (VBool False), w1)
       | Some items \<Rightarrow> let callbacks = map ei_callback items; w1 = retain_listeners l key items w1
           in if defer then Some (Inr (VBool True), defer_all this args callbacks w1)
              else do { (res, w2) \<leftarrow> call_all u this args callbacks w1;
                        Some (case res of Inl e \<Rightarrow> Inl e | Inr _ \<Rightarrow> Inr (VBool True), w2) })"
  proof (cases "find_entry key (e_lists w1 l)")
    case None
    then show ?thesis using evolves_refl [OF inv] by simp
  next
    case (Some items)
    then show ?thesis using emit_found_fine [OF inv w1(2) Some] by simp
  qed
qed

lemma emit_str_fine: "ev_inv w \<Longrightarrow> cls \<noteq> CPlain \<Longrightarrow> fine w no_calls (emit_str u cls this event args defer w)"
  unfolding emit_str_def
  by (rule fine_bind0 [OF do_emit_fine]) (auto intro: evolves_refl evolves_inv)

lemma evt_dispatch_event_fine:
  "ev_inv w \<Longrightarrow> cls \<noteq> CPlain \<Longrightarrow> fine w no_calls (evt_dispatch_event u cls this event w)"
  unfolding evt_dispatch_event_def
  using do_emit_fine by (cases "get_optional_type event w") auto

lemma emit_error_fine:
  "ev_inv w \<Longrightarrow> cls \<noteq> CPlain \<Longrightarrow> fine w no_calls (emit_error u cls this r w)"
proof (cases r)
  case (Inl err)
  assume "ev_inv w" "cls \<noteq> CPlain"
  then have "fine w no_calls (do { (res, w1) \<leftarrow> emit_str u cls this ''error'' [err] False w;
                 Some (case res of Inl e \<Rightarrow> Inl e | Inr _ \<Rightarrow> Inr True, w1) })"
    by (intro fine_bind0 [OF emit_str_fine]) (auto intro: evolves_refl evolves_inv)
  with Inl \<open>ev_inv w\<close> show ?thesis by (simp add: emit_error_def evolves_refl)
qed (simp add: emit_error_def evolves_refl)

subsection \<open>Aborting\<close>

lemma send_aborted_fine:
  assumes inv: "ev_inv w" and i: "i < e_next_obj w" "i \<notin> fst ` set (e_timers w)"
    and ok: "composite (e_log w) i \<or> \<not> as_aborted (signal_of w i)"
  shows "fine w no_calls (send_aborted u i w)"
proof -
  let ?w1 = "upd_signal i mark_aborted w"
  let ?w2 = "log_ev (LAbort i) ?w1"
  have a: "as_aborted (mark_aborted sig)" for sig by (simp add: mark_aborted_def sender_send_def Let_def)
  have e1: "evolves w no_calls ?w1" using i(2) a by (intro evolves_signal [OF inv]) auto
  have "composite (e_log w) i \<or> aborts i (e_log w) = 0"
    using ok inv unfolding ev_inv_def aborts_inv_def by (metis le_zero_eq)
  then have "evolves ?w1 no_calls ?w2" using i a by (intro evolves_log_abort [OF evolves_inv [OF e1]]) auto
  then have e2: "evolves w no_calls ?w2" using evolves_trans0 [OF e1] by blast
  have "fine ?w2 no_calls (emit_str u CSignal i ''abort'' [] False ?w2)"
    using emit_str_fine [OF evolves_inv [OF e2]] by simp
  then show ?thesis unfolding send_aborted_def
    using evolves_trans0 [OF e2] by (auto simp: fine_def split: option.splits)
qed

lemma fine_after: "evolves w no_calls w1 \<Longrightarrow> fine w1 no_calls r \<Longrightarrow> fine w no_calls r"
  using evolves_trans0 by (auto simp: fine_def split: option.splits)

lemma set_reason_aborted [simp]: "as_aborted (set_reason reason sig) = as_aborted sig"
  by (simp add: set_reason_def split: option.split)

lemma evolves_set_reason: "ev_inv w \<Longrightarrow> evolves w no_calls (upd_signal i (set_reason reason) w)"
proof (rule evolves_signal)
  assume inv: "ev_inv w"
  show "i \<notin> fst ` set (e_timers w)" if "as_aborted (set_reason reason (signal_of w i))"
    using inv that by (auto simp: ev_inv_def aborts_inv_def timer_ok_def)
qed simp_all

lemma send_with_reason_fine:
  assumes "ev_inv w" "i < e_next_obj w" "i \<notin> fst ` set (e_timers w)" "\<not> as_aborted (signal_of w i)"
  shows "fine w no_calls (send_aborted u i (upd_signal i (set_reason reason) w))"
  using assms evolves_inv [OF evolves_set_reason [OF assms(1)]]
  by (intro fine_after [OF evolves_set_reason [OF assms(1), of i reason]] send_aborted_fine) auto

lemma signal_abort_fine:
  assumes inv: "ev_inv w"
  shows "fine w no_calls (signal_abort u reason w)"
proof -
  obtain i w1 where new: "new_object CSignal (set_reason reason signal_new) 0 w = (i, w1)" by fastforce
  note n = evolves_new_object [OF inv new]
  have "i \<notin> fst ` set (e_timers w1)" by (rule new_signal_fresh(2) [OF inv new])
  then have "fine w1 no_calls (send_aborted u i w1)"
    using n evolves_inv by (intro send_aborted_fine) (auto simp: signal_new_def)
  then have "fine w1 no_calls (do { (res, w2) \<leftarrow> send_aborted u i w1; Some (case res of Inl e \<Rightarrow> Inl e | Inr _ \<Rightarrow> Inr i, w2) })"
    by (rule fine_bind0) (auto intro: evolves_refl evolves_inv)
  then show ?thesis using fine_after n(1) new by (simp add: signal_abort_def)
qed

lemma controller_abort_fine:
  assumes inv: "ev_inv w" and c: "o_class (e_objects w this) = CController"
  shows "fine w no_calls (controller_abort u this reason w)"
proof -
  let ?s = "o_signal_ref (e_objects w this)"
  have s: "?s < e_next_obj w" using inv c by (simp add: ev_inv_def aborts_inv_def)
  have t: "?s \<notin> fst ` set (e_timers w)" using inv c by (auto simp: ev_inv_def aborts_inv_def timer_ok_def)
  show ?thesis using evolves_refl [OF inv] send_with_reason_fine [OF inv s t] by (simp add: controller_abort_def Let_def)
qed

lemma any_listener_fine:
  assumes inv: "ev_inv w" and c: "composite (e_log w) c"
  shows "fine w no_calls (any_listener u c this w)"
proof -
  let ?w1 = "upd_signal c (\<lambda>sig. sig\<lparr>as_aborted := True, as_reason := as_reason (signal_of w this)\<rparr>) w"
  have t: "c \<notin> fst ` set (e_timers w)" and n: "c < e_next_obj w"
    using inv c by (auto simp: ev_inv_def aborts_inv_def timer_ok_def)
  have e: "evolves w no_calls ?w1" using t by (intro evolves_signal [OF inv]) auto
  have "fine ?w1 no_calls (send_aborted u c ?w1)"
    using c t n by (intro send_aborted_fine [OF evolves_inv [OF e]]) auto
  then have "fine w no_calls (send_aborted u c ?w1)" using fine_after [OF e] by blast
  then show ?thesis using evolves_refl [OF inv] by (simp add: any_listener_def)
qed

lemma timeout_callback_fine:
  assumes inv: "ev_inv w" and t: "timer_ok w (fst t)" "fst t \<notin> fst ` set (e_timers w)"
  shows "fine w no_calls (timeout_callback u t w)"
  unfolding timeout_callback_def using t by (intro send_with_reason_fine [OF inv]) (simp_all add: timer_ok_def)

end


subsection \<open>Signals that follow others and timeouts\<close>

lemma follow_all_fine:
  "ev_inv w \<Longrightarrow> composite (e_log w) c \<Longrightarrow> fine w no_calls (follow_all c j ss w)"
proof (induction ss arbitrary: j w)
  case (Cons s ss)
  show ?case unfolding follow_all.simps
  proof (rule fine_bind0)
    show "fine w no_calls (add_event_listener CSignal s (VString ''abort'') (AnyListener c j) False True w)"
      using Cons.prems by (intro add_event_listener_fine) (simp_all add: known_def)
    fix res w1
    assume e: "evolves w no_calls w1"
    then have "composite (e_log w1) c" using Cons.prems(2) by (auto simp: evolves_def ev_rel_def composite_append)
    then show "fine w1 no_calls (case (res, w1) of (res, w1) \<Rightarrow> case res of Inl e \<Rightarrow> Some (Inl e, w1) | Inr _ \<Rightarrow> follow_all c (Suc j) ss w1)"
      using Cons.IH [OF evolves_inv [OF e]] evolves_refl [OF evolves_inv [OF e]] by (simp split: sum.split)
  qed
qed (simp add: evolves_refl)

lemma signal_any_fine:
  assumes inv: "ev_inv w"
  shows "fine w no_calls (signal_any signals w)"
proof (cases "scan_sources signals [] w")
  case (AnyError e)
  then show ?thesis using evolves_refl [OF inv] by (simp add: signal_any_def)
next
  case (AnyAborted reason)
  obtain i w1 where new: "new_object CSignal (signal_new\<lparr>as_aborted := True, as_reason := reason\<rparr>) 0 w = (i, w1)"
    by fastforce
  then show ?thesis using AnyAborted evolves_new_object(1) [OF inv new] by (simp add: signal_any_def)
next
  case (AnySources ss)
  obtain i w1 where new: "new_object CSignal signal_new 0 w = (i, w1)" by fastforce
  let ?w2 = "log_ev (LAny i) w1"
  note e = evolves_log_any [OF inv new]
  have "fine ?w2 no_calls (follow_all i 0 ss ?w2)"
    using follow_all_fine [OF evolves_inv [OF e]] by simp
  then have "fine ?w2 no_calls (do { (res, w2) \<leftarrow> follow_all i 0 ss ?w2; Some (case res of Inl e \<Rightarrow> Inl e | Inr _ \<Rightarrow> Inr i, w2) })"
    by (rule fine_bind0) (auto intro: evolves_refl evolves_inv)
  then have "fine w no_calls (do { (res, w2) \<leftarrow> follow_all i 0 ss ?w2; Some (case res of Inl e \<Rightarrow> Inl e | Inr _ \<Rightarrow> Inr i, w2) })"
    using evolves_trans0 [OF e] by (auto simp: fine_def split: option.splits)
  then show ?thesis using AnySources new by (simp add: signal_any_def)
qed

lemma signal_timeout_evolves:
  assumes inv: "ev_inv w"
  shows "evolves w no_calls (snd (signal_timeout w))"
proof -
  obtain i w1 where new: "new_object CSignal signal_new 0 w = (i, w1)" by fastforce
  note n = evolves_new_object [OF inv new]
  let ?w = "w1\<lparr>e_timers := e_timers w1 @ [(i, get_reason_or_dom_exception None ''TimeoutError'')]\<rparr>"
  have inv1: "ev_inv w1" using evolves_inv n(1) by simp
  note fresh = new_signal_fresh [OF inv new]
  then have "timer_ok w1 i" using n by (simp add: timer_ok_def signal_new_def)
  moreover have "i \<notin> fst ` set (e_timers w1)" by (rule fresh(2))
  ultimately have "ev_inv ?w" using inv1 by (auto simp: ev_inv_def lists_inv_def aborts_inv_def timer_ok_def)
  moreover have "ev_rel no_calls w ?w" using n(1) by (auto simp: evolves_def ev_rel_def slack_def present_def queued_def)
  ultimately show ?thesis using new by (simp add: signal_timeout_def evolves_def)
qed

lemma controller_new_evolves:
  assumes inv: "ev_inv w"
  shows "evolves w no_calls (snd (controller_new w))"
proof -
  obtain s w1 where s: "new_object CSignal signal_new 0 w = (s, w1)" by fastforce
  obtain c w2 where c: "new_object CController signal_new s w1 = (c, w2)" by fastforce
  note n = evolves_new_object [OF inv s]
  have "s < e_next_obj w1" "\<not> composite (e_log w1) s" "s \<notin> fst ` set (e_timers w1)"
    using n(3) new_signal_fresh [OF inv s] by simp_all
  then have "evolves w1 no_calls w2" using n(1) evolves_inv by (intro evolves_new_object(1) [OF _ c]) auto
  then show ?thesis using evolves_trans0 n(1) s c by (auto simp: controller_new_def)
qed

subsection \<open>Programs\<close>

datatype proto = EmitterProto | TargetProto | SignalProto

fun proto_class :: "proto \<Rightarrow> obj_class" where
  "proto_class EmitterProto = CEmitter"
| "proto_class TargetProto = CTarget"
| "proto_class SignalProto = CSignal"

datatype ev_op =
    NewEmitter
  | NewTarget
  | NewObject bool "ev_value option"
  | On proto nat ev_value nat
  | Once proto nat ev_value nat
  | PrependListener proto nat ev_value nat
  | PrependOnceListener proto nat ev_value nat
  | AddEventListener proto nat ev_value nat "ev_value option option"
  | RemoveListener proto nat ev_value nat
  | RemoveAllListeners proto nat "ev_value option"
  | EventNames proto nat
  | ListenerCount proto nat ev_value
  | Emit proto nat ev_value "ev_value list"
  | DispatchEvent proto nat ev_value
  | NewController
  | ControllerSignal nat
  | ControllerAbort nat "ev_value option"
  | SignalAbort "ev_value option"
  | SignalAny "ev_value list"
  | SignalTimeout
  | SetOnAbort nat nat
  | GetOnAbort nat
  | ThrowIfAborted nat
  | SetReason nat "ev_value option"

definition new_plain :: "bool \<Rightarrow> ev_value option \<Rightarrow> ev_world \<Rightarrow> nat \<times> ev_world" where
  "new_plain extensible type w =
     (e_next_obj w, w\<lparr>e_next_obj := Suc (e_next_obj w),
        e_objects := (e_objects w)(e_next_obj w := \<lparr>o_class = CPlain, o_events = 0, o_hidden = None,
          o_extensible = extensible, o_type = type, o_signal = signal_new, o_signal_ref = 0\<rparr>)\<rparr>)"

text \<open>A native method checks the class of its receiver.\<close>

definition receiver :: "obj_class \<Rightarrow> nat \<Rightarrow> ev_world \<Rightarrow> 'a ev_result \<Rightarrow> 'a ev_result" where
  "receiver cls this w r =
     (if o_class (e_objects w this) = cls then r else Some (Inl (VTypeError ''receiver''), w))"

definition ret_obj :: "nat \<times> ev_world \<Rightarrow> ev_value ev_result" where
  "ret_obj p = Some (Inr (VObject (fst p)), snd p)"

definition with_value :: "('a \<Rightarrow> ev_value) \<Rightarrow> 'a ev_result \<Rightarrow> ev_value ev_result" where
  "with_value f r = do { (res, w) \<leftarrow> r; Some (map_sum id f res, w) }"

fun ev_api :: "ev_user \<Rightarrow> ev_op \<Rightarrow> ev_world \<Rightarrow> ev_value ev_result" where
  "ev_api u NewEmitter w = ret_obj (new_object CEmitter signal_new 0 w)"
| "ev_api u NewTarget w = ret_obj (new_object CTarget signal_new 0 w)"
| "ev_api u (NewObject extensible type) w = ret_obj (new_plain extensible type w)"
| "ev_api u (On p this event f) w = on_listener (proto_class p) this event (UserFn f) w"
| "ev_api u (Once p this event f) w = once_listener (proto_class p) this event (UserFn f) w"
| "ev_api u (PrependListener p this event f) w = prepend_listener (proto_class p) this event (UserFn f) w"
| "ev_api u (PrependOnceListener p this event f) w = prepend_once_listener (proto_class p) this event (UserFn f) w"
| "ev_api u (AddEventListener p this event f options) w =
     evt_add_event_listener (proto_class p) this event (UserFn f) options w"
| "ev_api u (RemoveListener p this event f) w = remove_event_listener (proto_class p) this event (UserFn f) w"
| "ev_api u (RemoveAllListeners p this event) w = remove_all_listeners (proto_class p) this event w"
| "ev_api u (EventNames p this) w = event_names (proto_class p) this w"
| "ev_api u (ListenerCount p this event) w = listener_count (proto_class p) this event w"
| "ev_api u (Emit p this event args) w = emit u (proto_class p) this event args w"
| "ev_api u (DispatchEvent p this event) w = evt_dispatch_event u (proto_class p) this event w"
| "ev_api u NewController w = ret_obj (controller_new w)"
| "ev_api u (ControllerSignal this) w =
     receiver CController this w (Some (Inr (VObject (o_signal_ref (e_objects w this))), w))"
| "ev_api u (ControllerAbort this reason) w =
     receiver CController this w (with_value (\<lambda>_. VUndefined) (controller_abort u this reason w))"
| "ev_api u (SignalAbort reason) w = with_value VObject (signal_abort u reason w)"
| "ev_api u (SignalAny signals) w = with_value VObject (signal_any signals w)"
| "ev_api u SignalTimeout w = ret_obj (signal_timeout w)"
| "ev_api u (SetOnAbort this f) w = receiver CSignal this w (set_on_abort this (UserFn f) w)"
| "ev_api u (GetOnAbort this) w =
     receiver CSignal this w
       (Some (Inr (case get_on_abort this w of Some f \<Rightarrow> VFn f | None \<Rightarrow> VUndefined), w))"
| "ev_api u (ThrowIfAborted this) w =
     receiver CSignal this w (Some (map_sum id (\<lambda>_. VUndefined) (throw_if_aborted this w), w))"
| "ev_api u (SetReason this reason) w =
     receiver CSignal this w (Some (Inr VUndefined, upd_signal this (set_reason reason) w))"

text \<open>A piece of code: it returns or throws, or it makes a call and goes on with the result.\<close>

datatype ev_code = Return "ev_value + unit" | Perform ev_op "ev_value + ev_value \<Rightarrow> ev_code"

primrec run_code :: "ev_user \<Rightarrow> ev_code \<Rightarrow> ev_world \<Rightarrow> unit ev_result" where
  "run_code u (Return r) w = Some (r, w)"
| "run_code u (Perform x k) w = (case ev_api u x w of None \<Rightarrow> None | Some (res, w1) \<Rightarrow> run_code u (k res) w1)"

type_synonym ev_program = "nat \<Rightarrow> nat \<Rightarrow> ev_value list \<Rightarrow> ev_code"

fun ev_cb :: "ev_program \<Rightarrow> nat \<Rightarrow> ev_user" where
  "ev_cb prog 0 f this args w = Some (Inl (VError ''Maximum call stack size exceeded''), w)"
| "ev_cb prog (Suc n) f this args w =
     (case f of
        UserFn i \<Rightarrow> run_code (ev_cb prog n) (prog i this args) w
      | AnyListener c _ \<Rightarrow> any_listener (ev_cb prog n) c this w)"


lemma new_plain_evolves: "ev_inv w \<Longrightarrow> evolves w no_calls (snd (new_plain extensible type w))"
  unfolding new_plain_def snd_conv by (rule evolves_alloc) (auto simp: lists_of_def)

lemma proto_not_plain [simp]: "proto_class p \<noteq> CPlain"
  by (cases p) simp_all

lemma ret_obj_fine [simp]: "fine w d (ret_obj p) = evolves w d (snd p)"
  by (simp add: ret_obj_def)

lemma with_value_fine: "fine w no_calls r \<Longrightarrow> fine w no_calls (with_value f r)"
  unfolding with_value_def by (rule fine_bind0) (auto intro: evolves_refl evolves_inv)

lemma receiver_fine:
  "ev_inv w \<Longrightarrow> (o_class (e_objects w this) = cls \<Longrightarrow> fine w no_calls r) \<Longrightarrow> fine w no_calls (receiver cls this w r)"
  by (simp add: receiver_def evolves_refl)

lemma known_user [simp]: "known lg (UserFn i)"
  by (simp add: known_def)

lemma evt_add_event_listener_fine:
  "ev_inv w \<Longrightarrow> cls \<noteq> CPlain \<Longrightarrow> fine w no_calls (evt_add_event_listener cls this event (UserFn f) options w)"
  using add_event_listener_fine [of w cls "UserFn f" this event False] evolves_refl [of w]
  by (simp add: evt_add_event_listener_def split: option.split ev_value.split)

lemmas listener_ops_fine =
  on_listener_def once_listener_def prepend_listener_def prepend_once_listener_def set_on_abort_def emit_def
  add_event_listener_fine remove_event_listener_fine remove_all_listeners_fine event_names_fine listener_count_fine
  evt_add_event_listener_fine

context listener_code
begin

lemma ev_api_fine: "ev_inv w \<Longrightarrow> fine w no_calls (ev_api u x w)"
proof (cases x)
  case NewEmitter
  assume "ev_inv w"
  then show ?thesis using NewEmitter evolves_new_object(1) [of w CEmitter signal_new 0]
    by (cases "new_object CEmitter signal_new 0 w") simp
next
  case NewTarget
  assume "ev_inv w"
  then show ?thesis using NewTarget evolves_new_object(1) [of w CTarget signal_new 0]
    by (cases "new_object CTarget signal_new 0 w") simp
qed (simp_all add: listener_ops_fine new_plain_evolves do_emit_fine evt_dispatch_event_fine controller_new_evolves
    receiver_fine with_value_fine controller_abort_fine signal_abort_fine signal_any_fine signal_timeout_evolves
    evolves_set_reason evolves_refl)

lemma run_code_fine: "ev_inv w \<Longrightarrow> fine w no_calls (run_code u c w)"
proof (induction c arbitrary: w)
  case (Perform x k)
  have a: "fine w no_calls (ev_api u x w)" using ev_api_fine [OF Perform.prems] .
  show ?case
  proof (cases "ev_api u x w")
    case (Some p)
    then obtain res w1 where p: "ev_api u x w = Some (res, w1)" by (cases p) auto
    then have e: "evolves w no_calls w1" using a by simp
    have "fine w1 no_calls (run_code u (k res) w1)" using Perform.IH evolves_inv [OF e] by blast
    then show ?thesis using p fine_after [OF e] by simp
  qed simp
qed (simp add: evolves_refl)

end

lemma listener_code_cb: "listener_code (ev_cb prog n)"
proof (induction n)
  case 0
  show ?case by unfold_locales (simp add: evolves_refl)
next
  case (Suc n)
  show ?case
  proof
    fix w f this args
    assume inv: "ev_inv w" and k: "known (e_log w) f"
    show "fine w no_calls (ev_cb prog (Suc n) f this args w)"
      using listener_code.run_code_fine [OF Suc inv] listener_code.any_listener_fine [OF Suc inv] k
      by (simp add: known_def split: js_fn.splits)
  qed
qed

interpretation js: listener_code "ev_cb prog n" for prog n
  by (rule listener_code_cb)

subsection \<open>Runs\<close>

text \<open>The main program makes calls; the environment runs deferred listeners and timers.\<close>

datatype ev_event = Main ev_op | RunJob | FireTimer nat

definition run_job :: "ev_user \<Rightarrow> ev_world \<Rightarrow> ev_world option" where
  "run_job u w =
     (case e_jobs w of
        [] \<Rightarrow> Some w
      | (f, this, args) # rest \<Rightarrow> map_option snd (call_listener u f this args (w\<lparr>e_jobs := rest\<rparr>)))"

definition fire_timer :: "ev_user \<Rightarrow> nat \<Rightarrow> ev_world \<Rightarrow> ev_world option" where
  "fire_timer u k w =
     (if k < length (e_timers w)
      then map_option snd (timeout_callback u (e_timers w ! k) (w\<lparr>e_timers := take k (e_timers w) @ drop (Suc k) (e_timers w)\<rparr>))
      else Some w)"

fun ev_step :: "ev_user \<Rightarrow> ev_event \<Rightarrow> ev_world \<Rightarrow> ev_world option" where
  "ev_step u (Main x) w = map_option snd (ev_api u x w)"
| "ev_step u RunJob w = run_job u w"
| "ev_step u (FireTimer k) w = fire_timer u k w"

fun ev_run :: "ev_user \<Rightarrow> ev_event list \<Rightarrow> ev_world \<Rightarrow> ev_world option" where
  "ev_run u [] w = Some w"
| "ev_run u (e # es) w = (case ev_step u e w of None \<Rightarrow> None | Some w1 \<Rightarrow> ev_run u es w1)"

definition ev_start :: ev_world where
  "ev_start = \<lparr>e_lists = (\<lambda>_. []), e_next_list = 0,
     e_objects = (\<lambda>_. \<lparr>o_class = CPlain, o_events = 0, o_hidden = None, o_extensible = True, o_type = None,
       o_signal = signal_new, o_signal_ref = 0\<rparr>),
     e_next_obj = 0, e_jobs = [], e_timers = [], e_log = []\<rparr>"

lemma ev_inv_start: "ev_inv ev_start"
  by (simp add: ev_inv_def lists_inv_def aborts_inv_def ev_start_def list_ok_def lists_of_def composite_def aborts_def signal_new_def)

lemma fine_step: "fine w d r \<Longrightarrow> map_option snd r = Some w' \<Longrightarrow> evolves w d w'"
  by (auto simp: fine_def)

lemma run_job_evolves:
  assumes "ev_inv w" "listener_code u" "run_job u w = Some w'"
  shows "evolves w no_calls w'"
proof (cases "e_jobs w")
  case Nil
  then show ?thesis using assms evolves_refl by (simp add: run_job_def)
next
  case (Cons job rest)
  obtain f this args where job: "job = (f, this, args)" by (cases job) auto
  let ?w = "w\<lparr>e_jobs := rest\<rparr>"
  have e: "evolves w (\<lambda>g. if g = f then -1 else 0) ?w"
    using assms(1) Cons job
    by (auto simp: evolves_def ev_rel_def ev_inv_def lists_inv_def aborts_inv_def timer_ok_def slack_def present_def queued_def)
  have "known (e_log w) f" using assms(1) Cons job by (simp add: ev_inv_def lists_inv_def)
  then have "fine ?w (\<lambda>g. if g = f then 1 else 0) (call_listener u f this args ?w)"
    using listener_code.call_listener_fine [OF assms(2) evolves_inv [OF e]] by simp
  then have "evolves ?w (\<lambda>g. if g = f then 1 else 0) w'"
    using fine_step assms(3) Cons job by (fastforce simp: run_job_def)
  from evolves_trans [OF e this] show ?thesis by (simp add: if_distrib [of "\<lambda>x. x + _"] cong: if_cong)
qed

lemma fire_timer_evolves:
  assumes inv: "ev_inv w" and u: "listener_code u" and f: "fire_timer u k w = Some w'"
  shows "evolves w no_calls w'"
proof (cases "k < length (e_timers w)")
  case False
  then show ?thesis using f evolves_refl [OF inv] by (simp add: fire_timer_def)
next
  case True
  let ?t = "e_timers w ! k" and ?ts = "take k (e_timers w) @ drop (Suc k) (e_timers w)"
  let ?w = "w\<lparr>e_timers := ?ts\<rparr>"
  have ts: "e_timers w = take k (e_timers w) @ ?t # drop (Suc k) (e_timers w)" using True by (rule id_take_nth_drop)
  have d: "distinct (map fst (e_timers w))" and ok: "\<forall>t \<in> set (e_timers w). timer_ok w (fst t)"
    using inv by (auto simp: ev_inv_def aborts_inv_def)
  have d': "distinct (map fst ?ts)" "fst ?t \<notin> fst ` set ?ts" using d unfolding ts [THEN arg_cong [where f = "map fst"]]
    by auto
  have sub: "set ?ts \<subseteq> set (e_timers w)" by (auto dest: in_set_takeD in_set_dropD)
  have tok: "timer_ok ?w i = timer_ok w i" for i by (simp add: timer_ok_def)
  have "ev_inv ?w" using inv sub ok d'(1) unfolding ev_inv_def lists_inv_def aborts_inv_def tok by auto
  then have e: "evolves w no_calls ?w" by (auto simp: evolves_def ev_rel_def slack_def present_def queued_def)
  have "timer_ok ?w (fst ?t)" using ok True tok by simp
  then have "fine ?w no_calls (timeout_callback u ?t ?w)"
    using listener_code.timeout_callback_fine [OF u evolves_inv [OF e]] d'(2) by simp
  then have "evolves ?w no_calls w'" using fine_step f True by (fastforce simp: fire_timer_def)
  then show ?thesis using evolves_trans0 [OF e] by blast
qed

lemma ev_run_evolves:
  "ev_inv w \<Longrightarrow> listener_code u \<Longrightarrow> ev_run u es w = Some w' \<Longrightarrow> evolves w no_calls w'"
proof (induction es arbitrary: w)
  case Nil
  then show ?case using evolves_refl by simp
next
  case (Cons e es)
  then obtain w1 where w1: "ev_step u e w = Some w1" "ev_run u es w1 = Some w'" by (auto split: option.splits)
  have "evolves w no_calls w1"
    using w1(1) Cons.prems listener_code.ev_api_fine fine_step run_job_evolves fire_timer_evolves
    by (cases e) (simp_all, blast)
  with Cons.IH [OF evolves_inv [OF this] Cons.prems(2) w1(2)] evolves_trans0 show ?case by blast
qed

lemma ev_run_start: "ev_run (ev_cb prog n) es ev_start = Some w \<Longrightarrow> evolves ev_start no_calls w"
  using ev_run_evolves [OF ev_inv_start js.listener_code_axioms] .


subsection \<open>Properties of every run\<close>

text \<open>
  (C27) In every run, whatever the listeners do while events are emitted, a function that is
  only ever registered once-only is called by the emitters at most as often as it was
  registered.
\<close>
theorem once_listeners_called_once:
  assumes "ev_run (ev_cb prog n) es ev_start = Some w" and "\<not> persistent (e_log w) f"
  shows "called f (e_log w) \<le> added f (e_log w)"
proof -
  have "slack ev_start f \<le> slack w f" using ev_run_start [OF assms(1)] assms(2) by (simp add: evolves_def ev_rel_def)
  moreover have "slack ev_start f = 0" by (simp add: slack_def ev_start_def added_def called_def present_def queued_def)
  ultimately show ?thesis by (simp add: slack_def)
qed

definition reentrant :: ev_program where
  "reentrant i this args =
     (if i = 0 then Perform (Emit EmitterProto 0 (VString ''x'') []) (\<lambda>_. Return (Inr ())) else Return (Inr ()))"

definition reentrant_run :: "ev_event list" where
  "reentrant_run = [Main NewEmitter, Main (Once EmitterProto 0 (VString ''x'') 0),
     Main (On EmitterProto 0 (VString ''x'') 1), Main (Emit EmitterProto 0 (VString ''x'') [])]"

lemmas ev_eval = ev_start_def new_object_def new_list_def ret_obj_def on_listener_def once_listener_def
  add_event_listener_def with_entry_def resolve_events_from_def from_value_def add_item_def emit_def do_emit_def
  retain_listeners_def call_listener_def Let_def

theorem once_listeners_called_once_witness:
  "\<exists>w. ev_run (ev_cb reentrant 2) reentrant_run ev_start = Some w \<and> called (UserFn 0) (e_log w) = 1
    \<and> called (UserFn 1) (e_log w) = 2 \<and> called (UserFn 0) (e_log w) \<le> added (UserFn 0) (e_log w)"
proof -
  let ?r = "ev_run (ev_cb reentrant 2) reentrant_run ev_start"
  have "map_option e_log ?r = Some [LAdd (UserFn 0) True, LAdd (UserFn 1) False, LCall (UserFn 0) 0 [],
      LCall (UserFn 1) 0 [], LCall (UserFn 1) 0 []]"
    by (simp add: reentrant_run_def reentrant_def ev_eval numeral_2_eq_2)
  then obtain w where w: "?r = Some w" and l: "e_log w = [LAdd (UserFn 0) True, LAdd (UserFn 1) False,
      LCall (UserFn 0) 0 [], LCall (UserFn 1) 0 [], LCall (UserFn 1) 0 []]" by auto
  have "\<not> persistent (e_log w) (UserFn 0)" by (simp add: l persistent_def)
  from once_listeners_called_once [OF w this] w show ?thesis by (auto simp: l called_def)
qed



text \<open>
  (C28) In every run a signal that was not made by \<^verbatim>\<open>any\<close> is sent its abort event at most
  once, and only if it is aborted; the listeners may abort any controllers and signals
  meanwhile.
\<close>
theorem abort_event_once:
  assumes "ev_run (ev_cb prog n) es ev_start = Some w" and "\<not> composite (e_log w) s"
  shows "aborts s (e_log w) \<le> (if as_aborted (signal_of w s) then 1 else 0)"
  using ev_run_start [OF assms(1)] assms(2) by (simp add: evolves_def ev_inv_def aborts_inv_def)

definition abort_again :: ev_program where
  "abort_again i this args = Perform (ControllerAbort 1 None) (\<lambda>_. Return (Inr ()))"

definition abort_run :: "ev_event list" where
  "abort_run = [Main NewController, Main (SetOnAbort 0 7), Main (ControllerAbort 1 None), Main (ControllerAbort 1 None)]"

lemmas abort_eval = ev_eval controller_new_def controller_abort_def send_aborted_def mark_aborted_def sender_send_def
  set_reason_def get_reason_or_dom_exception_def signal_new_def emit_str_def receiver_def with_value_def set_on_abort_def

theorem abort_event_once_witness:
  "\<exists>w. ev_run (ev_cb abort_again 3) abort_run ev_start = Some w \<and> aborts 0 (e_log w) = 1 \<and> as_aborted (signal_of w 0)"
proof -
  let ?r = "ev_run (ev_cb abort_again 3) abort_run ev_start"
  have "map_option e_log ?r = Some [LAdd (UserFn 7) False, LAbort 0, LCall (UserFn 7) 0 []]"
    by (simp add: abort_run_def abort_again_def abort_eval numeral_3_eq_3)
  then obtain w where w: "?r = Some w" and l: "e_log w = [LAdd (UserFn 7) False, LAbort 0, LCall (UserFn 7) 0 []]" by auto
  have "\<not> composite (e_log w) 0" by (simp add: l composite_def)
  from abort_event_once [OF w this] w l show ?thesis by (auto simp: aborts_def split: if_splits)
qed

text \<open>
  A signal made by \<^verbatim>\<open>any\<close> is sent its abort event once per source that aborts, and
  each of them replaces its reason.
\<close>
lemma any_signal_aborts_twice:
  "map_option (\<lambda>w. (aborts 4 (e_log w), as_reason (signal_of w 4), as_sent (signal_of w 4)))
     (ev_run (ev_cb prog (Suc n)) [Main NewController, Main NewController, Main (SignalAny [VObject 0, VObject 2]),
        Main (ControllerAbort 1 (Some (VNat 1))), Main (ControllerAbort 3 (Some (VNat 2)))] ev_start)
   = Some (2, Some (VNat 2), Some (VNat 1))"
  by (simp add: abort_eval signal_any_def any_listener_def aborts_def)

text \<open>
  An event without a type panics the process, for every emitter and every value that is
  not an object.
\<close>
lemma dispatch_without_type_panics:
  "(\<forall>i. event \<noteq> VObject i) \<or> event = VObject i \<and> o_type (e_objects w i) = None \<Longrightarrow>
   ev_api u (DispatchEvent p this event) w = None"
  by (auto simp: evt_dispatch_event_def get_optional_type_def split: ev_value.splits)

theorem dispatch_without_type_panics_witness:
  "ev_api (ev_cb reentrant 2) (DispatchEvent TargetProto 0 (VNat 3)) ev_start = None"
  by (rule dispatch_without_type_panics) simp


subsection \<open>Emitters as maps from events to lists of listeners\<close>











subsection \<open>The order of the calls\<close>




lemma retain_fields [simp]: "e_objects (retain_listeners l key items w) = e_objects w" "e_log (retain_listeners l key items w) = e_log w"
  by (simp_all add: retain_listeners_def Let_def)




end
