(* ===== verification/FetchHeaders.thy ===== *)
theory FetchHeaders
  imports Prelude "HOL-Library.List_Lexorder" "HOL-Library.Multiset"
begin

text \<open>
  \<^verbatim>\<open>modules/llrt_fetch/src/headers.rs\<close>: the class \<^verbatim>\<open>Headers\<close> of the Fetch API.  A string is the list
  of its code points (Rust's \<^verbatim>\<open>char\<close>s); every byte the code tests for is below 128, so tests on
  the bytes of a string are tests on its code points, and \<^verbatim>\<open>len\<close> is the length in UTF-8.
  An argument of JavaScript that is a number or an object comes with the result of its
  conversion to a string, which may throw.
\<close>

datatype hvalue = HNull | HUndefined | HBool bool | HString ustring | HConverted "ustring option"

datatype headers_guard = GuardNone | GuardRequest | GuardRequestNoCors | GuardResponse | GuardImmutable

record headers =
  h_headers :: "(ustring \<times> ustring) list"
  h_guard :: headers_guard

type_synonym 'a h_result = "string + 'a"

subsection \<open>Characters\<close>

definition lower_key :: "ustring \<Rightarrow> ustring" where
  "lower_key key = map ascii_lower key"

definition utf8_len :: "ustring \<Rightarrow> nat" where
  "utf8_len s = sum_list (map (\<lambda>c. if c < 0x80 then 1 else if c < 0x800 then 2 else if c < 0x10000 then 3 else 4) s)"

definition is_whitespace :: "nat \<Rightarrow> bool" where
  "is_whitespace c \<longleftrightarrow> 9 \<le> c \<and> c \<le> 13 \<or> c = 32 \<or> c = 0x85 \<or> c = 0xA0 \<or> c = 0x1680 \<or> 0x2000 \<le> c \<and> c \<le> 0x200A
     \<or> c = 0x2028 \<or> c = 0x2029 \<or> c = 0x202F \<or> c = 0x205F \<or> c = 0x3000"

fun split_on :: "(nat \<Rightarrow> bool) \<Rightarrow> ustring \<Rightarrow> ustring list" where
  "split_on P [] = [[]]"
| "split_on P (c # s) =
     (if P c then [] # split_on P s
      else (case split_on P s of [] \<Rightarrow> [[c]] | w # ws \<Rightarrow> (c # w) # ws))"

definition first_part :: "nat \<Rightarrow> ustring \<Rightarrow> ustring" where
  "first_part c s = trim_matches is_whitespace (takeWhile (\<lambda>x. x \<noteq> c) s)"

definition coerce_to_string :: "hvalue \<Rightarrow> ustring h_result" where
  "coerce_to_string v =
     (case v of
        HNull \<Rightarrow> Inr (str ''null'')
      | HUndefined \<Rightarrow> Inr (str ''undefined'')
      | HBool b \<Rightarrow> Inr (if b then str ''true'' else str ''false'')
      | HString s \<Rightarrow> Inr s
      | HConverted (Some s) \<Rightarrow> Inr s
      | HConverted None \<Rightarrow> Inl ''exception'')"

subsection \<open>Names and values\<close>

definition forbidden_names :: "ustring list" where
  "forbidden_names = map str
     [''accept-charset'', ''accept-encoding'', ''access-control-request-headers'', ''access-control-request-method'',
      ''connection'', ''content-length'', ''date'', ''dnt'', ''expect'', ''host'', ''keep-alive'', ''origin'', ''referer'',
      ''set-cookie'', ''te'', ''trailer'', ''transfer-encoding'', ''upgrade'', ''via'']"

definition starts_with :: "ustring \<Rightarrow> ustring \<Rightarrow> bool" where
  "starts_with pre s \<longleftrightarrow> take (length pre) s = pre"

definition is_forbidden_request_header :: "ustring \<Rightarrow> bool" where
  "is_forbidden_request_header name \<longleftrightarrow>
     name \<in> set forbidden_names \<or> starts_with (str ''proxy-'') name \<or> starts_with (str ''sec-'') name"

definition is_forbidden_method_override :: "ustring \<Rightarrow> ustring \<Rightarrow> bool" where
  "is_forbidden_method_override name value \<longleftrightarrow>
     name \<in> set (map str [''x-http-method'', ''x-http-method-override'', ''x-method-override''])
   \<and> list_ex (\<lambda>tok. map ascii_upper tok \<in> set (map str [''CONNECT'', ''TRACE'', ''TRACK'']))
       (split_on (\<lambda>c. c = 0x2C \<or> is_ascii_whitespace c) value)"

definition is_token_byte :: "nat \<Rightarrow> bool" where
  "is_token_byte b \<longleftrightarrow>
     b \<in> set (str ''!#$%&*+-.^_|~'') \<or> b = 0x27 \<or> b = 0x60 \<or> 0x30 \<le> b \<and> b \<le> 0x39 \<or> 0x41 \<le> b \<and> b \<le> 0x5A \<or> 0x61 \<le> b \<and> b \<le> 0x7A"

definition is_http_header_name :: "ustring \<Rightarrow> bool" where
  "is_http_header_name name \<longleftrightarrow> name \<noteq> [] \<and> list_all is_token_byte name"

definition has_bare_cr_lf :: "ustring \<Rightarrow> bool" where
  "has_bare_cr_lf value \<longleftrightarrow>
     list_ex (\<lambda>b. b = 10 \<or> b = 13) (trim_matches (\<lambda>c. c = 32 \<or> c = 9 \<or> c = 10 \<or> c = 13) value)"

definition is_value_char :: "nat \<Rightarrow> bool" where
  "is_value_char cp \<longleftrightarrow> cp = 0x09 \<or> cp = 0x0C \<or> 0x20 \<le> cp \<and> cp \<le> 0x7E \<or> 0x80 \<le> cp \<and> cp \<le> 0xFF"

definition is_http_header_value :: "ustring \<Rightarrow> bool" where
  "is_http_header_value value \<longleftrightarrow> list_all is_value_char value"

subsection \<open>Normalising a value in place\<close>

abbreviation is_sp_ht :: "nat \<Rightarrow> bool" where
  "is_sp_ht b \<equiv> b = 32 \<or> b = 9"

function skip_leading :: "nat list \<Rightarrow> nat \<Rightarrow> nat" where
  "skip_leading input r = (if r < length input \<and> is_sp_ht (input ! r) then skip_leading input (r + 1) else r)"
  by pat_completeness auto
termination by (relation "measure (\<lambda>(input, r). length input - r)") auto

text \<open>The loop reads at one index and writes at another in the same buffer.\<close>

function normalize_loop :: "nat list \<Rightarrow> nat \<Rightarrow> nat \<Rightarrow> nat option \<Rightarrow> (nat list \<times> nat) option" where
  "normalize_loop input r w pending =
     (if r < length input then
        if input ! r = 13 \<and> r + 2 < length input \<and> input ! (r + 1) = 10 \<and> is_sp_ht (input ! (r + 2))
        then normalize_loop input (r + 3) w (Some (input ! (r + 2)))
        else if input ! r = 13 \<or> input ! r = 10 then normalize_loop input (r + 1) w pending
        else if is_sp_ht (input ! r) then normalize_loop input (r + 1) w (Some (input ! r))
        else
          (let byte = input ! r in
           do { (input1, w1) \<leftarrow>
                  (case pending of
                     Some ws \<Rightarrow> if w > 0 then do { i \<leftarrow> store input w ws; Some (i, w + 1) } else Some (input, w)
                   | None \<Rightarrow> Some (input, w));
                input2 \<leftarrow> store input1 w1 byte;
                normalize_loop input2 (r + 1) (w1 + 1) None })
      else Some (input, w))"
  by pat_completeness auto
termination
  by (relation "measure (\<lambda>(input, r, w, pending). length input - r)") (auto simp: store_def split: option.splits if_splits)

declare skip_leading.simps [simp del] normalize_loop.simps [simp del]

fun trim_end :: "nat list \<Rightarrow> nat \<Rightarrow> nat" where
  "trim_end input 0 = 0"
| "trim_end input (Suc w) = (if is_sp_ht (input ! w) then trim_end input w else Suc w)"

definition normalize_header_value_inplace :: "ustring \<Rightarrow> ustring option" where
  "normalize_header_value_inplace s =
     do { (input, w) \<leftarrow> normalize_loop s (skip_leading s 0) 0 None;
          Some (take (trim_end input w) input) }"

subsection \<open>The no-cors safelist\<close>

definition contains_cors_unsafe_request_header_byte :: "ustring \<Rightarrow> bool" where
  "contains_cors_unsafe_request_header_byte value \<longleftrightarrow>
     list_ex (\<lambda>b. b \<le> 8 \<or> 0x0A \<le> b \<and> b \<le> 0x1F
       \<or> b \<in> {0x22, 0x28, 0x29, 0x3A, 0x3C, 0x3E, 0x3F, 0x40, 0x5B, 0x5C, 0x5D, 0x7B, 0x7F, 0x7D}) value"

definition is_cors_safelisted_field_value :: "ustring \<Rightarrow> bool" where
  "is_cors_safelisted_field_value value \<longleftrightarrow>
     list_all (\<lambda>b. 0x30 \<le> b \<and> b \<le> 0x39 \<or> 0x41 \<le> b \<and> b \<le> 0x5A \<or> 0x61 \<le> b \<and> b \<le> 0x7A
       \<or> b \<in> {0x20, 0x2A, 0x2C, 0x2D, 0x2E, 0x3B, 0x3D}) value"

definition eq_ignore_ascii_case :: "ustring \<Rightarrow> ustring \<Rightarrow> bool" where
  "eq_ignore_ascii_case a b \<longleftrightarrow> map ascii_lower a = map ascii_lower b"

definition is_cors_safelisted_request_header :: "ustring \<Rightarrow> ustring \<Rightarrow> bool" where
  "is_cors_safelisted_request_header key value \<longleftrightarrow>
     (if utf8_len value > 128 then False
      else if eq_ignore_ascii_case key (str ''accept'') then \<not> contains_cors_unsafe_request_header_byte value
      else if eq_ignore_ascii_case key (str ''accept-language'') \<or> eq_ignore_ascii_case key (str ''content-language'')
      then is_cors_safelisted_field_value value
      else if eq_ignore_ascii_case key (str ''content-type'') then
        if contains_cors_unsafe_request_header_byte value then False
        else
          (let mime_type = first_part 0x3B value
           in list_ex (eq_ignore_ascii_case mime_type)
                (map str [''application/x-www-form-urlencoded'', ''multipart/form-data'', ''text/plain'', '''']))
      else False)"

subsection \<open>The operations\<close>

definition guards_requests :: "headers_guard \<Rightarrow> bool" where
  "guards_requests g \<longleftrightarrow> g = GuardRequest \<or> g = GuardRequestNoCors"

definition find_header :: "ustring \<Rightarrow> (ustring \<times> ustring) list \<Rightarrow> ustring option" where
  "find_header key hs = map_of hs key"

fun set_header :: "ustring \<Rightarrow> ustring \<Rightarrow> (ustring \<times> ustring) list \<Rightarrow> (ustring \<times> ustring) list" where
  "set_header key value [] = []"
| "set_header key value ((k, v) # hs) = (if k = key then (k, value) # hs else (k, v) # set_header key value hs)"

text \<open>The checks \<^verbatim>\<open>append\<close> and \<^verbatim>\<open>set\<close> start with: an exception, a header that is ignored without
  an error, or a value to go on with.\<close>

datatype checked = Reject string | Ignore | Proceed ustring

definition check_value :: "headers_guard \<Rightarrow> ustring \<Rightarrow> hvalue \<Rightarrow> checked" where
  "check_value g key v =
     (if \<not> is_http_header_name key then Reject ''Invalid key''
      else if g = GuardImmutable then Reject ''Headers are immutable''
      else if guards_requests g \<and> is_forbidden_request_header key then Ignore
      else if g = GuardResponse \<and> key = str ''set-cookie'' then Ignore
      else case coerce_to_string v of
        Inl e \<Rightarrow> Reject e
      | Inr value0 \<Rightarrow>
          if 0 \<in> set value0 \<or> has_bare_cr_lf value0 then Reject ''Invalid header value''
          else (case normalize_header_value_inplace value0 of
            None \<Rightarrow> Reject ''panic''
          | Some value \<Rightarrow>
              if guards_requests g \<and> is_forbidden_method_override key value then Ignore
              else if g = GuardRequestNoCors then
                (let val = first_part 0x2C value
                 in if \<not> is_cors_safelisted_request_header key val then Ignore else Proceed val)
              else Proceed value))"

text \<open>Storing an appended value; \<^verbatim>\<open>append\<close> and \<^verbatim>\<open>from_array\<close> share it.\<close>

definition add_header :: "ustring \<Rightarrow> ustring \<Rightarrow> (ustring \<times> ustring) list \<Rightarrow> (ustring \<times> ustring) list" where
  "add_header key value hs =
     (if key = str ''set-cookie'' then hs @ [(key, value)]
      else case find_header key hs of
        Some existing \<Rightarrow>
          set_header key (existing @ (if key = str ''cookie'' then str ''; '' else str '', '') @ value) hs
      | None \<Rightarrow> hs @ [(key, value)])"

definition headers_append :: "ustring \<Rightarrow> hvalue \<Rightarrow> headers \<Rightarrow> headers h_result" where
  "headers_append key0 v h =
     (let key = lower_key key0 in
      case check_value (h_guard h) key v of
        Reject e \<Rightarrow> Inl e
      | Ignore \<Rightarrow> Inr h
      | Proceed value \<Rightarrow>
          if h_guard h = GuardRequestNoCors \<and> find_header key (h_headers h) \<noteq> None then Inr h
          else if \<not> is_http_header_value value then Inl ''Invalid value of key''
          else Inr (h\<lparr>h_headers := add_header key value (h_headers h)\<rparr>))"



fun join_with :: "ustring \<Rightarrow> ustring list \<Rightarrow> ustring" where
  "join_with sep [] = []"
| "join_with sep [x] = x"
| "join_with sep (x # xs) = x @ sep @ join_with sep xs"

definition get_set_cookie :: "headers \<Rightarrow> ustring list" where
  "get_set_cookie h = map snd (filter (\<lambda>(k, _). k = str ''set-cookie'') (h_headers h))"

definition headers_get :: "ustring \<Rightarrow> headers \<Rightarrow> ustring option h_result" where
  "headers_get key0 h =
     (let key = lower_key key0 in
      if \<not> is_http_header_name key then Inl ''Invalid key''
      else if key = str ''set-cookie'' then
        (let result = map snd (filter (\<lambda>(k, _). k = key) (h_headers h))
         in Inr (if result = [] then None else Some (join_with (str '', '') result)))
      else Inr (find_header key (h_headers h)))"

definition headers_has :: "ustring \<Rightarrow> headers \<Rightarrow> bool h_result" where
  "headers_has key0 h =
     (let key = lower_key key0 in
      if \<not> is_http_header_name key then Inl ''Invalid key'' else Inr (list_ex (\<lambda>(k, _). k = key) (h_headers h)))"

definition contains_lower :: "ustring \<Rightarrow> headers \<Rightarrow> bool" where
  "contains_lower key h \<longleftrightarrow> list_ex (\<lambda>(k, _). k = key) (h_headers h)"

subsection \<open>Iteration\<close>

fun first_entries :: "ustring set \<Rightarrow> (ustring \<times> ustring) list \<Rightarrow> (ustring \<times> ustring) list" where
  "first_entries seen [] = []"
| "first_entries seen ((k, v) # hs) =
     (if k = str ''set-cookie'' \<or> k \<notin> seen
      then (k, v) # first_entries (if k = str ''set-cookie'' then seen else insert k seen) hs
      else first_entries seen hs)"

definition sorted_entries :: "headers \<Rightarrow> (ustring \<times> ustring) list" where
  "sorted_entries h = sort_key fst (first_entries {} (h_headers h))"

definition read_entry :: "nat \<Rightarrow> headers \<Rightarrow> (ustring \<times> ustring) option" where
  "read_entry i h = (let es = sorted_entries h in if i < length es then Some (es ! i) else None)"

text \<open>One step of an iterator: the entry and the next position.\<close>

definition iter_next :: "nat \<Rightarrow> headers \<Rightarrow> (ustring \<times> ustring) option \<times> nat" where
  "iter_next i h = (case read_entry i h of Some e \<Rightarrow> (Some e, i + 1) | None \<Rightarrow> (None, i))"

subsection \<open>Construction\<close>

definition from_http_headers :: "(ustring \<times> ustring list) list \<Rightarrow> headers_guard \<Rightarrow> headers" where
  "from_http_headers header_map g =
     \<lparr>h_headers = concat (map (\<lambda>(name, values).
        if name = str ''set-cookie'' then map (\<lambda>v. (name, v)) values else [(name, join_with (str '', '') values)]) header_map),
      h_guard = g\<rparr>"

text \<open>An element of an array of headers: not an array, or an array of values.  A key must be a
  string.\<close>

datatype init_entry = NoArray | Pair "hvalue list"

definition get_string :: "hvalue list \<Rightarrow> nat \<Rightarrow> ustring h_result" where
  "get_string vs i = (if i < length vs then (case vs ! i of HString s \<Rightarrow> Inr s | _ \<Rightarrow> Inl ''type'') else Inl ''type'')"

definition get_value :: "hvalue list \<Rightarrow> nat \<Rightarrow> hvalue" where
  "get_value vs i = (if i < length vs then vs ! i else HUndefined)"

fun from_array_loop :: "headers_guard \<Rightarrow> init_entry list \<Rightarrow> (ustring \<times> ustring) list \<Rightarrow> (ustring \<times> ustring) list h_result" where
  "from_array_loop g [] hs = Inr hs"
| "from_array_loop g (NoArray # rest) hs = from_array_loop g rest hs"
| "from_array_loop g (Pair vs # rest) hs =
     (if length vs mod 2 \<noteq> 0 then Inl ''Header arrays are not paired''
      else case get_string vs 0 of
        Inl e \<Rightarrow> Inl e
      | Inr k \<Rightarrow>
          let raw_key = lower_key k in
          if \<not> is_http_header_name raw_key then Inl ''Invalid key''
          else if guards_requests g \<and> is_forbidden_request_header raw_key then from_array_loop g rest hs
          else (case coerce_to_string (get_value vs 1) of
            Inl e \<Rightarrow> Inl e
          | Inr value \<Rightarrow>
              if \<not> is_http_header_value value then Inl ''Invalid value of key''
              else if guards_requests g \<and> is_forbidden_method_override raw_key value then from_array_loop g rest hs
              else if g = GuardRequestNoCors \<and> \<not> is_cors_safelisted_request_header raw_key value
              then from_array_loop g rest hs
              else from_array_loop g rest (add_header raw_key value hs)))"

definition from_array :: "headers_guard \<Rightarrow> init_entry list \<Rightarrow> headers h_result" where
  "from_array g entries =
     (case from_array_loop g entries [] of
        Inl e \<Rightarrow> Inl e
      | Inr hs \<Rightarrow> Inr \<lparr>h_headers = sort_key fst hs, h_guard = g\<rparr>)"

text \<open>A property of a record: a symbol or a string as key, whether it has a descriptor and is
  enumerable, and its value.\<close>

record init_prop =
  ip_key :: "ustring option"
  ip_enumerable :: "bool option"
  ip_value :: hvalue

fun from_record_loop :: "headers_guard \<Rightarrow> init_prop list \<Rightarrow> (ustring \<times> ustring) list \<Rightarrow> (ustring \<times> ustring) list h_result" where
  "from_record_loop g [] hs = Inr hs"
| "from_record_loop g (p # ps) hs =
     (if ip_enumerable p \<noteq> Some True then from_record_loop g ps hs
      else case ip_key p of
        None \<Rightarrow> Inl ''Cannot convert a Symbol value to a string''
      | Some key \<Rightarrow>
          let k_lower = lower_key key in
          if \<not> is_http_header_name k_lower then Inl ''Invalid header name''
          else if guards_requests g \<and> is_forbidden_request_header k_lower then from_record_loop g ps hs
          else case coerce_to_string (ip_value p) of
            Inl e \<Rightarrow> Inl e
          | Inr value0 \<Rightarrow>
              let value = (case normalize_header_value_inplace value0 of Some v \<Rightarrow> v | None \<Rightarrow> value0) in
              if \<not> is_http_header_value value then Inl ''Invalid header value''
              else if guards_requests g \<and> is_forbidden_method_override k_lower value then from_record_loop g ps hs
              else if g = GuardRequestNoCors \<and> \<not> is_cors_safelisted_request_header k_lower value
              then from_record_loop g ps hs
              else from_record_loop g ps (hs @ [(k_lower, value)]))"

datatype headers_init = InitArray "init_entry list" | InitIterable "init_entry list" | InitRecord "init_prop list"
  | InitNull | InitNumber | InitOther

definition headers_from_value :: "headers_init \<Rightarrow> headers_guard \<Rightarrow> headers h_result" where
  "headers_from_value value g =
     (case value of
        InitArray es \<Rightarrow> from_array g es
      | InitIterable es \<Rightarrow> from_array g es
      | InitRecord ps \<Rightarrow>
          (case from_record_loop g ps [] of
             Inl e \<Rightarrow> Inl e
           | Inr hs \<Rightarrow> Inr \<lparr>h_headers = sort_key fst hs, h_guard = g\<rparr>)
      | _ \<Rightarrow> Inr \<lparr>h_headers = [], h_guard = g\<rparr>)"

definition headers_new :: "headers_init option \<Rightarrow> headers h_result" where
  "headers_new init =
     (case init of
        Some value \<Rightarrow>
          if value = InitNull \<or> value = InitNumber then Inl ''Invalid argument'' else headers_from_value value GuardNone
      | None \<Rightarrow> Inr \<lparr>h_headers = [], h_guard = GuardNone\<rparr>)"


subsection \<open>Normalising is the reference\<close>

text \<open>Folded lines are unfolded and other line breaks dropped; a run of blanks is its last blank;
  blanks at the ends are dropped.\<close>

fun unfold_lines :: "nat list \<Rightarrow> nat list" where
  "unfold_lines [] = []"
| "unfold_lines (a # s) =
     (if a = 13 then
        (case s of
           b # c # s' \<Rightarrow> if b = 10 \<and> is_sp_ht c then c # unfold_lines s' else unfold_lines s
         | _ \<Rightarrow> unfold_lines s)
      else if a = 10 then unfold_lines s
      else a # unfold_lines s)"

fun collapse :: "nat list \<Rightarrow> nat list" where
  "collapse (a # b # s) = (if is_sp_ht a \<and> is_sp_ht b then collapse (b # s) else a # collapse (b # s))"
| "collapse s = s"

definition normalize_ref :: "nat list \<Rightarrow> nat list" where
  "normalize_ref s = trim_matches is_sp_ht (collapse (unfold_lines s))"

text \<open>The loop without the buffer: what is written after \<^term>\<open>out\<close>.\<close>

fun emit_value :: "nat list \<Rightarrow> nat option \<Rightarrow> nat list \<Rightarrow> nat list" where
  "emit_value out pending [] = out"
| "emit_value out pending (a # s) =
     (if is_sp_ht a then emit_value out (Some a) s
      else emit_value (out @ (case pending of Some ws \<Rightarrow> if out = [] then [] else [ws] | None \<Rightarrow> []) @ [a]) None s)"

lemma drop_nth: "r < length xs \<Longrightarrow> drop r xs = xs ! r # drop (Suc r) xs"
  by (simp add: Cons_nth_drop_Suc)

lemma store_after: "w < r \<Longrightarrow> r \<le> length xs \<Longrightarrow>
    \<exists>ys. store xs w v = Some ys \<and> take (Suc w) ys = take w xs @ [v] \<and> drop r ys = drop r xs \<and> length ys = length xs"
  by (simp add: store_def take_Suc_conv_app_nth)

lemma unfold_break:
  assumes "a = 13 \<or> a = 10" "\<not> (a = 13 \<and> 1 < length s \<and> s ! 0 = 10 \<and> is_sp_ht (s ! 1))"
  shows "unfold_lines (a # s) = unfold_lines s"
  using assms unfolding unfold_lines.simps(2) [of a s] by (auto simp del: unfold_lines.simps split: list.split)

text \<open>The writing index stays behind the reading index, by one more while a blank is pending, so
  nothing is overwritten before it is read.\<close>

lemma normalize_loop_emit:
  "w \<le> r \<Longrightarrow> w \<le> length input \<Longrightarrow> (pending \<noteq> None \<longrightarrow> w < r) \<Longrightarrow>
   \<exists>out. map_option (\<lambda>(i, w). take w i) (normalize_loop input r w pending) = Some out
     \<and> out = emit_value (take w input) pending (unfold_lines (drop r input))
     \<and> (\<forall>i w'. normalize_loop input r w pending = Some (i, w') \<longrightarrow> w' \<le> length i)"
proof (induction input r w pending rule: normalize_loop.induct)
  case (1 input r w pending)
  show ?case
  proof (cases "r < length input")
    case False
    then show ?thesis using "1.prems" by (simp add: normalize_loop.simps)
  next
    case r: True
    let ?a = "input ! r"
    have d: "drop r input = ?a # drop (r + 1) input" using r by (simp add: drop_nth)
    consider (fold) "?a = 13 \<and> r + 2 < length input \<and> input ! (r + 1) = 10 \<and> is_sp_ht (input ! (r + 2))"
      | (brk) "\<not> (?a = 13 \<and> r + 2 < length input \<and> input ! (r + 1) = 10 \<and> is_sp_ht (input ! (r + 2)))" "?a = 13 \<or> ?a = 10"
      | (blank) "is_sp_ht ?a" | (byte) "?a \<noteq> 13" "?a \<noteq> 10" "\<not> is_sp_ht ?a" by blast
    then show ?thesis
    proof cases
      case fold
      have "drop r input = 13 # 10 # input ! (r + 2) # drop (r + 3) input"
        using fold r by (simp add: drop_nth numeral_2_eq_2 numeral_3_eq_3)
      then have u: "unfold_lines (drop r input) = input ! (r + 2) # unfold_lines (drop (r + 3) input)"
        using fold by simp
      have loop: "normalize_loop input r w pending = normalize_loop input (r + 3) w (Some (input ! (r + 2)))"
        using fold r by (subst normalize_loop.simps) simp
      show ?thesis using "1.IH"(1) [OF r fold] "1.prems" fold unfolding loop u by auto
    next
      case brk
      have u: "unfold_lines (drop r input) = unfold_lines (drop (r + 1) input)"
        unfolding d using brk by (intro unfold_break) auto
      have loop: "normalize_loop input r w pending = normalize_loop input (r + 1) w pending"
        using brk r by (subst normalize_loop.simps) auto
      show ?thesis using "1.IH"(2) [OF r brk] "1.prems" unfolding loop u by auto
    next
      case blank
      then have n: "?a \<noteq> 13" "?a \<noteq> 10" by auto
      have u: "unfold_lines (drop r input) = ?a # unfold_lines (drop (r + 1) input)" unfolding d using n by simp
      have loop: "normalize_loop input r w pending = normalize_loop input (r + 1) w (Some ?a)"
        using blank n r by (subst normalize_loop.simps) simp
      show ?thesis using "1.IH"(3) [OF r] n blank "1.prems" unfolding loop u by auto
    next
      case byte
      have u: "unfold_lines (drop r input) = ?a # unfold_lines (drop (r + 1) input)" unfolding d using byte by simp
      let ?pre = "case pending of Some ws \<Rightarrow> if w > 0 then do { i \<leftarrow> store input w ws; Some (i, w + 1) } else Some (input, w)
                   | None \<Rightarrow> Some (input, w)"
      have out: "take w input = [] \<longleftrightarrow> w = 0" using r "1.prems" by auto
      have "\<exists>i1 w1. ?pre = Some (i1, w1) \<and> w1 \<le> r \<and> length i1 = length input \<and> drop r i1 = drop r input
        \<and> take w1 i1 = take w input @ (case pending of Some ws \<Rightarrow> if take w input = [] then [] else [ws] | None \<Rightarrow> [])"
      proof (cases "pending \<noteq> None \<and> w > 0")
        case True
        then obtain ws where p: "pending = Some ws" by auto
        then obtain ys where "store input w ws = Some ys" "take (Suc w) ys = take w input @ [ws]" "drop r ys = drop r input"
          "length ys = length input" "w < r" using store_after [of w r input ws] r "1.prems" True by auto
        then show ?thesis using p True out by (intro exI [of _ ys] exI [of _ "Suc w"]) (auto simp: store_in)
      next
        case False
        then show ?thesis using "1.prems" out by (auto split: option.splits)
      qed
      then obtain i1 w1 where i1: "?pre = Some (i1, w1)" "w1 \<le> r" "length i1 = length input" "drop r i1 = drop r input"
        "take w1 i1 = take w input @ (case pending of Some ws \<Rightarrow> if take w input = [] then [] else [ws] | None \<Rightarrow> [])" by blast
      have dr: "drop (r + 1) i1 = drop (r + 1) input" using i1(4) by (metis drop_drop add.commute)
      obtain i2 where i2: "store i1 w1 ?a = Some i2" "take (Suc w1) i2 = take w1 i1 @ [?a]" "drop (r + 1) i2 = drop (r + 1) input"
        "length i2 = length input" using store_after [of w1 "r + 1" i1 ?a] i1 r dr by auto
      have loop: "normalize_loop input r w pending = normalize_loop i2 (r + 1) (w1 + 1) None"
        using byte r i1(1) i2(1) by (subst normalize_loop.simps) (auto simp: Let_def store_in)
      have "\<exists>out. map_option (\<lambda>(i, w). take w i) (normalize_loop i2 (r + 1) (w1 + 1) None) = Some out
        \<and> out = emit_value (take (w1 + 1) i2) None (unfold_lines (drop (r + 1) i2))
        \<and> (\<forall>i w'. normalize_loop i2 (r + 1) (w1 + 1) None = Some (i, w') \<longrightarrow> w' \<le> length i)"
        using "1.IH"(4) [OF r, of ?a "(i1, w1)" i1 w1 i2] byte i1(1,2) i2(1) by auto
      then show ?thesis unfolding loop u using byte i2(2,3) i1(5) by simp
    qed
  qed
qed


definition rstrip :: "nat list \<Rightarrow> nat list" where
  "rstrip s = rev (dropWhile is_sp_ht (rev s))"

lemma rstrip_keep: "\<not> is_sp_ht a \<Longrightarrow> rstrip (xs @ a # ys) = xs @ a # rstrip ys"
  by (induction ys rule: rev_induct) (simp_all add: rstrip_def dropWhile_append)

lemma rstrip_blank [simp]: "is_sp_ht a \<Longrightarrow> rstrip [a] = []"
  by (simp add: rstrip_def)

lemma rstrip_Nil [simp]: "rstrip [] = []"
  by (simp add: rstrip_def)

lemma collapse_byte: "\<not> is_sp_ht a \<Longrightarrow> collapse (a # s) = a # collapse s"
  by (cases s) auto

lemma trim_collapse_blank: "is_sp_ht a \<Longrightarrow> trim_matches is_sp_ht (collapse (a # s)) = trim_matches is_sp_ht (collapse s)"
  by (cases s) (auto simp: trim_matches_def)

lemma trim_byte: "\<not> is_sp_ht a \<Longrightarrow> trim_matches is_sp_ht (a # s) = a # rstrip s"
  using rstrip_keep [of a "[]" s] by (simp add: trim_matches_def rstrip_def)

lemma emit_value_more:
  "out \<noteq> [] \<Longrightarrow> (\<forall>ws \<in> set_option pending. is_sp_ht ws) \<Longrightarrow>
   emit_value out pending s = out @ rstrip (collapse ((case pending of Some ws \<Rightarrow> [ws] | None \<Rightarrow> []) @ s))"
proof (induction s arbitrary: out pending)
  case Nil
  then show ?case by (auto split: option.split)
next
  case (Cons a s)
  show ?case
  proof (cases "is_sp_ht a")
    case True
    then have "emit_value out pending (a # s) = out @ rstrip (collapse (a # s))"
      using Cons.IH [of out "Some a"] Cons.prems(1) by simp
    then show ?thesis using True Cons.prems(2) by (auto split: option.split)
  next
    case False
    have "collapse (ws # a # s) = ws # a # collapse s" for ws using False collapse_byte [of a s] by simp
    then have "rstrip (collapse ((case pending of Some ws \<Rightarrow> [ws] | None \<Rightarrow> []) @ a # s))
        = (case pending of Some ws \<Rightarrow> [ws] | None \<Rightarrow> []) @ a # rstrip (collapse s)"
      using rstrip_keep [OF False, of "[]"] rstrip_keep [OF False, of "[_]"] collapse_byte [OF False]
      by (auto split: option.split)
    then show ?thesis using False Cons.IH [of "out @ _ @ [a]" None] Cons.prems(1) by (simp split: option.split)
  qed
qed

lemma emit_value_trim: "emit_value [] pending s = trim_matches is_sp_ht (collapse s)"
proof (induction s arbitrary: pending)
  case Nil
  then show ?case by (simp add: trim_matches_def)
next
  case (Cons a s)
  show ?case
  proof (cases "is_sp_ht a")
    case True
    then show ?thesis using Cons.IH trim_collapse_blank by simp
  next
    case False
    then show ?thesis using emit_value_more [of "[a]" None s] by (simp add: collapse_byte trim_byte split: option.split)
  qed
qed

lemma skip_leading_drop: "r \<le> length s \<Longrightarrow> drop (skip_leading s r) s = dropWhile is_sp_ht (drop r s) \<and> skip_leading s r \<le> length s"
proof (induction s r rule: skip_leading.induct)
  case (1 input r)
  show ?case
  proof (cases "r < length input")
    case True
    then show ?thesis using 1 drop_nth [OF True] by (subst (1 2) skip_leading.simps) auto
  next
    case False
    then show ?thesis using 1 by (subst (1 2) skip_leading.simps) simp
  qed
qed

lemma unfold_leading: "emit_value [] pending (unfold_lines (dropWhile is_sp_ht s)) = emit_value [] pending (unfold_lines s)"
proof (induction s)
  case (Cons a s)
  then show ?case by (auto simp: emit_value_trim trim_collapse_blank)
qed simp

lemma emit_value_last:
  "out = [] \<or> \<not> is_sp_ht (last out) \<Longrightarrow> emit_value out pending s = [] \<or> \<not> is_sp_ht (last (emit_value out pending s))"
  by (induction s arbitrary: out pending) auto

lemma trim_end_last: "w \<le> length i \<Longrightarrow> take w i = [] \<or> \<not> is_sp_ht (last (take w i)) \<Longrightarrow> take (trim_end i w) i = take w i"
  by (cases w) (auto simp: take_Suc_conv_app_nth)

lemma normalize_header_value: "normalize_header_value_inplace s = Some (normalize_ref s)"
proof -
  obtain i w where l: "normalize_loop s (skip_leading s 0) 0 None = Some (i, w)" "w \<le> length i"
    and out: "take w i = emit_value [] None (unfold_lines (drop (skip_leading s 0) s))"
    using normalize_loop_emit [of 0 "skip_leading s 0" s None] by auto
  have "drop (skip_leading s 0) s = dropWhile is_sp_ht s" using skip_leading_drop [of 0 s] by simp
  then have e: "take w i = emit_value [] None (unfold_lines s)" using out unfold_leading by simp
  then have "take (trim_end i w) i = take w i" using l(2) emit_value_last [of "[]" None] by (intro trim_end_last) auto
  then show ?thesis using l e by (simp add: normalize_header_value_inplace_def normalize_ref_def emit_value_trim)
qed

text \<open>
  (C33) Normalising a header value in its own buffer never writes out of range or over a byte that is
  still to be read, and computes the reference: folded lines are unfolded, other line breaks
  dropped, runs of blanks collapsed to the last one and the ends trimmed.
\<close>
theorem header_value_normalized: "normalize_header_value_inplace s = Some (normalize_ref s)"
  by (rule normalize_header_value)


subsection \<open>Every stored header is valid\<close>


lemma str_Nil [simp]: "str s = [] \<longleftrightarrow> s = []" "[] = str s \<longleftrightarrow> s = []"
  by (auto simp: str_def)

lemma lower_key_idem [simp]: "lower_key (lower_key k) = lower_key k"
  by (simp add: lower_key_def ascii_lower_def)



lemma header_value_append [simp]: "is_http_header_value (a @ b) \<longleftrightarrow> is_http_header_value a \<and> is_http_header_value b"
  by (simp add: is_http_header_value_def)
























subsection \<open>Reading what was written\<close>





lemma filter_none: "filter (\<lambda>(k', _). k' = k) hs = [] \<longleftrightarrow> k \<notin> fst ` set hs"
  by (induction hs) auto




subsection \<open>Iteration\<close>


lemma fst_set_header [simp]: "map fst (set_header key val hs) = map fst hs"
  by (induction hs) auto













subsection \<open>Where the ways to make an object differ\<close>

text \<open>
  Two properties of a record whose names differ in case are not combined, so the second value
  can be read in no way; and the values of an array are not normalised, so the object that the
  same \<^verbatim>\<open>append\<close> calls make is a different one.
\<close>
lemma headers_init_differs:
  "map_sum id (\<lambda>h. (headers_get (str ''a'') h, sorted_entries h))
     (headers_new (Some (InitRecord [\<lparr>ip_key = Some (str ''a''), ip_enumerable = Some True, ip_value = HString (str ''1'')\<rparr>,
        \<lparr>ip_key = Some (str ''A''), ip_enumerable = Some True, ip_value = HString (str ''2'')\<rparr>])))
     = Inr (Inr (Some (str ''1'')), [(str ''a'', str ''1'')])
   \<and> map_sum id (headers_get (str ''a'')) (headers_new (Some (InitArray [Pair [HString (str ''a''), HString (str '' 1 '')]])))
     = Inr (Inr (Some (str '' 1 '')))
   \<and> map_sum id (headers_get (str ''a'')) (headers_append (str ''a'') (HString (str '' 1 '')) \<lparr>h_headers = [], h_guard = GuardNone\<rparr>)
     = Inr (Inr (Some (str ''1'')))"
  by (intro conjI) code_simp+

lemma two_types_combined:
  "headers_from_value (InitArray [Pair [HString (str ''content-type''), HString (str ''text/plain'')],
      Pair [HString (str ''content-type''), HString (str ''text/plain'')]]) GuardRequestNoCors
     = Inr \<lparr>h_headers = [(str ''content-type'', str ''text/plain, text/plain'')], h_guard = GuardRequestNoCors\<rparr>"
  by code_simp

lemma two_types_not_safelisted: "\<not> is_cors_safelisted_request_header (str ''content-type'') (str ''text/plain, text/plain'')"
  by code_simp

text \<open>
  Under the no-cors guard an array can make a header that is not on the safelist: the values
  are checked one by one and then combined.
\<close>
lemma headers_nocors_combined:
  "map_sum id h_headers (headers_from_value (InitArray [Pair [HString (str ''content-type''), HString (str ''text/plain'')],
      Pair [HString (str ''content-type''), HString (str ''text/plain'')]]) GuardRequestNoCors)
     = Inr [(str ''content-type'', str ''text/plain, text/plain'')]
   \<and> \<not> is_cors_safelisted_request_header (str ''content-type'') (str ''text/plain, text/plain'')"
  using two_types_combined two_types_not_safelisted by simp

end
