(* ===== verification/Timers.thy ===== *)
theory Timers
  imports Float64 "HOL-Library.Multiset"
begin

text \<open>
  \<^verbatim>\<open>modules/llrt_timers/src/lib.rs\<close>: timeouts, intervals and immediates.  Instants are integers, in
  nanoseconds since the runtime was started.  The global vector holds one state per runtime and every
  access finds the one of its own runtime; this is the state of one runtime, with the tasks that
  wait for it: each has the instant its sleep ends, or none when it has finished.  The permit
  of the \<^verbatim>\<open>Notify\<close> the tasks wait on is a flag.

  A timer's callback and the pending jobs are JavaScript; they may set and clear timers, let time
  pass and, through \<^verbatim>\<open>require\<close>, poll the timers again.  The order \<^verbatim>\<open>sort_unstable_by_key\<close> gives equal
  keys is not specified: the sorting function is an argument.
\<close>

abbreviation ms :: int where "ms \<equiv> 1000000"
abbreviation sec :: int where "sec \<equiv> 1000 * ms"

record timeout =
  tm_callback :: "nat option"
  tm_deadline :: int
  tm_id :: nat
  tm_repeating :: bool
  tm_interval :: nat

record timer_state =
  ts_timers :: "timeout list"
  ts_running :: bool
  ts_deadline :: int
  ts_notified :: bool
  ts_tasks :: "int option list"
  ts_now :: int
  ts_next_id :: nat
  ts_log :: "nat list"

datatype provider = ImmediateProvider | TimeoutProvider | IntervalProvider

definition state_new :: "int \<Rightarrow> timer_state" where
  "state_new now =
     \<lparr>ts_timers = [], ts_running = False, ts_deadline = now + 86400 * 365 * 30 * sec, ts_notified = False,
      ts_tasks = [], ts_now = now, ts_next_id = 0, ts_log = []\<rparr>"

text \<open>\<^verbatim>\<open>x as u64\<close> rounds towards zero and saturates, and NaN gives zero; the maximum of a NaN and
  zero is zero.\<close>

fun f64_as_u64 :: "f64 \<Rightarrow> nat" where
  "f64_as_u64 NaN = 0"
| "f64_as_u64 (Infinity negative) = (if negative then 0 else 2 ^ 64 - 1)"
| "f64_as_u64 (Fin x) = (if x < 0 then 0 else min (nat \<lfloor>x\<rfloor>) (2 ^ 64 - 1))"

definition delay_of :: "f64 option \<Rightarrow> nat" where
  "delay_of delay =
     (let d = (case delay of None \<Rightarrow> Fin 0 | Some d \<Rightarrow> d)
      in f64_as_u64 (if d = NaN \<or> f64_lt d (Fin 0) then Fin 0 else d))"

definition timer_deadline :: "provider \<Rightarrow> nat \<Rightarrow> int \<Rightarrow> bool \<times> int" where
  "timer_deadline p delay now =
     (case p of
        ImmediateProvider \<Rightarrow> (False, now - 600 * sec)
      | TimeoutProvider \<Rightarrow> (False, now + int delay * ms)
      | IntervalProvider \<Rightarrow> (True, now + int delay * ms))"

definition create_spawn_loop :: "int \<Rightarrow> timer_state \<Rightarrow> timer_state" where
  "create_spawn_loop deadline s = s\<lparr>ts_tasks := ts_tasks s @ [Some deadline]\<rparr>"

definition set_timeout_interval :: "nat \<Rightarrow> nat \<Rightarrow> provider \<Rightarrow> timer_state \<Rightarrow> nat \<times> timer_state" where
  "set_timeout_interval cb delay p s =
     (let (repeating, deadline) = timer_deadline p delay (ts_now s);
          id' = ts_next_id s;
          timeout = \<lparr>tm_callback = Some cb, tm_deadline = deadline, tm_id = id', tm_repeating = repeating, tm_interval = delay\<rparr>;
          s1 = s\<lparr>ts_next_id := id' + 1, ts_timers := ts_timers s @ [timeout]\<rparr>
      in (id', if ts_running s1
               then if deadline < ts_deadline s1 then s1\<lparr>ts_deadline := deadline, ts_notified := True\<rparr> else s1
               else create_spawn_loop deadline (s1\<lparr>ts_running := True\<rparr>)))"

fun clear_first :: "nat \<Rightarrow> int \<Rightarrow> timeout list \<Rightarrow> timeout list option" where
  "clear_first i now [] = None"
| "clear_first i now (t # ts) =
     (if tm_id t = i
      then Some (t\<lparr>tm_callback := None, tm_repeating := False, tm_deadline := now - 1 * sec\<rparr> # ts)
      else map_option ((#) t) (clear_first i now ts))"

text \<open>The argument is nothing unless it is a number.\<close>

definition clear_timeout_interval :: "f64 option \<Rightarrow> timer_state \<Rightarrow> timer_state" where
  "clear_timeout_interval i s =
     (case i of
        None \<Rightarrow> s
      | Some x \<Rightarrow>
          (case clear_first (f64_as_u64 x) (ts_now s) (ts_timers s) of
             None \<Rightarrow> s
           | Some ts \<Rightarrow> s\<lparr>ts_timers := ts, ts_notified := True\<rparr>))"

subsection \<open>Polling\<close>

abbreviation MIN_SLEEP :: int where "MIN_SLEEP \<equiv> 4 * ms"
abbreviation FAR_FUTURE :: int where "FAR_FUTURE \<equiv> 84200 * 365 * 30 * sec"

text \<open>\<^verbatim>\<open>retain_mut\<close>: the timers that stay, the calls to make with their keys, and the lowest deadline.\<close>

fun retain_timers :: "int \<Rightarrow> timeout list \<Rightarrow> int \<Rightarrow> timeout list \<times> (int \<times> nat) list \<times> int" where
  "retain_timers now [] lowest = ([], [], lowest)"
| "retain_timers now (t # ts) lowest =
     (if tm_deadline t < now then
        (case tm_callback t of
           Some cb \<Rightarrow>
             if \<not> tm_repeating t then
               (let (kept, calls, low) = retain_timers now ts lowest in (kept, (tm_deadline t, cb) # calls, low))
             else
               (let d = now + int (tm_interval t) * ms;
                    (kept, calls, low) = retain_timers now ts (if d < lowest then d else lowest)
                in (t\<lparr>tm_deadline := d\<rparr> # kept, (d, cb) # calls, low))
         | None \<Rightarrow> retain_timers now ts lowest)
      else
        (let (kept, calls, low) = retain_timers now ts (if tm_deadline t < lowest then tm_deadline t else lowest)
         in (t # kept, calls, low)))"

text \<open>The caller is a task, whose sleep is set, or \<^verbatim>\<open>require\<close>.\<close>

definition collect :: "nat option \<Rightarrow> timer_state \<Rightarrow> bool \<times> (int \<times> nat) list \<times> timer_state" where
  "collect task s =
     (let now = ts_now s;
          had_items = (ts_timers s \<noteq> []);
          (kept, calls, lowest) = retain_timers now (ts_timers s) (now + FAR_FUTURE);
          s1 = s\<lparr>ts_timers := kept\<rparr>;
          low = (if lowest - now < MIN_SLEEP then now + MIN_SLEEP else lowest)
      in (kept \<noteq> [], calls,
          if had_items
          then s1\<lparr>ts_deadline := low,
                  ts_tasks := (case task of Some i \<Rightarrow> (ts_tasks s1)[i := Some low] | None \<Rightarrow> ts_tasks s1)\<rparr>
          else s1))"

datatype js_call = CallTimer nat | PendingJobs

type_synonym timer_user = "js_call \<Rightarrow> timer_state \<Rightarrow> bool \<times> timer_state"
type_synonym sorter = "(int \<times> nat) list \<Rightarrow> (int \<times> nat) list"

text \<open>Pending jobs run before the first callback and after each; their exceptions are not reported
  here.  A callback that throws ends the loop.\<close>

fun run_calls :: "timer_user \<Rightarrow> bool \<Rightarrow> (int \<times> nat) list \<Rightarrow> timer_state \<Rightarrow> bool \<times> timer_state" where
  "run_calls u is_first [] s = (True, s)"
| "run_calls u is_first ((_, cb) # calls) s =
     (let s1 = (if is_first then snd (u PendingJobs s) else s);
          (ok, s2) = u (CallTimer cb) (s1\<lparr>ts_log := ts_log s1 @ [cb]\<rparr>)
      in if ok then run_calls u False calls (snd (u PendingJobs s2)) else (False, s2))"

definition poll_timers :: "sorter \<Rightarrow> timer_user \<Rightarrow> nat option \<Rightarrow> timer_state \<Rightarrow> bool option \<times> timer_state" where
  "poll_timers srt u task s =
     (let (has_items, calls, s1) = collect task s;
          (ok, s2) = run_calls u True (srt calls) s1
      in if \<not> ok then (None, s2)
         else if \<not> has_items
         then (let is_empty = (ts_timers s2 = []) in (Some (\<not> is_empty), s2\<lparr>ts_running := \<not> is_empty\<rparr>))
         else (Some True, s2))"

text \<open>One turn of the loop of a task: it wakes by the permit, which it takes, or at the end of its sleep.
  A failed poll ends the process.\<close>

definition task_turn :: "sorter \<Rightarrow> timer_user \<Rightarrow> nat \<Rightarrow> bool \<Rightarrow> timer_state \<Rightarrow> timer_state option" where
  "task_turn srt u i by_permit s =
     (if i < length (ts_tasks s) \<and> ts_tasks s ! i \<noteq> None
         \<and> (if by_permit then ts_notified s else the (ts_tasks s ! i) \<le> ts_now s)
      then
        (let (r, s1) = poll_timers srt u (Some i) (if by_permit then s\<lparr>ts_notified := False\<rparr> else s)
         in case r of
              None \<Rightarrow> None
            | Some goes_on \<Rightarrow> Some (if goes_on then s1 else s1\<lparr>ts_tasks := (ts_tasks s1)[i := None]\<rparr>))
      else Some s)"

subsection \<open>Programs\<close>

text \<open>What a program reads from a call: the id of the timer, or whether the poll in \<^verbatim>\<open>require\<close> threw.\<close>

datatype timer_op = SetTimer nat "f64 option" provider | ClearTimer "f64 option" | Elapse nat | RequirePoll

datatype timer_code = Done bool | Then timer_op "nat \<Rightarrow> timer_code"

definition timer_api :: "sorter \<Rightarrow> timer_user \<Rightarrow> timer_op \<Rightarrow> timer_state \<Rightarrow> nat \<times> timer_state" where
  "timer_api srt u x s =
     (case x of
        SetTimer cb delay p \<Rightarrow> set_timeout_interval cb (delay_of delay) p s
      | ClearTimer i \<Rightarrow> (0, clear_timeout_interval i s)
      | Elapse n \<Rightarrow> (0, s\<lparr>ts_now := ts_now s + int n\<rparr>)
      | RequirePoll \<Rightarrow> (case poll_timers srt u None s of (r, s1) \<Rightarrow> (if r = None then 1 else 0, s1)))"

primrec timer_run_code :: "sorter \<Rightarrow> timer_user \<Rightarrow> timer_code \<Rightarrow> timer_state \<Rightarrow> bool \<times> timer_state" where
  "timer_run_code srt u (Done ok) s = (ok, s)"
| "timer_run_code srt u (Then x k) s =
     (case timer_api srt u x s of (r, s1) \<Rightarrow> timer_run_code srt u (k r) s1)"

fun timer_cb :: "sorter \<Rightarrow> (js_call \<Rightarrow> timer_code) \<Rightarrow> nat \<Rightarrow> timer_user" where
  "timer_cb srt prog 0 c s = (False, s)"
| "timer_cb srt prog (Suc n) c s = timer_run_code srt (timer_cb srt prog n) (prog c) s"

datatype timer_event = Program timer_op | Turn nat bool

fun timer_step :: "sorter \<Rightarrow> timer_user \<Rightarrow> timer_event \<Rightarrow> timer_state \<Rightarrow> timer_state option" where
  "timer_step srt u (Program x) s = Some (snd (timer_api srt u x s))"
| "timer_step srt u (Turn i by_permit) s = task_turn srt u i by_permit s"

fun timer_run :: "sorter \<Rightarrow> timer_user \<Rightarrow> timer_event list \<Rightarrow> timer_state \<Rightarrow> timer_state option" where
  "timer_run srt u [] s = Some s"
| "timer_run srt u (e # es) s = (case timer_step srt u e s of None \<Rightarrow> None | Some s1 \<Rightarrow> timer_run srt u es s1)"

subsection \<open>No wake-up is lost\<close>

text \<open>Up to the horizon \<^term>\<open>FAR_FUTURE\<close> after the start, some waiting task wakes in time for every timer:
  the permit is there, or a sleep ends no later than the timer's deadline or the least sleep from now.\<close>

definition in_time :: "timer_state \<Rightarrow> int \<Rightarrow> bool" where
  "in_time s d \<longleftrightarrow>
     ts_notified s \<or> (\<exists>sl. Some sl \<in> set (ts_tasks s) \<and> sl \<le> max d (ts_now s + MIN_SLEEP)) \<or> FAR_FUTURE \<le> d"

definition timer_inv :: "timer_state \<Rightarrow> bool" where
  "timer_inv s \<longleftrightarrow>
     0 \<le> ts_now s \<and> (ts_timers s \<noteq> [] \<longrightarrow> ts_running s) \<and> (ts_running s \<longrightarrow> (\<exists>sl. Some sl \<in> set (ts_tasks s)))
   \<and> (\<forall>t \<in> set (ts_timers s). in_time s (tm_deadline t)) \<and> in_time s (ts_deadline s)
   \<and> (ts_timers s = [] \<longrightarrow> FAR_FUTURE \<le> ts_deadline s)"

lemma in_time_later: "in_time s d \<Longrightarrow> d \<le> d' \<Longrightarrow> in_time s d'"
  by (fastforce simp: in_time_def)

lemma timer_inv_start: "0 \<le> now \<Longrightarrow> timer_inv (state_new now)"
  by (simp add: timer_inv_def state_new_def in_time_def)

lemma set_timeout_inv:
  assumes "timer_inv s"
  shows "timer_inv (snd (set_timeout_interval cb delay p s))"
proof -
  obtain rep d where d: "timer_deadline p delay (ts_now s) = (rep, d)" by fastforce
  show ?thesis
  proof (cases "ts_running s")
    case True
    have "in_time s d" if "\<not> d < ts_deadline s" using assms that in_time_later [of s "ts_deadline s" d] by (simp add: timer_inv_def)
    then show ?thesis using assms True d
      by (auto simp: set_timeout_interval_def timer_inv_def in_time_def Let_def)
  next
    case False
    then have "ts_timers s = []" "FAR_FUTURE \<le> ts_deadline s" using assms by (auto simp: timer_inv_def)
    then show ?thesis using assms False d
      by (auto simp: set_timeout_interval_def create_spawn_loop_def timer_inv_def in_time_def Let_def)
  qed
qed

lemma clear_first_nonempty: "clear_first i now ts = Some ts' \<Longrightarrow> ts' \<noteq> [] \<and> ts \<noteq> []"
  by (cases ts) (auto split: if_splits)

lemma clear_timeout_inv: "timer_inv s \<Longrightarrow> timer_inv (clear_timeout_interval i s)"
  using clear_first_nonempty
  by (auto simp: clear_timeout_interval_def timer_inv_def in_time_def split: option.splits)


lemma retain_timers_low:
  "retain_timers now ts lowest = (kept, calls, low) \<Longrightarrow>
   low \<le> lowest \<and> (\<forall>t \<in> set kept. low \<le> tm_deadline t) \<and> (low = lowest \<or> (\<exists>t \<in> set kept. low = tm_deadline t))"
proof (induction now ts lowest arbitrary: kept calls low rule: retain_timers.induct)
  case (2 now t ts lowest)
  then show ?case by (fastforce simp: Let_def split: if_splits option.splits prod.splits)
qed simp

lemma retain_timers_kept:
  "retain_timers now ts lowest = (kept, calls, low) \<Longrightarrow> t' \<in> set kept \<Longrightarrow>
   \<exists>t \<in> set ts. t' = t \<or> tm_deadline t < now \<and> now \<le> tm_deadline t'"
proof (induction now ts lowest arbitrary: kept calls low rule: retain_timers.induct)
  case (2 now t ts lowest)
  then show ?case by (fastforce simp: Let_def split: if_splits option.splits prod.splits)
qed simp

text \<open>What holds before the collection; a task may just have taken the permit.\<close>

definition poll_ready :: "nat option \<Rightarrow> timer_state \<Rightarrow> bool" where
  "poll_ready task s \<longleftrightarrow>
     0 \<le> ts_now s \<and> (ts_timers s \<noteq> [] \<longrightarrow> ts_running s) \<and> (ts_running s \<longrightarrow> (\<exists>sl. Some sl \<in> set (ts_tasks s)))
   \<and> (ts_timers s = [] \<longrightarrow> FAR_FUTURE \<le> ts_deadline s)
   \<and> (case task of None \<Rightarrow> timer_inv s | Some i \<Rightarrow> i < length (ts_tasks s) \<and> ts_tasks s ! i \<noteq> None)"

lemma collect_inv:
  assumes ready: "poll_ready task s" and c: "collect task s = (has_items, calls, s1)"
  shows "timer_inv s1 \<and> (has_items = (ts_timers s1 \<noteq> [])) \<and> length (ts_tasks s1) = length (ts_tasks s)"
proof -
  let ?now = "ts_now s"
  obtain kept calls' low where r: "retain_timers ?now (ts_timers s) (?now + FAR_FUTURE) = (kept, calls', low)"
    by (metis prod_cases3)
  note low = retain_timers_low [OF r] and kept = retain_timers_kept [OF r]
  have pos: "0 \<le> ?now" using ready by (simp add: poll_ready_def)
  show ?thesis
  proof (cases "ts_timers s = []")
    case True
    then show ?thesis using c r ready by (auto simp: collect_def Let_def poll_ready_def timer_inv_def in_time_def)
  next
    case False
    define nl where "nl = max low (?now + MIN_SLEEP)"
    have nl: "low - ?now < MIN_SLEEP \<Longrightarrow> nl = ?now + MIN_SLEEP" "\<not> low - ?now < MIN_SLEEP \<Longrightarrow> nl = low"
      by (simp_all add: nl_def)
    have s1: "ts_timers s1 = kept" "ts_deadline s1 = nl" "ts_notified s1 = ts_notified s" "ts_now s1 = ?now"
      "ts_running s1 = ts_running s" "has_items = (kept \<noteq> [])"
      "ts_tasks s1 = (case task of Some i \<Rightarrow> (ts_tasks s)[i := Some nl] | None \<Rightarrow> ts_tasks s)"
      using c r False by (auto simp: collect_def Let_def nl split: option.split if_splits)
    have run: "ts_running s" using False ready by (simp add: poll_ready_def)
    have far: "FAR_FUTURE \<le> nl" if "kept = []" using low that pos by (auto simp: nl_def)
    have "in_time s1 (tm_deadline t) \<and> (\<exists>sl. Some sl \<in> set (ts_tasks s1)) \<and> in_time s1 (ts_deadline s1)" if "t \<in> set kept" for t
    proof (cases task)
      case (Some i)
      then have "i < length (ts_tasks s)" using ready by (simp add: poll_ready_def)
      then have "Some nl \<in> set (ts_tasks s1)" using Some by (auto simp: s1 set_update_memI)
      moreover have "nl \<le> max (tm_deadline t) (?now + MIN_SLEEP)" using low that by (auto simp: nl_def)
      ultimately show ?thesis unfolding in_time_def s1(2,4) by (meson max.cobounded1)
    next
      case None
      then have inv: "timer_inv s" using ready by (simp add: poll_ready_def)
      have same: "in_time s1 d = in_time s d" for d using None by (simp add: in_time_def s1)
      have k: "in_time s (tm_deadline t')" if t': "t' \<in> set kept" for t'
      proof -
        obtain t where t: "t \<in> set (ts_timers s)" "t' = t \<or> tm_deadline t < ?now \<and> ?now \<le> tm_deadline t'" using kept [OF t'] by blast
        then have "in_time s (tm_deadline t)" using inv by (simp add: timer_inv_def)
        then show ?thesis using t(2) in_time_later [of s "tm_deadline t" "tm_deadline t'"] by auto
      qed
      have "in_time s nl"
      proof (cases "low = ?now + FAR_FUTURE")
        case True
        then show ?thesis using pos by (simp add: in_time_def nl_def)
      next
        case False
        then obtain t' where "t' \<in> set kept" "low = tm_deadline t'" using low by auto
        then have "in_time s low" using k by simp
        then show ?thesis by (rule in_time_later) (simp add: nl_def)
      qed
      then show ?thesis using k that same run ready None by (auto simp: s1 poll_ready_def)
    qed
    moreover have "in_time s1 nl" if "kept = []" using far [OF that] by (simp add: in_time_def)
    moreover have "\<exists>sl. Some sl \<in> set (ts_tasks s1)" if "kept = []"
      using run ready by (cases task) (auto simp: s1 poll_ready_def intro!: exI [of _ nl] set_update_memI)
    moreover have "length (ts_tasks s1) = length (ts_tasks s)" by (simp add: s1(7) split: option.split)
    ultimately show ?thesis using run pos far s1(1-6) by (cases kept) (auto simp: timer_inv_def)
  qed
qed

locale timer_program =
  fixes u :: timer_user
  assumes call_inv: "timer_inv s \<Longrightarrow> timer_inv (snd (u c s)) \<and> length (ts_tasks s) \<le> length (ts_tasks (snd (u c s)))"
begin

lemma run_calls_inv:
  "timer_inv s \<Longrightarrow> timer_inv (snd (run_calls u is_first calls s))
    \<and> length (ts_tasks s) \<le> length (ts_tasks (snd (run_calls u is_first calls s)))"
proof (induction calls arbitrary: is_first s)
  case (Cons c calls)
  obtain k cb where c: "c = (k, cb)" by fastforce
  define s1 where "s1 = (if is_first then snd (u PendingJobs s) else s)"
  have s1: "timer_inv s1" "length (ts_tasks s) \<le> length (ts_tasks s1)" using call_inv Cons.prems by (auto simp: s1_def)
  define s1' where "s1' = s1\<lparr>ts_log := ts_log s1 @ [cb]\<rparr>"
  have "timer_inv s1'" "ts_tasks s1' = ts_tasks s1" using s1(1) by (simp_all add: s1'_def timer_inv_def in_time_def)
  moreover obtain ok s2 where s2: "u (CallTimer cb) s1' = (ok, s2)" by fastforce
  ultimately have s2i: "timer_inv s2" "length (ts_tasks s1) \<le> length (ts_tasks s2)"
    using call_inv [of s1' "CallTimer cb"] by auto
  show ?case
    using s1 s2 s2i call_inv [of s2 PendingJobs] Cons.IH [of "snd (u PendingJobs s2)" False]
    by (auto simp: c Let_def s1_def [symmetric] s1'_def [symmetric])
qed simp

lemma poll_timers_inv:
  assumes ready: "poll_ready task s" and p: "poll_timers srt u task s = (r, s')"
  shows "timer_inv s' \<and> length (ts_tasks s) \<le> length (ts_tasks s') \<and> (r = Some False \<longrightarrow> ts_timers s' = [] \<and> \<not> ts_running s')"
proof -
  obtain has_items calls s1 where c: "collect task s = (has_items, calls, s1)" by (metis prod_cases3)
  obtain ok s2 where s2: "run_calls u True (srt calls) s1 = (ok, s2)" by fastforce
  have "timer_inv s2" "length (ts_tasks s) \<le> length (ts_tasks s2)"
    using collect_inv [OF ready c] run_calls_inv [of s1 True "srt calls"] by (auto simp: s2)
  moreover from this have "timer_inv (s2\<lparr>ts_running := ts_timers s2 \<noteq> []\<rparr>)" by (auto simp: timer_inv_def in_time_def)
  ultimately show ?thesis using p by (auto simp: poll_timers_def c s2 Let_def split: if_splits)
qed

lemma task_turn_inv:
  assumes inv: "timer_inv s" and t: "task_turn srt u i by_permit s = Some s'"
  shows "timer_inv s'"
proof (cases "i < length (ts_tasks s) \<and> ts_tasks s ! i \<noteq> None \<and> (if by_permit then ts_notified s else the (ts_tasks s ! i) \<le> ts_now s)")
  case True
  define s0 where "s0 = (if by_permit then s\<lparr>ts_notified := False\<rparr> else s)"
  have "poll_ready (Some i) s0" using inv True by (auto simp: poll_ready_def timer_inv_def s0_def)
  moreover obtain r s1 where p: "poll_timers srt u (Some i) s0 = (r, s1)" by fastforce
  ultimately have s1: "timer_inv s1" "r = Some False \<longrightarrow> ts_timers s1 = [] \<and> \<not> ts_running s1"
    using poll_timers_inv by blast+
  then show ?thesis using t True p
    by (auto simp: task_turn_def s0_def timer_inv_def in_time_def split: option.splits if_splits)
next
  case False
  then show ?thesis using t inv by (auto simp: task_turn_def split: if_splits)
qed

lemma timer_api_inv:
  assumes "timer_inv s"
  shows "timer_inv (snd (timer_api srt u x s)) \<and> length (ts_tasks s) \<le> length (ts_tasks (snd (timer_api srt u x s)))"
proof (cases x)
  case (SetTimer cb delay p)
  then show ?thesis using set_timeout_inv [OF assms]
    by (auto simp: timer_api_def set_timeout_interval_def create_spawn_loop_def Let_def split: prod.split)
next
  case (ClearTimer i)
  then show ?thesis using clear_timeout_inv [OF assms]
    by (auto simp: timer_api_def clear_timeout_interval_def split: option.split)
next
  case (Elapse n)
  then show ?thesis using assms by (fastforce simp: timer_api_def timer_inv_def in_time_def)
next
  case RequirePoll
  have "poll_ready None s" using assms by (simp add: poll_ready_def timer_inv_def)
  then show ?thesis using poll_timers_inv [of None s srt "fst (poll_timers srt u None s)" "snd (poll_timers srt u None s)"]
    by (simp add: RequirePoll timer_api_def split_beta)
qed

lemma timer_run_code_inv:
  "timer_inv s \<Longrightarrow> timer_inv (snd (timer_run_code srt u c s)) \<and> length (ts_tasks s) \<le> length (ts_tasks (snd (timer_run_code srt u c s)))"
proof (induction c arbitrary: s)
  case (Then x k)
  obtain r s1 where a: "timer_api srt u x s = (r, s1)" by fastforce
  have "timer_inv s1" "length (ts_tasks s) \<le> length (ts_tasks s1)" using timer_api_inv [OF Then.prems, of srt x] by (auto simp: a)
  then show ?case using Then.IH [of "k r" s1] by (auto simp: a)
qed simp

lemma timer_run_inv: "timer_inv s \<Longrightarrow> timer_run srt u es s = Some s' \<Longrightarrow> timer_inv s'"
proof (induction es arbitrary: s)
  case (Cons e es)
  then obtain s1 where s1: "timer_step srt u e s = Some s1" "timer_run srt u es s1 = Some s'" by (auto split: option.splits)
  have "timer_inv s1" using s1(1) Cons.prems(1) timer_api_inv task_turn_inv by (cases e) auto
  then show ?case using Cons.IH s1(2) by blast
qed simp

end

lemma timer_cb_program: "timer_program (timer_cb srt prog n)"
proof (induction n)
  case (Suc n)
  show ?case by unfold_locales (use timer_program.timer_run_code_inv [OF Suc] in auto)
qed (unfold_locales, auto)

interpretation timers: timer_program "timer_cb srt prog n" for srt prog n
  by (rule timer_cb_program)

text \<open>(C36) No timer is forgotten.  However a program sets and clears timers, in its callbacks and between
  them, and lets time pass, and in whatever order the tasks wake, after every run that no exception has
  ended each timer that is not due beyond the horizon has a waiting task: there is a permit for it to
  wake, or its sleep ends at the timer's deadline or, if that is later, at the least sleep of four
  milliseconds from now.\<close>

theorem timers_wake:
  assumes "0 \<le> now" and "timer_run srt (timer_cb srt prog n) es (state_new now) = Some s"
    and "t \<in> set (ts_timers s)" and "tm_deadline t < FAR_FUTURE"
  shows "\<exists>sl. Some sl \<in> set (ts_tasks s) \<and> (ts_notified s \<or> sl \<le> max (tm_deadline t) (ts_now s + MIN_SLEEP))"
proof -
  have inv: "timer_inv s" using timers.timer_run_inv [OF timer_inv_start [OF assms(1)] assms(2)] .
  then have "in_time s (tm_deadline t)" "ts_running s" using assms(3) by (auto simp: timer_inv_def)
  then show ?thesis using inv assms(4) by (fastforce simp: in_time_def timer_inv_def)
qed

subsection \<open>What a poll calls\<close>










definition clears_second :: "js_call \<Rightarrow> timer_code" where
  "clears_second c = (if c = CallTimer 1 then Then (ClearTimer (Some (Fin 1))) (\<lambda>_. Done True) else Done True)"

text \<open>A timer that is cleared in the callback of another one is still called when both were due in
  the same poll: the calls are collected before the first is made.\<close>

lemma cleared_timer_still_fires:
  "map_option ts_log (timer_run (sort_key fst) (timer_cb (sort_key fst) clears_second 2)
      [Program (SetTimer 1 None TimeoutProvider), Program (SetTimer 2 None TimeoutProvider), Program (Elapse 1), Turn 0 False]
      (state_new 0)) = Some [1, 2]"
  by (simp add: timer_api_def set_timeout_interval_def timer_deadline_def delay_of_def state_new_def create_spawn_loop_def
      Let_def task_turn_def poll_timers_def collect_def clears_second_def numeral_2_eq_2 clear_timeout_interval_def)

text \<open>The first hypothesis holds at the start of the clock, the others after a run with one timeout.\<close>

theorem timers_wake_witness:
  "\<exists>sl. Some sl \<in> set [Some (5 * ms)] \<and> (False \<or> sl \<le> max (5 * ms) (0 + MIN_SLEEP))"
  using timers_wake [of 0 "sort_key fst" clears_second 2 "[Program (SetTimer 1 (Some (Fin 5)) TimeoutProvider)]"
      "snd (timer_api (sort_key fst) (timer_cb (sort_key fst) clears_second 2) (SetTimer 1 (Some (Fin 5)) TimeoutProvider) (state_new 0))"
      "\<lparr>tm_callback = Some 1, tm_deadline = 5 * ms, tm_id = 0, tm_repeating = False, tm_interval = 5\<rparr>"]
  by (simp add: timer_api_def set_timeout_interval_def timer_deadline_def delay_of_def state_new_def create_spawn_loop_def Let_def)

end
