(* ===== verification/ReadableStream.thy ===== *)
theory ReadableStream
  imports QueueSizes
begin

text \<open>
  Readable streams with a default controller: \<^verbatim>\<open>modules/llrt_stream_web/src/readable/\<close>, the files
  \<^verbatim>\<open>stream/mod.rs\<close>, \<^verbatim>\<open>stream/algorithms.rs\<close>, \<^verbatim>\<open>default_controller.rs\<close>, \<^verbatim>\<open>default_reader.rs\<close>, \<^verbatim>\<open>reader.rs\<close> and
  \<^verbatim>\<open>objects.rs\<close>.

  A world holds one stream with its controller, all the readers that were ever acquired, the promises
  and the reactions.  An operation is a function on worlds; \<^term>\<open>None\<close> is a panic.  Code of the
  user (the underlying source, the size function) is an argument, as for the writable streams.

  \<^verbatim>\<open>ReadableStreamObjects\<close> bundles the stream, its controller and the reader an operation was started
  with: the latter is the argument \<open>rd\<close>, \<^term>\<open>None\<close> for no reader.  It is captured: only
  \<^verbatim>\<open>refresh_reader\<close> looks at the stream again.

  The last fields of a world are a record of what happened, which no operation reads: the chunks the
  controller took, which read got which chunk, and the promises of the reads.
\<close>

subsection \<open>State\<close>

datatype rs_state = RsReadable | RsClosed | RsErrored js_value

record rstream =
  rs_disturbed :: bool
  rs_state :: rs_state
  rs_reader :: "nat option"

datatype source_algorithm = SourceReturnUndefined | SourceFunction

record rcontroller =
  rc_cancel_algorithm :: "source_algorithm option"
  rc_close_requested :: bool
  rc_pull_again :: bool
  rc_pull_algorithm :: "source_algorithm option"
  rc_pulling :: bool
  rc_container :: queue_with_sizes
  rc_started :: bool
  rc_hwm :: f64
  rc_size_algorithm :: "size_algorithm option"
  rc_native_pull :: bool

record rreader =
  rr_closed :: resolveable_promise
  rr_attached :: bool
  rr_requests :: "resolveable_promise list"

datatype rreaction = ROnStart | ROnPull | ROnCancel resolveable_promise

record rworld =
  r_stream :: rstream
  r_controller :: rcontroller
  r_readers :: "nat \<Rightarrow> rreader"
  r_next_reader :: nat
  r_promises :: promise_store
  r_reactions :: "(nat \<times> rreaction) list"
  r_accepted :: "js_value list"
  r_given :: "(nat \<times> js_value) list"
  r_reads :: "nat list"
  r_user_promises :: "nat list"
  r_native_size :: bool

datatype rcallback =
    RCallStart
  | RCallPull
  | RCallCancel js_value
  | RCallSize js_value
  | RCallByteLength js_value
  | RCallNativePull

type_synonym ruser = "rcallback \<Rightarrow> rworld \<Rightarrow> (outcome \<times> rworld) option"

abbreviation upd_rstream :: "(rstream \<Rightarrow> rstream) \<Rightarrow> rworld \<Rightarrow> rworld" where
  "upd_rstream f w \<equiv> w\<lparr>r_stream := f (r_stream w)\<rparr>"

abbreviation upd_rcontroller :: "(rcontroller \<Rightarrow> rcontroller) \<Rightarrow> rworld \<Rightarrow> rworld" where
  "upd_rcontroller f w \<equiv> w\<lparr>r_controller := f (r_controller w)\<rparr>"

abbreviation upd_rpromises :: "(promise_store \<Rightarrow> promise_store) \<Rightarrow> rworld \<Rightarrow> rworld" where
  "upd_rpromises f w \<equiv> w\<lparr>r_promises := f (r_promises w)\<rparr>"

abbreviation upd_reader :: "nat \<Rightarrow> (rreader \<Rightarrow> rreader) \<Rightarrow> rworld \<Rightarrow> rworld" where
  "upd_reader i f w \<equiv> w\<lparr>r_readers := (r_readers w)(i := f (r_readers w i))\<rparr>"

abbreviation rs_queue :: "rworld \<Rightarrow> value_with_size list" where
  "rs_queue w \<equiv> queue (rc_container (r_controller w))"

definition r_with_promises :: "(promise_store \<Rightarrow> 'a \<times> promise_store) \<Rightarrow> rworld \<Rightarrow> 'a \<times> rworld" where
  "r_with_promises f w = (let (x, ps) = f (r_promises w) in (x, w\<lparr>r_promises := ps\<rparr>))"

definition r_upon_promise :: "nat \<Rightarrow> rreaction \<Rightarrow> rworld \<Rightarrow> rworld" where
  "r_upon_promise p r w = w\<lparr>r_reactions := r_reactions w @ [(p, r)]\<rparr>"

text \<open>The promise of a reaction that only maps the value of a fulfilled promise.\<close>

definition upon_promise_fulfilment :: "nat \<Rightarrow> rworld \<Rightarrow> nat \<times> rworld" where
  "upon_promise_fulfilment p w =
     (let (rp, w') = r_with_promises rp_new w in (rp_promise rp, r_upon_promise p (ROnCancel rp) w'))"

definition refresh_reader :: "rworld \<Rightarrow> nat option" where
  "refresh_reader w = rs_reader (r_stream w)"

subsection \<open>Read requests\<close>

definition chunk_steps :: "resolveable_promise \<Rightarrow> js_value \<Rightarrow> rworld \<Rightarrow> rworld" where
  "chunk_steps rp chunk w = upd_rpromises (rp_do_resolve rp (ReadResult chunk False)) w"

definition close_steps :: "resolveable_promise \<Rightarrow> rworld \<Rightarrow> rworld" where
  "close_steps rp w = upd_rpromises (rp_do_resolve rp (ReadResult Undefined True)) w"

definition request_error_steps :: "js_value \<Rightarrow> resolveable_promise \<Rightarrow> rworld \<Rightarrow> rworld" where
  "request_error_steps e rp w = upd_rpromises (rp_do_reject rp e) w"

definition error_read_requests :: "nat \<Rightarrow> js_value \<Rightarrow> rworld \<Rightarrow> rworld" where
  "error_read_requests i e w =
     fold (request_error_steps e) (rr_requests (r_readers w i)) (upd_reader i (\<lambda>r. r\<lparr>rr_requests := []\<rparr>) w)"

definition get_num_read_requests :: "nat option \<Rightarrow> rworld \<Rightarrow> nat" where
  "get_num_read_requests rd w = (case rd of None \<Rightarrow> 0 | Some i \<Rightarrow> length (rr_requests (r_readers w i)))"

definition fulfill_read_request :: "nat \<Rightarrow> js_value \<Rightarrow> bool \<Rightarrow> rworld \<Rightarrow> rworld option" where
  "fulfill_read_request i chunk finished w =
     (case rr_requests (r_readers w i) of
        [] \<Rightarrow> None
      | rp # rps \<Rightarrow>
          let w1 = upd_reader i (\<lambda>r. r\<lparr>rr_requests := rps\<rparr>) w in
          Some (if finished then close_steps rp w1
                else chunk_steps rp chunk (w1\<lparr>r_given := r_given w1 @ [(rp_promise rp, chunk)]\<rparr>)))"

definition add_read_request :: "nat \<Rightarrow> resolveable_promise \<Rightarrow> rworld \<Rightarrow> rworld" where
  "add_read_request i rp w = upd_reader i (\<lambda>r. r\<lparr>rr_requests := rr_requests r @ [rp]\<rparr>) w"

subsection \<open>Closing and erroring the stream\<close>

definition readable_stream_error :: "nat option \<Rightarrow> js_value \<Rightarrow> rworld \<Rightarrow> rworld" where
  "readable_stream_error rd e w =
     (let w1 = upd_rstream (\<lambda>s. s\<lparr>rs_state := RsErrored e\<rparr>) w in
      case rd of
        None \<Rightarrow> w1
      | Some i \<Rightarrow>
          let rp = rr_closed (r_readers w1 i) in
          error_read_requests i e (upd_rpromises (\<lambda>ps. rp_set_is_handled rp (rp_do_reject rp e ps)) w1))"

definition readable_stream_close :: "nat option \<Rightarrow> rworld \<Rightarrow> rworld" where
  "readable_stream_close rd w =
     (let w1 = upd_rstream (\<lambda>s. s\<lparr>rs_state := RsClosed\<rparr>) w in
      case rd of
        None \<Rightarrow> w1
      | Some i \<Rightarrow>
          let w2 = upd_rpromises (rp_resolve_undefined (rr_closed (r_readers w1 i))) w1 in
          fold close_steps (rr_requests (r_readers w2 i)) (upd_reader i (\<lambda>r. r\<lparr>rr_requests := []\<rparr>) w2))"

definition is_readable_stream_locked :: "rstream \<Rightarrow> bool" where
  "is_readable_stream_locked s \<longleftrightarrow> rs_reader s \<noteq> None"

subsection \<open>The controller\<close>

definition rc_clear_algorithms :: "rcontroller \<Rightarrow> rcontroller" where
  "rc_clear_algorithms c = c\<lparr>rc_pull_algorithm := None, rc_cancel_algorithm := None,
     rc_size_algorithm := None, rc_native_pull := False\<rparr>"

definition can_close_or_enqueue :: "rworld \<Rightarrow> bool" where
  "can_close_or_enqueue w \<longleftrightarrow> rs_state (r_stream w) = RsReadable \<and> \<not> rc_close_requested (r_controller w)"

definition rc_get_desired_size :: "rworld \<Rightarrow> f64 option" where
  "rc_get_desired_size w =
     (case rs_state (r_stream w) of
        RsErrored _ \<Rightarrow> None
      | RsClosed \<Rightarrow> Some (Fin 0)
      | RsReadable \<Rightarrow> Some (f64_sub (rc_hwm (r_controller w)) (queue_total_size (rc_container (r_controller w)))))"

definition should_call_pull :: "nat option \<Rightarrow> rworld \<Rightarrow> bool option" where
  "should_call_pull rd w =
     (if \<not> can_close_or_enqueue w then Some False
      else if \<not> rc_started (r_controller w) then Some False
      else if get_num_read_requests rd w > 0 then Some True
      else do { desired_size \<leftarrow> rc_get_desired_size w; Some (f64_lt (Fin 0) desired_size) })"

fun source_call :: "ruser \<Rightarrow> rcallback \<Rightarrow> source_algorithm \<Rightarrow> rworld \<Rightarrow> (nat \<times> rworld) option" where
  "source_call u c SourceReturnUndefined w = Some (promise_resolved_with_undefined, w)"
| "source_call u c SourceFunction w =
     do { (out, w') \<leftarrow> u c w; Some (r_with_promises (promise_resolved_with out) w') }"

definition pull_algorithm :: "ruser \<Rightarrow> rworld \<Rightarrow> (nat \<times> rworld) option" where
  "pull_algorithm u w = do { alg \<leftarrow> rc_pull_algorithm (r_controller w); source_call u RCallPull alg w }"

definition cancel_algorithm :: "ruser \<Rightarrow> js_value \<Rightarrow> rworld \<Rightarrow> (nat \<times> rworld) option" where
  "cancel_algorithm u reason w =
     do { alg \<leftarrow> rc_cancel_algorithm (r_controller w); source_call u (RCallCancel reason) alg w }"

definition rc_strategy_size_algorithm :: "ruser \<Rightarrow> js_value \<Rightarrow> rworld \<Rightarrow> ((js_value + size_value) \<times> rworld) option" where
  "rc_strategy_size_algorithm u chunk w =
     do { alg \<leftarrow> rc_size_algorithm (r_controller w);
          size_algorithm_call (\<lambda>v. u (RCallSize v)) (\<lambda>v. u (RCallByteLength v)) alg chunk w }"

definition call_pull_if_needed :: "ruser \<Rightarrow> nat option \<Rightarrow> rworld \<Rightarrow> rworld option" where
  "call_pull_if_needed u rd w =
     do { should_pull \<leftarrow> should_call_pull rd w;
          if \<not> should_pull then Some w
          else if rc_pulling (r_controller w) then Some (upd_rcontroller (\<lambda>c. c\<lparr>rc_pull_again := True\<rparr>) w)
          else do { (p, w1) \<leftarrow> pull_algorithm u (upd_rcontroller (\<lambda>c. c\<lparr>rc_pulling := True\<rparr>) w);
                    Some (r_upon_promise p ROnPull w1) } }"

definition rc_error :: "nat option \<Rightarrow> js_value \<Rightarrow> rworld \<Rightarrow> rworld" where
  "rc_error rd e w =
     (if rs_state (r_stream w) \<noteq> RsReadable then w
      else readable_stream_error rd e
        (upd_rcontroller (\<lambda>c. rc_clear_algorithms (c\<lparr>rc_container := reset_queue (rc_container c)\<rparr>)) w))"

definition rc_close :: "nat option \<Rightarrow> rworld \<Rightarrow> rworld" where
  "rc_close rd w =
     (if \<not> can_close_or_enqueue w then w
      else
        let w1 = upd_rcontroller (\<lambda>c. c\<lparr>rc_close_requested := True\<rparr>) w in
        if rs_queue w1 = [] then readable_stream_close rd (upd_rcontroller rc_clear_algorithms w1) else w1)"

definition rc_enqueue :: "ruser \<Rightarrow> nat option \<Rightarrow> js_value \<Rightarrow> rworld \<Rightarrow> ((js_value + unit) \<times> rworld) option" where
  "rc_enqueue u rd chunk w =
     (if \<not> can_close_or_enqueue w then Some (Inr (), w)
      else if get_num_read_requests rd w > 0 then
        do { i \<leftarrow> rd;
             w1 \<leftarrow> fulfill_read_request i chunk False (w\<lparr>r_accepted := r_accepted w @ [chunk]\<rparr>);
             w2 \<leftarrow> call_pull_if_needed u rd w1;
             Some (Inr (), w2) }
      else
        do { (result, w1) \<leftarrow> rc_strategy_size_algorithm u chunk w;
             (case result of
                Inl e \<Rightarrow> Some (Inl e, rc_error rd e w1)
              | Inr chunk_size \<Rightarrow>
                  (case enqueue_value_with_size chunk chunk_size (rc_container (r_controller w1)) of
                     Inl e \<Rightarrow> Some (Inl e, rc_error rd e w1)
                   | Inr q \<Rightarrow>
                       do { w2 \<leftarrow> call_pull_if_needed u rd
                              (upd_rcontroller (\<lambda>c. c\<lparr>rc_container := q\<rparr>) (w1\<lparr>r_accepted := r_accepted w1 @ [chunk]\<rparr>));
                            Some (Inr (), w2) })) })"

text \<open>The methods of the controller.  A transfer list is accepted by streams of the type \<^verbatim>\<open>owning\<close> only,
  which are not modelled; the second argument of \<open>enqueue\<close> says whether one was given.\<close>

definition rc_close_method :: "rworld \<Rightarrow> (js_value + unit) \<times> rworld" where
  "rc_close_method w =
     (if \<not> can_close_or_enqueue w then (Inl (TypeError ''The stream is not in a state that permits close''), w)
      else (Inr (), rc_close (refresh_reader w) w))"

definition rc_enqueue_method ::
  "ruser \<Rightarrow> js_value option \<Rightarrow> bool \<Rightarrow> rworld \<Rightarrow> ((js_value + unit) \<times> rworld) option" where
  "rc_enqueue_method u chunk has_transfer_items w =
     (if has_transfer_items then Some (Inl (TypeError ''transfer list is not empty''), w)
      else if \<not> can_close_or_enqueue w
      then Some (Inl (TypeError ''The stream is not in a state that permits enqueue''), w)
      else rc_enqueue u (refresh_reader w) (case chunk of Some v \<Rightarrow> v | None \<Rightarrow> Undefined) w)"

definition rc_error_method :: "js_value option \<Rightarrow> rworld \<Rightarrow> rworld" where
  "rc_error_method e w = rc_error (refresh_reader w) (case e of Some v \<Rightarrow> v | None \<Rightarrow> Undefined) w"

text \<open>The same from Rust.\<close>

definition enqueue_value_impl :: "ruser \<Rightarrow> js_value \<Rightarrow> bool \<Rightarrow> rworld \<Rightarrow> ((js_value + unit) \<times> rworld) option" where
  "enqueue_value_impl u chunk throw_if_unavailable w =
     (if \<not> can_close_or_enqueue w
      then Some (if throw_if_unavailable then Inl (TypeError ''The stream is not in a state that permits enqueue'') else Inr (), w)
      else rc_enqueue u (refresh_reader w) chunk w)"

definition rc_close_stream :: "rworld \<Rightarrow> rworld" where
  "rc_close_stream w = (if \<not> can_close_or_enqueue w then w else rc_close (refresh_reader w) w)"

definition rc_error_stream :: "js_value \<Rightarrow> rworld \<Rightarrow> rworld" where
  "rc_error_stream e w = rc_error (refresh_reader w) e w"

subsection \<open>Reading\<close>

definition pull_steps :: "ruser \<Rightarrow> nat \<Rightarrow> resolveable_promise \<Rightarrow> rworld \<Rightarrow> rworld option" where
  "pull_steps u i rp w =
     (if rs_queue w \<noteq> [] then
        do { (chunk, q) \<leftarrow> dequeue_value (rc_container (r_controller w));
             let w1 = upd_rcontroller (\<lambda>c. c\<lparr>rc_container := q\<rparr>) (w\<lparr>r_given := r_given w @ [(rp_promise rp, chunk)]\<rparr>);
             w2 \<leftarrow> (if rc_close_requested (r_controller w1) \<and> rs_queue w1 = []
                    then Some (readable_stream_close (Some i) (upd_rcontroller rc_clear_algorithms w1))
                    else call_pull_if_needed u (Some i) w1);
             Some (chunk_steps rp chunk w2) }
      else call_pull_if_needed u (Some i) (add_read_request i rp w))"

definition default_reader_read :: "ruser \<Rightarrow> nat \<Rightarrow> resolveable_promise \<Rightarrow> rworld \<Rightarrow> rworld option" where
  "default_reader_read u i rp w =
     (let w1 = upd_rstream (\<lambda>s. s\<lparr>rs_disturbed := True\<rparr>) w in
      case rs_state (r_stream w1) of
        RsClosed \<Rightarrow> Some (close_steps rp w1)
      | RsErrored stored \<Rightarrow> Some (request_error_steps stored rp w1)
      | RsReadable \<Rightarrow> pull_steps u i rp w1)"

definition read_default :: "ruser \<Rightarrow> nat \<Rightarrow> rworld \<Rightarrow> (nat \<times> rworld) option" where
  "read_default u i w =
     (let (rp, w1) = r_with_promises rp_new w in
      do { w2 \<leftarrow> default_reader_read u i rp (w1\<lparr>r_reads := r_reads w1 @ [rp_promise rp]\<rparr>);
           Some (rp_promise rp, w2) })"

definition try_get_native_pull :: "rworld \<Rightarrow> bool" where
  "try_get_native_pull w \<longleftrightarrow> rs_state (r_stream w) = RsReadable
     \<and> rs_queue w = [] \<and> \<not> rc_pulling (r_controller w) \<and> rc_native_pull (r_controller w)"

text \<open>The native function is given with the user code: it fails, or returns a read result that is ready,
  or the promise of one.\<close>

definition read_native :: "ruser \<Rightarrow> rworld \<Rightarrow> ((js_value + nat) \<times> rworld) option" where
  "read_native u w =
     do { (out, w1) \<leftarrow> u RCallNativePull w;
          (case out of
             Throw e \<Rightarrow> Some (Inl e, w1)
           | Ret v \<Rightarrow> let (p, w2) = r_with_promises (promise_resolved_with (Ret v)) w1 in Some (Inr p, w2)) }"

definition r_reject_type_error :: "string \<Rightarrow> rworld \<Rightarrow> ((js_value + nat) \<times> rworld) option" where
  "r_reject_type_error msg w =
     (let (p, w') = r_with_promises (promise_rejected_with_constructor msg) w in Some (Inr p, w'))"

definition reader_read :: "ruser \<Rightarrow> nat \<Rightarrow> rworld \<Rightarrow> ((js_value + nat) \<times> rworld) option" where
  "reader_read u i w =
     (if \<not> rr_attached (r_readers w i)
      then r_reject_type_error ''Cannot read from a stream using a released reader'' w
      else if try_get_native_pull w then read_native u (upd_rstream (\<lambda>s. s\<lparr>rs_disturbed := True\<rparr>) w)
      else do { (p, w1) \<leftarrow> read_default u i w; Some (Inr p, w1) })"

subsection \<open>Readers\<close>

definition generic_initialize :: "rstream \<Rightarrow> promise_store \<Rightarrow> resolveable_promise \<times> promise_store" where
  "generic_initialize s ps =
     (case rs_state s of
        RsReadable \<Rightarrow> rp_new ps
      | RsClosed \<Rightarrow> (rp_resolved_with_undefined, ps)
      | RsErrored e \<Rightarrow> let (rp, ps1) = rp_rejected_with e ps in (rp, rp_set_is_handled rp ps1))"

definition set_up_default_reader :: "rworld \<Rightarrow> (js_value + nat) \<times> rworld" where
  "set_up_default_reader w =
     (if is_readable_stream_locked (r_stream w)
      then (Inl (TypeError ''This stream has already been locked for exclusive reading by another reader''), w)
      else
        let (closed, w1) = r_with_promises (generic_initialize (r_stream w)) w;
            i = r_next_reader w
        in (Inr i, upd_rstream (\<lambda>s. s\<lparr>rs_reader := Some i\<rparr>)
             (w1\<lparr>r_readers := (r_readers w1)(i := \<lparr>rr_closed = closed, rr_attached = True, rr_requests = []\<rparr>),
                 r_next_reader := Suc i\<rparr>)))"

definition reader_released_error :: js_value where
  "reader_released_error = TypeError ''Reader was released and can no longer be used to monitor the stream's closedness''"

definition generic_release :: "nat \<Rightarrow> rworld \<Rightarrow> rworld" where
  "generic_release i w =
     (let rp = rr_closed (r_readers w i);
          (rp', ps) = (if rs_state (r_stream w) = RsReadable
                       then (rp, rp_do_reject rp reader_released_error (r_promises w))
                       else rp_rejected_with reader_released_error (r_promises w))
      in upd_reader i (\<lambda>r. r\<lparr>rr_closed := rp', rr_attached := False\<rparr>)
           (upd_rstream (\<lambda>s. s\<lparr>rs_reader := None\<rparr>) (w\<lparr>r_promises := rp_set_is_handled rp' ps\<rparr>)))"

definition default_reader_release :: "nat \<Rightarrow> rworld \<Rightarrow> rworld" where
  "default_reader_release i w = error_read_requests i (TypeError ''Reader was released'') (generic_release i w)"

definition reader_release_lock :: "nat \<Rightarrow> rworld \<Rightarrow> rworld" where
  "reader_release_lock i w = (if rr_attached (r_readers w i) then default_reader_release i w else w)"

subsection \<open>Cancelling\<close>

definition cancel_steps :: "ruser \<Rightarrow> js_value \<Rightarrow> rworld \<Rightarrow> (nat \<times> rworld) option" where
  "cancel_steps u reason w =
     do { (p, w1) \<leftarrow> cancel_algorithm u reason
            (upd_rcontroller (\<lambda>c. c\<lparr>rc_container := reset_queue (rc_container c)\<rparr>) w);
          Some (p, upd_rcontroller rc_clear_algorithms w1) }"

definition readable_stream_cancel :: "ruser \<Rightarrow> nat option \<Rightarrow> js_value \<Rightarrow> rworld \<Rightarrow> (nat \<times> rworld) option" where
  "readable_stream_cancel u rd reason w =
     (let w1 = upd_rstream (\<lambda>s. s\<lparr>rs_disturbed := True\<rparr>) w in
      case rs_state (r_stream w1) of
        RsClosed \<Rightarrow> Some (r_with_promises (promise_resolved_with (Ret Undefined)) w1)
      | RsErrored stored \<Rightarrow> Some (r_with_promises (promise_rejected_with stored) w1)
      | RsReadable \<Rightarrow>
          do { (p, w2) \<leftarrow> cancel_steps u reason (readable_stream_close rd w1);
               Some (upon_promise_fulfilment p w2) })"

definition rs_cancel :: "ruser \<Rightarrow> js_value option \<Rightarrow> rworld \<Rightarrow> ((js_value + nat) \<times> rworld) option" where
  "rs_cancel u reason w =
     (if is_readable_stream_locked (r_stream w)
      then r_reject_type_error ''Cannot cancel a stream that already has a reader'' w
      else do { (p, w') \<leftarrow> readable_stream_cancel u (refresh_reader w) (case reason of Some v \<Rightarrow> v | None \<Rightarrow> Undefined) w;
                Some (Inr p, w') })"

definition reader_cancel :: "ruser \<Rightarrow> nat \<Rightarrow> js_value option \<Rightarrow> rworld \<Rightarrow> ((js_value + nat) \<times> rworld) option" where
  "reader_cancel u i reason w =
     (if \<not> rr_attached (r_readers w i)
      then r_reject_type_error ''Cannot cancel a stream using a released reader'' w
      else do { (p, w') \<leftarrow> readable_stream_cancel u (Some i) (case reason of Some v \<Rightarrow> v | None \<Rightarrow> Undefined) w;
                Some (Inr p, w') })"

subsection \<open>Draining a closed stream without promises\<close>

fun drain :: "nat \<Rightarrow> queue_with_sizes \<Rightarrow> (js_value list \<times> queue_with_sizes) option" where
  "drain 0 q = Some ([], q)"
| "drain (Suc n) q = do { (v, q1) \<leftarrow> dequeue_value q; (vs, q2) \<leftarrow> drain n q1; Some (v # vs, q2) }"

definition try_sync_drain_closed_stream :: "rworld \<Rightarrow> (js_value list option \<times> rworld) option" where
  "try_sync_drain_closed_stream w =
     (if rs_disturbed (r_stream w) \<or> is_readable_stream_locked (r_stream w) then Some (None, w)
      else if rs_state (r_stream w) \<noteq> RsReadable then Some (None, w)
      else if \<not> rc_close_requested (r_controller w) then Some (None, w)
      else do { (chunks, q) \<leftarrow> drain (length (rs_queue w)) (rc_container (r_controller w));
                Some (Some chunks, upd_rstream (\<lambda>s. s\<lparr>rs_disturbed := True, rs_state := RsClosed\<rparr>)
                  (upd_rcontroller (\<lambda>c. c\<lparr>rc_container := q\<rparr>) w)) })"

subsection \<open>Reactions\<close>

definition r_on_start :: "ruser \<Rightarrow> (js_value + js_value) \<Rightarrow> rworld \<Rightarrow> rworld option" where
  "r_on_start u result w =
     (case result of
        Inr _ \<Rightarrow> call_pull_if_needed u (refresh_reader w) (upd_rcontroller (\<lambda>c. c\<lparr>rc_started := True\<rparr>) w)
      | Inl r \<Rightarrow> Some (rc_error (refresh_reader w) r w))"

definition r_on_pull :: "ruser \<Rightarrow> (js_value + js_value) \<Rightarrow> rworld \<Rightarrow> rworld option" where
  "r_on_pull u result w =
     (case result of
        Inr _ \<Rightarrow>
          let w1 = upd_rcontroller (\<lambda>c. c\<lparr>rc_pulling := False\<rparr>) w in
          if rc_pull_again (r_controller w1)
          then call_pull_if_needed u (refresh_reader w) (upd_rcontroller (\<lambda>c. c\<lparr>rc_pull_again := False\<rparr>) w1)
          else Some w1
      | Inl e \<Rightarrow> Some (rc_error (refresh_reader w) e w))"

definition r_on_cancel :: "resolveable_promise \<Rightarrow> (js_value + js_value) \<Rightarrow> rworld \<Rightarrow> rworld" where
  "r_on_cancel rp result w =
     upd_rpromises (case result of Inr _ \<Rightarrow> rp_resolve_undefined rp | Inl e \<Rightarrow> rp_do_reject rp e) w"

fun r_run_reaction :: "ruser \<Rightarrow> rreaction \<Rightarrow> (js_value + js_value) \<Rightarrow> rworld \<Rightarrow> rworld option" where
  "r_run_reaction u ROnStart result w = r_on_start u result w"
| "r_run_reaction u ROnPull result w = r_on_pull u result w"
| "r_run_reaction u (ROnCancel rp) result w = Some (r_on_cancel rp result w)"

subsection \<open>The constructors\<close>

record underlying_source =
  src_start :: bool
  src_pull :: bool
  src_cancel :: bool

definition source_algorithm_of :: "bool \<Rightarrow> source_algorithm" where
  "source_algorithm_of present = (if present then SourceFunction else SourceReturnUndefined)"

definition initial_rstream :: rstream where
  "initial_rstream = \<lparr>rs_disturbed = False, rs_state = RsReadable, rs_reader = None\<rparr>"

definition initial_rcontroller :: "source_algorithm \<Rightarrow> source_algorithm \<Rightarrow> f64 \<Rightarrow> size_algorithm \<Rightarrow> rcontroller" where
  "initial_rcontroller pull cancel hwm alg =
     \<lparr>rc_cancel_algorithm = Some cancel, rc_close_requested = False, rc_pull_again = False,
      rc_pull_algorithm = Some pull, rc_pulling = False, rc_container = queue_new, rc_started = False,
      rc_hwm = hwm, rc_size_algorithm = Some alg, rc_native_pull = False\<rparr>"

definition no_readers :: "nat \<Rightarrow> rreader" where
  "no_readers = (\<lambda>_. \<lparr>rr_closed = rp_resolved_with_undefined, rr_attached = False, rr_requests = []\<rparr>)"

definition native_size :: "size_algorithm \<Rightarrow> bool" where
  "native_size alg \<longleftrightarrow> alg = AlwaysOne \<or> alg = SizeFunction SizeFnCount"

definition fresh_rworld :: "source_algorithm \<Rightarrow> source_algorithm \<Rightarrow> f64 \<Rightarrow> size_algorithm \<Rightarrow> promise_store \<Rightarrow> rworld" where
  "fresh_rworld pull cancel hwm alg ps =
     \<lparr>r_stream = initial_rstream, r_controller = initial_rcontroller pull cancel hwm alg, r_readers = no_readers,
      r_next_reader = 0, r_promises = ps, r_reactions = [], r_accepted = [], r_given = [], r_reads = [],
      r_user_promises = [], r_native_size = native_size alg\<rparr>"

definition set_up_default_controller :: "ruser \<Rightarrow> source_algorithm \<Rightarrow> rworld \<Rightarrow> ((js_value + unit) \<times> rworld) option" where
  "set_up_default_controller u start w =
     do { (out, w1) \<leftarrow> (case start of SourceReturnUndefined \<Rightarrow> Some (Ret Undefined, w) | SourceFunction \<Rightarrow> u RCallStart w);
          (case out of
             Throw e \<Rightarrow> Some (Inl e, w1)
           | Ret v \<Rightarrow>
               let (p, w2) = r_with_promises (promise_resolved_with (Ret v)) w1
               in Some (Inr (), r_upon_promise p ROnStart w2)) }"

definition readable_stream_new ::
  "ruser \<Rightarrow> underlying_source \<Rightarrow> queuing_strategy option \<Rightarrow> promise_store \<Rightarrow> ((js_value + unit) \<times> rworld) option" where
  "readable_stream_new u source strategy ps =
     (let alg = extract_size_algorithm strategy;
          pull = source_algorithm_of (src_pull source);
          cancel = source_algorithm_of (src_cancel source)
      in case extract_high_water_mark strategy (Fin 1) of
           Inl e \<Rightarrow> Some (Inl e, fresh_rworld pull cancel (Fin 1) alg ps)
         | Inr hwm \<Rightarrow> set_up_default_controller u (source_algorithm_of (src_start source)) (fresh_rworld pull cancel hwm alg ps))"

definition create_readable_stream ::
  "ruser \<Rightarrow> source_algorithm \<Rightarrow> source_algorithm \<Rightarrow> source_algorithm \<Rightarrow> f64 option \<Rightarrow> size_algorithm option
    \<Rightarrow> promise_store \<Rightarrow> ((js_value + unit) \<times> rworld) option" where
  "create_readable_stream u start pull cancel hwm alg ps =
     set_up_default_controller u start
       (fresh_rworld pull cancel (case hwm of None \<Rightarrow> Fin 1 | Some x \<Rightarrow> x) (case alg of None \<Rightarrow> AlwaysOne | Some x \<Rightarrow> x) ps)"

end
