(* ===== verification/ReadableInv.thy ===== *)
theory ReadableInv
  imports ReadableStream
begin

text \<open>
  The invariant of readable streams.  A read that has been made is settled, or its request waits at the
  stream's reader, or it is \<open>loose\<close>: an operation that is still running has taken its chunk from the
  queue and will settle it.  Code of the user neither settles a loose read nor leaves one behind.

  What the standard promises of the order of chunks needs a size function that cannot call back
  into the stream; those facts are stated for streams with a native one.
\<close>

subsection \<open>Promises\<close>

lemma pstate_reject:
  "pstate (rp_do_reject rp e ps) q =
     (if q = rp_promise rp \<and> rp_reject rp \<and> q < length ps \<and> pstate ps q = Pending then Rejected e else pstate ps q)"
  by (auto simp: rp_do_reject_def pstate_settle)

lemma pstate_resolve:
  "pstate (rp_do_resolve rp v ps) q =
     (if q = rp_promise rp \<and> rp_resolve rp \<and> q < length ps \<and> pstate ps q = Pending then Fulfilled v else pstate ps q)"
  by (auto simp: rp_do_resolve_def pstate_settle)

lemma pstate_resolve_undefined:
  "pstate (rp_resolve_undefined rp ps) q =
     (if q = rp_promise rp \<and> rp_resolve rp \<and> q < length ps \<and> pstate ps q = Pending then Fulfilled Undefined else pstate ps q)"
  by (auto simp: rp_resolve_undefined_def pstate_settle)

lemma pstate_handled [simp]: "pstate (rp_set_is_handled rp ps) q = pstate ps q"
  by (auto simp: pstate_def rp_set_is_handled_def nth_list_update)

lemma length_promise_ops [simp]:
  "length (rp_do_reject rp e ps) = length ps" "length (rp_do_resolve rp v ps) = length ps"
  "length (rp_resolve_undefined rp ps) = length ps" "length (rp_set_is_handled rp ps) = length ps"
  by (auto simp: rp_do_reject_def rp_do_resolve_def rp_resolve_undefined_def rp_set_is_handled_def)

lemma pstate_append [simp]: "q < length ps \<Longrightarrow> pstate (ps @ xs) q = pstate ps q"
  by (simp add: pstate_def nth_append)

lemma store_le_append [simp]: "store_le ps (ps @ xs)"
  by (simp add: store_le_def)

lemmas pstate_ops = pstate_reject pstate_resolve pstate_resolve_undefined

text \<open>Settling the promises of a list of requests.\<close>

definition settles :: "resolveable_promise list \<Rightarrow> promise_state \<Rightarrow> promise_store \<Rightarrow> promise_store \<Rightarrow> bool" where
  "settles rps st ps ps' \<longleftrightarrow> length ps' = length ps
     \<and> (\<forall>q. pstate ps' q = (if q \<in> rp_promise ` set rps \<and> q < length ps \<and> pstate ps q = Pending then st else pstate ps q))"

lemma settles_fold_reject:
  "\<forall>rp \<in> set rps. rp_reject rp \<Longrightarrow> settles rps (Rejected e) ps (fold (\<lambda>rp. rp_do_reject rp e) rps ps)"
proof (induction rps arbitrary: ps)
  case (Cons rp rps)
  then have "settles rps (Rejected e) (rp_do_reject rp e ps) (fold (\<lambda>rp. rp_do_reject rp e) rps (rp_do_reject rp e ps))" by simp
  then show ?case using Cons.prems by (auto simp: settles_def pstate_reject)
qed (simp add: settles_def)

lemma settles_fold_resolve:
  "\<forall>rp \<in> set rps. rp_resolve rp \<Longrightarrow> settles rps (Fulfilled v) ps (fold (\<lambda>rp. rp_do_resolve rp v) rps ps)"
proof (induction rps arbitrary: ps)
  case (Cons rp rps)
  then have "settles rps (Fulfilled v) (rp_do_resolve rp v ps) (fold (\<lambda>rp. rp_do_resolve rp v) rps (rp_do_resolve rp v ps))" by simp
  then show ?case using Cons.prems by (auto simp: settles_def pstate_resolve)
qed (simp add: settles_def)

lemma fold_request_error: "fold (request_error_steps e) rps w = upd_rpromises (fold (\<lambda>rp. rp_do_reject rp e) rps) w"
  by (induction rps arbitrary: w) (simp_all add: request_error_steps_def)

lemma fold_close_steps:
  "fold close_steps rps w = upd_rpromises (fold (\<lambda>rp. rp_do_resolve rp (ReadResult Undefined True)) rps) w"
  by (induction rps arbitrary: w) (simp_all add: close_steps_def)

lemma promise_resolved_with_old:
  "promise_resolved_with out ps = (p, ps') \<Longrightarrow> length ps \<le> length ps' \<and> (\<forall>q < length ps. pstate ps' q = pstate ps q)"
  by (cases "(out, ps)" rule: promise_resolved_with.cases) (auto simp: alloc_def pstate_def nth_append)

subsection \<open>The invariant\<close>

definition rs_requests :: "rworld \<Rightarrow> resolveable_promise list" where
  "rs_requests w = (case rs_reader (r_stream w) of None \<Rightarrow> [] | Some i \<Rightarrow> rr_requests (r_readers w i))"

lemma rs_requests_frame [simp]:
  "rs_requests (w\<lparr>r_promises := ps\<rparr>) = rs_requests w" "rs_requests (w\<lparr>r_controller := c\<rparr>) = rs_requests w"
  "rs_requests (w\<lparr>r_reactions := rs\<rparr>) = rs_requests w" "rs_requests (w\<lparr>r_accepted := a\<rparr>) = rs_requests w"
  "rs_requests (w\<lparr>r_given := g\<rparr>) = rs_requests w" "rs_requests (w\<lparr>r_reads := rd\<rparr>) = rs_requests w"
  "rs_requests (w\<lparr>r_user_promises := us\<rparr>) = rs_requests w"
  "rs_requests (w\<lparr>r_stream := (r_stream w)\<lparr>rs_state := st\<rparr>\<rparr>) = rs_requests w"
  "rs_requests (w\<lparr>r_stream := (r_stream w)\<lparr>rs_disturbed := b\<rparr>\<rparr>) = rs_requests w"
  by (simp_all add: rs_requests_def split: option.split)

definition loose :: "rworld \<Rightarrow> nat set" where
  "loose w = {p \<in> set (r_reads w). pstate (r_promises w) p = Pending \<and> p \<notin> rp_promise ` set (rs_requests w)}"

lemma loose_frame [simp]:
  "loose (w\<lparr>r_controller := c\<rparr>) = loose w" "loose (w\<lparr>r_reactions := rs\<rparr>) = loose w"
  "loose (w\<lparr>r_accepted := a\<rparr>) = loose w" "loose (w\<lparr>r_given := g\<rparr>) = loose w"
  "loose (w\<lparr>r_user_promises := us\<rparr>) = loose w"
  "loose (w\<lparr>r_stream := (r_stream w)\<lparr>rs_state := st\<rparr>\<rparr>) = loose w"
  "loose (w\<lparr>r_stream := (r_stream w)\<lparr>rs_disturbed := b\<rparr>\<rparr>) = loose w"
  by (simp_all add: loose_def)

definition n_rstart :: "(nat \<times> rreaction) list \<Rightarrow> nat" where
  "n_rstart rs = length (filter (\<lambda>(p, r). r = ROnStart) rs)"

definition n_rpull :: "(nat \<times> rreaction) list \<Rightarrow> nat" where
  "n_rpull rs = length (filter (\<lambda>(p, r). r = ROnPull) rs)"

definition control_ok :: "rworld \<Rightarrow> bool" where
  "control_ok w \<longleftrightarrow>
     (rs_state (r_stream w) = RsReadable \<longrightarrow>
        rc_pull_algorithm (r_controller w) \<noteq> None \<and> rc_cancel_algorithm (r_controller w) \<noteq> None
        \<and> rc_size_algorithm (r_controller w) \<noteq> None)
   \<and> n_rstart (r_reactions w) \<le> (if rc_started (r_controller w) then 0 else 1)
   \<and> n_rpull (r_reactions w) \<le> (if rc_pulling (r_controller w) then 1 else 0)"

definition reader_ok :: "rworld \<Rightarrow> bool" where
  "reader_ok w \<longleftrightarrow>
     (\<forall>j. rr_attached (r_readers w j) \<longleftrightarrow> rs_reader (r_stream w) = Some j)
   \<and> (\<forall>j. rs_reader (r_stream w) \<noteq> Some j \<longrightarrow> rr_requests (r_readers w j) = [])
   \<and> (\<forall>i. rs_reader (r_stream w) = Some i \<longrightarrow> i < r_next_reader w)"

definition foreign :: "rworld \<Rightarrow> nat \<Rightarrow> bool" where
  "foreign w p \<longleftrightarrow> p < length (r_promises w) \<and> p \<notin> set (r_reads w)"

definition promise_ok :: "rworld \<Rightarrow> bool" where
  "promise_ok w \<longleftrightarrow>
     foreign w 0
   \<and> (\<forall>p \<in> set (r_reads w). p < length (r_promises w))
   \<and> (\<forall>j. foreign w (rp_promise (rr_closed (r_readers w j))))
   \<and> (\<forall>q rp. (q, ROnCancel rp) \<in> set (r_reactions w) \<longrightarrow> foreign w (rp_promise rp))
   \<and> (\<forall>p \<in> set (r_user_promises w). foreign w p)
   \<and> (\<forall>rp \<in> set (rs_requests w). rp_resolve rp \<and> rp_reject rp \<and> rp_promise rp \<in> set (r_reads w)
        \<and> pstate (r_promises w) (rp_promise rp) = Pending)"

definition given_ok :: "rworld \<Rightarrow> bool" where
  "given_ok w \<longleftrightarrow>
     distinct (map fst (r_given w) @ map rp_promise (rs_requests w))
   \<and> (\<forall>p c. (p, c) \<in> set (r_given w) \<longrightarrow>
        p \<in> set (r_reads w) \<and> (pstate (r_promises w) p = Fulfilled (ReadResult c False) \<or> p \<in> loose w))"

definition order_ok :: "rworld \<Rightarrow> bool" where
  "order_ok w \<longleftrightarrow>
     (\<forall>alg. rc_size_algorithm (r_controller w) = Some alg \<longrightarrow> native_size alg)
   \<and> (rs_state (r_stream w) \<noteq> RsReadable \<or> rs_queue w \<noteq> [] \<longrightarrow> rs_requests w = [])
   \<and> sorted_wrt (<) (map fst (r_given w) @ map rp_promise (rs_requests w))
   \<and> (\<exists>rest. r_accepted w = map snd (r_given w) @ rest
        \<and> (rs_state (r_stream w) = RsReadable \<longrightarrow> rest = map vs_value (rs_queue w)))"

text \<open>A stream with an empty queue whose close is requested is about to be closed.\<close>

definition close_ok :: "rworld \<Rightarrow> bool" where
  "close_ok w \<longleftrightarrow> (rs_state (r_stream w) = RsReadable \<and> rc_close_requested (r_controller w) \<longrightarrow> rs_queue w \<noteq> [])"

definition rs_inv0 :: "rworld \<Rightarrow> bool" where
  "rs_inv0 w \<longleftrightarrow> control_ok w \<and> reader_ok w \<and> promise_ok w \<and> given_ok w \<and> (r_native_size w \<longrightarrow> order_ok w)"

definition rs_inv :: "rworld \<Rightarrow> bool" where
  "rs_inv w \<longleftrightarrow> rs_inv0 w \<and> close_ok w"

lemmas rinv_defs = rs_inv_def rs_inv0_def close_ok_def control_ok_def reader_ok_def promise_ok_def given_ok_def order_ok_def

lemma ok_frame [simp]:
  "reader_ok (w\<lparr>r_controller := c\<rparr>) = reader_ok w" "promise_ok (w\<lparr>r_controller := c\<rparr>) = promise_ok w"
  "given_ok (w\<lparr>r_controller := c\<rparr>) = given_ok w"
  "reader_ok (w\<lparr>r_stream := (r_stream w)\<lparr>rs_disturbed := b\<rparr>\<rparr>) = reader_ok w"
  "promise_ok (w\<lparr>r_stream := (r_stream w)\<lparr>rs_disturbed := b\<rparr>\<rparr>) = promise_ok w"
  "given_ok (w\<lparr>r_stream := (r_stream w)\<lparr>rs_disturbed := b\<rparr>\<rparr>) = given_ok w"
  by (simp_all add: reader_ok_def promise_ok_def given_ok_def foreign_def)

lemma ok_reactions [simp]:
  "reader_ok (w\<lparr>r_reactions := rs\<rparr>) = reader_ok w" "given_ok (w\<lparr>r_reactions := rs\<rparr>) = given_ok w"
  "order_ok (w\<lparr>r_reactions := rs\<rparr>) = order_ok w" "close_ok (w\<lparr>r_reactions := rs\<rparr>) = close_ok w"
  "foreign (w\<lparr>r_reactions := rs\<rparr>) = foreign w"
  by (simp_all add: reader_ok_def given_ok_def order_ok_def close_ok_def foreign_def fun_eq_iff)

lemma order_ok_controller:
  "rc_container c = rc_container (r_controller w) \<Longrightarrow> rc_size_algorithm c = rc_size_algorithm (r_controller w) \<Longrightarrow>
   order_ok (w\<lparr>r_controller := c\<rparr>) = order_ok w"
  by (simp add: order_ok_def)

lemma close_ok_controller:
  "rc_container c = rc_container (r_controller w) \<Longrightarrow> rc_close_requested c = rc_close_requested (r_controller w) \<Longrightarrow>
   close_ok (w\<lparr>r_controller := c\<rparr>) = close_ok w"
  by (simp add: close_ok_def)

lemma promise_ok_reaction:
  "promise_ok w \<Longrightarrow> (\<And>rp. r = ROnCancel rp \<Longrightarrow> foreign w (rp_promise rp)) \<Longrightarrow> promise_ok (r_upon_promise p r w)"
  by (auto simp: promise_ok_def r_upon_promise_def)

subsection \<open>What an operation cannot do\<close>

fun rstate_le :: "rs_state \<Rightarrow> rs_state \<Rightarrow> bool" where
  "rstate_le RsReadable st \<longleftrightarrow> True"
| "rstate_le RsClosed st \<longleftrightarrow> st = RsClosed"
| "rstate_le (RsErrored e) st \<longleftrightarrow> st = RsErrored e"

lemma rstate_le_refl [simp]: "rstate_le st st"
  by (cases st) auto

lemma rstate_le_trans: "rstate_le a b \<Longrightarrow> rstate_le b c \<Longrightarrow> rstate_le a c"
  by (cases a; cases b) auto

definition rframe :: "rworld \<Rightarrow> rworld \<Rightarrow> bool" where
  "rframe w w' \<longleftrightarrow>
     rc_started (r_controller w') = rc_started (r_controller w)
   \<and> n_rstart (r_reactions w') = n_rstart (r_reactions w)
   \<and> (rc_pulling (r_controller w) \<longrightarrow> rc_pulling (r_controller w') \<and> n_rpull (r_reactions w') = n_rpull (r_reactions w))
   \<and> rstate_le (rs_state (r_stream w)) (rs_state (r_stream w'))
   \<and> store_le (r_promises w) (r_promises w')
   \<and> set (r_given w) \<subseteq> set (r_given w')
   \<and> r_native_size w' = r_native_size w"

lemma rframe_refl [simp]: "rframe w w"
  by (simp add: rframe_def)

lemma rframe_trans: "rframe a b \<Longrightarrow> rframe b c \<Longrightarrow> rframe a c"
  unfolding rframe_def by (auto intro: rstate_le_trans store_le_trans)

text \<open>\<open>fine w w'\<close>: the operation from \<open>w\<close> to \<open>w'\<close> kept everything.\<close>

definition rfine :: "rworld \<Rightarrow> rworld \<Rightarrow> bool" where
  "rfine w w' \<longleftrightarrow> rs_inv w' \<and> rframe w w' \<and> loose w' = loose w"

lemma rfine_trans: "rfine a b \<Longrightarrow> rfine b c \<Longrightarrow> rfine a c"
  by (auto simp: rfine_def intro: rframe_trans)

lemma rfine_inv: "rfine w w' \<Longrightarrow> rs_inv w'"
  by (simp add: rfine_def)

lemma rfine_refl [simp]: "rfine w w = rs_inv w"
  by (simp add: rfine_def)

definition rgood :: "rworld \<Rightarrow> rworld option \<Rightarrow> bool" where
  "rgood w x \<longleftrightarrow> (\<exists>w'. x = Some w' \<and> rfine w w')"

definition rgood_result :: "rworld \<Rightarrow> ('a \<times> rworld) option \<Rightarrow> bool" where
  "rgood_result w x \<longleftrightarrow> (\<exists>r w'. x = Some (r, w') \<and> rfine w w')"

lemma rgood_Some [simp]: "rgood w (Some w') = rfine w w'"
  by (simp add: rgood_def)

lemma rgood_result_Some [simp]: "rgood_result w (Some (r, w')) = rfine w w'"
  by (simp add: rgood_result_def)

lemma rgood_trans: "rfine a b \<Longrightarrow> rgood b x \<Longrightarrow> rgood a x"
  by (auto simp: rgood_def intro: rfine_trans)

lemma rgood_result_trans: "rfine a b \<Longrightarrow> rgood_result b x \<Longrightarrow> rgood_result a x"
  by (auto simp: rgood_result_def intro: rfine_trans)

lemma rgoodE: "rgood w x \<Longrightarrow> (\<And>w'. x = Some w' \<Longrightarrow> rfine w w' \<Longrightarrow> P) \<Longrightarrow> P"
  by (auto simp: rgood_def)

lemma rgood_resultE: "rgood_result w x \<Longrightarrow> (\<And>r w'. x = Some (r, w') \<Longrightarrow> rfine w w' \<Longrightarrow> P) \<Longrightarrow> P"
  by (auto simp: rgood_result_def)

subsection \<open>Updates of the promises\<close>

lemma promises_fine:
  assumes w: "rs_inv w" and le: "store_le (r_promises w) ps"
    and same: "\<And>p. p \<in> set (r_reads w) \<Longrightarrow> pstate ps p = pstate (r_promises w) p"
  shows "rfine w (w\<lparr>r_promises := ps\<rparr>)"
proof -
  let ?w = "w\<lparr>r_promises := ps\<rparr>"
  have req: "rs_requests ?w = rs_requests w" by simp
  have l: "loose ?w = loose w" using same by (auto simp: loose_def req)
  have fo: "foreign w p \<Longrightarrow> foreign ?w p" for p using le by (auto simp: foreign_def store_le_def)
  have "promise_ok ?w"
    using w le same fo unfolding rs_inv_def rs_inv0_def promise_ok_def req by (fastforce simp: store_le_def)
  moreover have "given_ok ?w" using w same unfolding rs_inv_def rs_inv0_def given_ok_def req l by fastforce
  ultimately have "rs_inv ?w" using w by (simp add: rs_inv_def rs_inv0_def close_ok_def control_ok_def reader_ok_def order_ok_def req)
  then show ?thesis using le by (simp add: rfine_def l rframe_def)
qed

lemma resolved_with_fine:
  assumes "rs_inv w" "r_with_promises (promise_resolved_with out) w = (p, w')"
  shows "rfine w w'"
proof -
  obtain ps where ps: "promise_resolved_with out (r_promises w) = (p, ps)" "w' = w\<lparr>r_promises := ps\<rparr>"
    using assms(2) by (auto simp: r_with_promises_def split: prod.splits)
  show ?thesis unfolding ps(2)
    using promise_resolved_with_old [OF ps(1)] assms(1) store_le_promise_resolved_with [OF ps(1)]
    by (intro promises_fine) (auto simp: rs_inv_def rs_inv0_def promise_ok_def)
qed

lemma alloc_fine:
  assumes "rs_inv w" "r_with_promises (alloc st) w = (p, w')"
  shows "rfine w w' \<and> p = length (r_promises w)"
proof -
  have w': "w' = w\<lparr>r_promises := r_promises w @ [\<lparr>p_state = st, p_handled = False\<rparr>]\<rparr>" "p = length (r_promises w)"
    using assms(2) by (auto simp: r_with_promises_def alloc_def)
  show ?thesis unfolding w' using assms(1)
    by (intro conjI promises_fine refl) (auto simp: rs_inv_def rs_inv0_def promise_ok_def store_le_def pstate_def nth_append)
qed

lemma settle_fine:
  assumes "rs_inv w" "p \<notin> set (r_reads w)"
  shows "rfine w (upd_rpromises (settle p st) w)"
  using assms by (intro promises_fine store_le_settle) (auto simp: pstate_settle)

subsection \<open>Flags\<close>

lemma flags_fine:
  assumes "rs_inv w"
  shows "rfine w (upd_rstream (\<lambda>s. s\<lparr>rs_disturbed := True\<rparr>) w)" "rfine w (upd_rcontroller (\<lambda>c. c\<lparr>rc_pull_again := b\<rparr>) w)"
    "rfine w (upd_rcontroller (\<lambda>c. c\<lparr>rc_native_pull := b\<rparr>) w)"
  using assms by (simp_all add: rfine_def rframe_def rinv_defs foreign_def)

subsection \<open>The end of a stream\<close>

definition detach :: "nat option \<Rightarrow> rworld \<Rightarrow> nat \<Rightarrow> rreader" where
  "detach rd w = (case rd of None \<Rightarrow> r_readers w | Some i \<Rightarrow> (r_readers w)(i := (r_readers w i)\<lparr>rr_requests := []\<rparr>))"

definition requests_of :: "nat option \<Rightarrow> rworld \<Rightarrow> resolveable_promise list" where
  "requests_of rd w = (case rd of None \<Rightarrow> [] | Some i \<Rightarrow> rr_requests (r_readers w i))"

lemma readable_stream_error_eq:
  "readable_stream_error rd e w = w\<lparr>r_stream := (r_stream w)\<lparr>rs_state := RsErrored e\<rparr>, r_readers := detach rd w,
     r_promises := fold (\<lambda>rp. rp_do_reject rp e) (requests_of rd w)
       (case rd of None \<Rightarrow> r_promises w
        | Some i \<Rightarrow> rp_set_is_handled (rr_closed (r_readers w i)) (rp_do_reject (rr_closed (r_readers w i)) e (r_promises w)))\<rparr>"
  by (cases rd) (simp_all add: readable_stream_error_def error_read_requests_def detach_def requests_of_def fold_request_error Let_def)

lemma readable_stream_close_eq:
  "readable_stream_close rd w = w\<lparr>r_stream := (r_stream w)\<lparr>rs_state := RsClosed\<rparr>, r_readers := detach rd w,
     r_promises := fold (\<lambda>rp. rp_do_resolve rp (ReadResult Undefined True)) (requests_of rd w)
       (case rd of None \<Rightarrow> r_promises w
        | Some i \<Rightarrow> rp_resolve_undefined (rr_closed (r_readers w i)) (r_promises w))\<rparr>"
  by (cases rd) (simp_all add: readable_stream_close_def detach_def requests_of_def fold_close_steps Let_def)

lemma requests_of_cases:
  assumes "reader_ok w"
  shows "requests_of rd w = (if rd = rs_reader (r_stream w) then rs_requests w else [])"
  using assms by (auto simp: requests_of_def rs_requests_def reader_ok_def split: option.split)

lemma settles_other:
  "settles rps st ps ps' \<Longrightarrow> length ps' = length ps" "settles rps st ps ps' \<Longrightarrow> st \<noteq> Pending \<Longrightarrow> store_le ps ps'"
  by (auto simp: settles_def store_le_def)

lemma store_le_Fulfilled: "store_le ps ps' \<Longrightarrow> p < length ps \<Longrightarrow> pstate ps p = Fulfilled v \<Longrightarrow> pstate ps' p = Fulfilled v"
  by (simp add: store_le_def)

lemma given_ok_keep:
  assumes "given_ok w" "promise_ok w" "r_given w' = r_given w" "r_reads w' = r_reads w" "loose w' = loose w"
    "store_le (r_promises w) (r_promises w')" "rs_requests w' = [] \<or> rs_requests w' = rs_requests w"
  shows "given_ok w'"
proof -
  have "distinct (map fst (r_given w') @ map rp_promise (rs_requests w'))" using assms(1,3,7) by (auto simp: given_ok_def)
  moreover have "p \<in> set (r_reads w') \<and> (pstate (r_promises w') p = Fulfilled (ReadResult c False) \<or> p \<in> loose w')"
    if "(p, c) \<in> set (r_given w')" for p c
  proof -
    have "p \<in> set (r_reads w)" "pstate (r_promises w) p = Fulfilled (ReadResult c False) \<or> p \<in> loose w"
      using that assms(1,3) by (auto simp: given_ok_def)
    moreover from this have "p < length (r_promises w)" using assms(2) by (simp add: promise_ok_def)
    ultimately show ?thesis using store_le_Fulfilled [OF assms(6)] assms(4,5) by auto
  qed
  ultimately show ?thesis by (simp add: given_ok_def)
qed

lemma finish_fine:
  assumes w: "rs_inv0 w" and st: "rs_state (r_stream w) = RsReadable" "st \<noteq> RsReadable"
    and rd: "r_native_size w \<longrightarrow> rd = rs_reader (r_stream w)"
    and ps1: "store_le (r_promises w) ps1" "length ps1 = length (r_promises w)"
      "\<forall>p \<in> set (r_reads w). pstate ps1 p = pstate (r_promises w) p"
    and ps2: "settles (requests_of rd w) x ps1 ps2" "x \<noteq> Pending"
    and c: "rc_started c = rc_started (r_controller w)" "rc_pulling c = rc_pulling (r_controller w)"
      "rc_size_algorithm c = None \<or> rc_size_algorithm c = rc_size_algorithm (r_controller w)"
  shows "rfine w (w\<lparr>r_controller := c, r_stream := (r_stream w)\<lparr>rs_state := st\<rparr>, r_readers := detach rd w, r_promises := ps2\<rparr>)"
    (is "rfine w ?w")
proof -
  define w' where "w' = ?w"
  have f: "r_controller w' = c" "r_stream w' = (r_stream w)\<lparr>rs_state := st\<rparr>" "r_readers w' = detach rd w" "r_promises w' = ps2"
    "r_next_reader w' = r_next_reader w" "r_reactions w' = r_reactions w" "r_accepted w' = r_accepted w" "r_given w' = r_given w"
    "r_reads w' = r_reads w" "r_user_promises w' = r_user_promises w" "r_native_size w' = r_native_size w"
    by (simp_all add: w'_def)
  have ro: "reader_ok w" and po: "promise_ok w" and go: "given_ok w" using w by (simp_all add: rs_inv0_def)
  note ro_of = requests_of_cases [OF ro, of rd]
  have len: "length ps2 = length (r_promises w)" using settles_other(1) [OF ps2(1)] ps1(2) by simp
  have req: "rs_requests w' = (if rd = rs_reader (r_stream w) then [] else rs_requests w)"
    using ro by (auto simp: rs_requests_def f detach_def reader_ok_def split: option.split)
  have p2: "pstate ps2 p = (if p \<in> rp_promise ` set (requests_of rd w) \<and> pstate (r_promises w) p = Pending then x
      else pstate (r_promises w) p)" if "p \<in> set (r_reads w)" for p
    using ps2(1) ps1(2,3) po that by (auto simp: settles_def promise_ok_def)
  have loose: "loose w' = loose w" using p2 ps2(2) by (auto simp: loose_def f req ro_of split: if_splits)
  have "control_ok w'" using w st c by (simp add: rs_inv0_def control_ok_def f)
  moreover have "reader_ok w'" using ro by (auto simp: reader_ok_def f detach_def split: option.splits)
  moreover have fo: "foreign w' = foreign w" by (simp add: fun_eq_iff foreign_def f len)
  have cl: "rr_closed (r_readers w' j) = rr_closed (r_readers w j)" for j by (simp add: f detach_def split: option.split)
  have "pstate ps2 (rp_promise rp) = Pending" if "rp \<in> set (rs_requests w')" for rp
    using that p2 [of "rp_promise rp"] po by (auto simp: req ro_of promise_ok_def split: if_splits)
  then have "promise_ok w'" using po unfolding promise_ok_def fo cl by (auto simp: f req len split: if_splits)
  moreover have le: "store_le (r_promises w) ps2" using store_le_trans [OF ps1(1) settles_other(2) [OF ps2]] .
  have "given_ok w'" using given_ok_keep [OF go po f(8,9) loose] le by (simp add: f(4) req)
  moreover have "order_ok w'" if "r_native_size w"
    using w that rd st c(3) by (auto simp: rs_inv0_def order_ok_def f req sorted_wrt_append)
  ultimately have "rfine w w'" using loose le st c by (simp add: rfine_def rs_inv_def rs_inv0_def close_ok_def rframe_def f)
  then show ?thesis by (simp add: w'_def)
qed

lemma requests_resolveable:
  "promise_ok w \<Longrightarrow> reader_ok w \<Longrightarrow> \<forall>rp \<in> set (requests_of rd w). rp_resolve rp \<and> rp_reject rp"
  by (simp add: requests_of_cases promise_ok_def)

lemma readable_stream_error_fine:
  assumes w: "rs_inv0 w" "rs_state (r_stream w) = RsReadable" and rd: "r_native_size w \<longrightarrow> rd = rs_reader (r_stream w)"
    and c: "rc_started c = rc_started (r_controller w)" "rc_pulling c = rc_pulling (r_controller w)" "rc_size_algorithm c = None"
  shows "rfine w (readable_stream_error rd e (w\<lparr>r_controller := c\<rparr>))"
proof -
  have fo: "promise_ok w" "reader_ok w" using w by (simp_all add: rs_inv0_def)
  define ps1 where "ps1 = (case rd of None \<Rightarrow> r_promises w
    | Some i \<Rightarrow> rp_set_is_handled (rr_closed (r_readers w i)) (rp_do_reject (rr_closed (r_readers w i)) e (r_promises w)))"
  have ps1: "store_le (r_promises w) ps1" "length ps1 = length (r_promises w)"
    by (auto simp: ps1_def split: option.split intro: store_le_trans [OF store_le_reject store_le_handled])
  have same: "\<forall>p \<in> set (r_reads w). pstate ps1 p = pstate (r_promises w) p"
    using fo(1) by (auto simp: ps1_def pstate_reject promise_ok_def foreign_def split: option.split)
  have "settles (requests_of rd w) (Rejected e) ps1 (fold (\<lambda>rp. rp_do_reject rp e) (requests_of rd w) ps1)"
    using requests_resolveable [OF fo] by (intro settles_fold_reject) blast
  from finish_fine [where st = "RsErrored e", OF w _ rd ps1 same this _ c(1,2) disjI1 [OF c(3)]]
  show ?thesis by (simp add: readable_stream_error_eq requests_of_def detach_def ps1_def cong: option.case_cong)
qed

lemma readable_stream_close_fine:
  assumes w: "rs_inv0 w" "rs_state (r_stream w) = RsReadable" and rd: "r_native_size w \<longrightarrow> rd = rs_reader (r_stream w)"
    and c: "rc_started c = rc_started (r_controller w)" "rc_pulling c = rc_pulling (r_controller w)"
      "rc_size_algorithm c = None \<or> rc_size_algorithm c = rc_size_algorithm (r_controller w)"
  shows "rfine w (readable_stream_close rd (w\<lparr>r_controller := c\<rparr>))"
proof -
  have fo: "promise_ok w" "reader_ok w" using w by (simp_all add: rs_inv0_def)
  define ps1 where "ps1 = (case rd of None \<Rightarrow> r_promises w
    | Some i \<Rightarrow> rp_resolve_undefined (rr_closed (r_readers w i)) (r_promises w))"
  have ps1: "store_le (r_promises w) ps1" "length ps1 = length (r_promises w)"
    by (auto simp: ps1_def split: option.split intro: store_le_resolve)
  have same: "\<forall>p \<in> set (r_reads w). pstate ps1 p = pstate (r_promises w) p"
    using fo(1) by (auto simp: ps1_def pstate_resolve_undefined promise_ok_def foreign_def split: option.split)
  have "settles (requests_of rd w) (Fulfilled (ReadResult Undefined True)) ps1
      (fold (\<lambda>rp. rp_do_resolve rp (ReadResult Undefined True)) (requests_of rd w) ps1)"
    using requests_resolveable [OF fo] by (intro settles_fold_resolve) blast
  from finish_fine [where st = RsClosed, OF w _ rd ps1 same this _ c]
  show ?thesis by (simp add: readable_stream_close_eq requests_of_def detach_def ps1_def cong: option.case_cong)
qed

lemma rc_error_fine:
  assumes w: "rs_inv w" and rd: "r_native_size w \<longrightarrow> rd = rs_reader (r_stream w)"
  shows "rfine w (rc_error rd e w)"
  using w readable_stream_error_fine [OF _ _ rd, of "rc_clear_algorithms ((r_controller w)\<lparr>rc_container := reset_queue (rc_container (r_controller w))\<rparr>)" e]
  by (auto simp: rc_error_def rs_inv_def rc_clear_algorithms_def)

lemma rc_close_fine:
  assumes w: "rs_inv w" and rd: "r_native_size w \<longrightarrow> rd = rs_reader (r_stream w)"
  shows "rfine w (rc_close rd w)"
proof (cases "can_close_or_enqueue w")
  case True
  then have r: "rs_state (r_stream w) = RsReadable" by (simp add: can_close_or_enqueue_def)
  let ?c = "(r_controller w)\<lparr>rc_close_requested := True\<rparr>"
  show ?thesis
  proof (cases "rs_queue w = []")
    case True': True
    then show ?thesis using True w r readable_stream_close_fine [OF _ r rd, of "rc_clear_algorithms ?c"]
      by (simp add: rc_close_def Let_def rs_inv_def rc_clear_algorithms_def)
  next
    case False
    then have "rfine w (w\<lparr>r_controller := ?c\<rparr>)" using w
      by (auto simp: rfine_def rframe_def rs_inv_def rs_inv0_def close_ok_def control_ok_def order_ok_def)
    with False True show ?thesis by (simp add: rc_close_def Let_def)
  qed
qed (use w in \<open>simp add: rc_close_def\<close>)

subsection \<open>Requests and the queue\<close>

lemma fulfill_fine:
  assumes w: "rs_inv w" and st: "rs_state (r_stream w) = RsReadable" and i: "rr_requests (r_readers w i) = rp # rps"
  shows "rgood w (fulfill_read_request i chunk False (w\<lparr>r_accepted := r_accepted w @ [chunk]\<rparr>))"
proof -
  have ro: "reader_ok w" and po: "promise_ok w" and go: "given_ok w" using w by (simp_all add: rs_inv_def rs_inv0_def)
  have cur: "rs_reader (r_stream w) = Some i" using ro i by (metis list.distinct(1) reader_ok_def)
  then have rw: "rs_requests w = rp # rps" using i by (simp add: rs_requests_def)
  define w' where "w' = chunk_steps rp chunk (w\<lparr>r_accepted := r_accepted w @ [chunk],
     r_readers := (r_readers w)(i := (r_readers w i)\<lparr>rr_requests := rps\<rparr>), r_given := r_given w @ [(rp_promise rp, chunk)]\<rparr>)"
  have f: "r_controller w' = r_controller w" "r_stream w' = r_stream w"
    "r_readers w' = (r_readers w)(i := (r_readers w i)\<lparr>rr_requests := rps\<rparr>)"
    "r_promises w' = rp_do_resolve rp (ReadResult chunk False) (r_promises w)"
    "r_next_reader w' = r_next_reader w" "r_reactions w' = r_reactions w" "r_accepted w' = r_accepted w @ [chunk]"
    "r_given w' = r_given w @ [(rp_promise rp, chunk)]"
    "r_reads w' = r_reads w" "r_user_promises w' = r_user_promises w" "r_native_size w' = r_native_size w"
    by (simp_all add: w'_def chunk_steps_def)
  have req: "rs_requests w' = rps" by (simp add: rs_requests_def f cur)
  have p: "rp_resolve rp" "rp_promise rp \<in> set (r_reads w)" "pstate (r_promises w) (rp_promise rp) = Pending"
    "rp_promise rp < length (r_promises w)" using po by (auto simp: promise_ok_def rw)
  have ps: "pstate (r_promises w') q = (if q = rp_promise rp then Fulfilled (ReadResult chunk False) else pstate (r_promises w) q)" for q
    using p by (simp add: f pstate_resolve)
  have dis: "distinct (map fst (r_given w) @ rp_promise rp # map rp_promise rps)" using go by (simp add: given_ok_def rw)
  have loose: "loose w' = loose w" by (auto simp: loose_def ps req rw f(9))
  have "control_ok w'" using w by (simp add: rs_inv_def rs_inv0_def control_ok_def f)
  moreover have "reader_ok w'" using ro cur by (auto simp: reader_ok_def f)
  moreover have fo: "foreign w' = foreign w" by (simp add: fun_eq_iff foreign_def f)
  have cl: "rr_closed (r_readers w' j) = rr_closed (r_readers w j)" for j by (simp add: f)
  have "pstate (r_promises w') (rp_promise r) = Pending" if "r \<in> set rps" for r
  proof -
    have "rp_promise r \<in> rp_promise ` set rps" using that by simp
    then have "rp_promise r \<noteq> rp_promise rp" using dis by auto
    then show ?thesis using that po by (simp add: ps promise_ok_def rw)
  qed
  then have "promise_ok w'" using po unfolding promise_ok_def fo cl by (auto simp: f(4,6,9,10) req rw)
  moreover have "q \<noteq> rp_promise rp" if "(q, c) \<in> set (r_given w)" for q c using that dis by force
  then have "given_ok w'" using go dis p(2) unfolding given_ok_def loose by (simp add: ps req f(8,9))
  moreover have "order_ok w'" if "r_native_size w"
    using w that st by (auto simp: rs_inv_def rs_inv0_def order_ok_def f req rw sorted_wrt_append)
  ultimately have "rfine w w'" using w loose
    by (auto simp: rfine_def rs_inv_def rs_inv0_def close_ok_def rframe_def f store_le_do_resolve)
  then show ?thesis using i by (simp add: fulfill_read_request_def Let_def w'_def)
qed

lemma enqueue_fine:
  assumes w: "rs_inv w" and req: "r_native_size w \<longrightarrow> rs_requests w = [] \<and> rs_state (r_stream w) = RsReadable"
    and q: "enqueue_value_with_size chunk sz (rc_container (r_controller w)) = Inr q"
  shows "rfine w (upd_rcontroller (\<lambda>c. c\<lparr>rc_container := q\<rparr>) (w\<lparr>r_accepted := r_accepted w @ [chunk]\<rparr>))"
proof -
  have "map vs_value (queue q) = map vs_value (rs_queue w) @ [chunk]" using q by (auto elim: enqueue_Inr)
  then show ?thesis using w req
    by (auto simp: rfine_def rframe_def rs_inv_def rs_inv0_def control_ok_def close_ok_def order_ok_def
        promise_ok_def foreign_def reader_ok_def given_ok_def)
qed

text \<open>A new read is loose until it is settled or its request is added.\<close>

definition taken :: "rworld \<Rightarrow> nat \<Rightarrow> bool" where
  "taken w p \<longleftrightarrow> p \<in> loose w \<and> (\<forall>q \<in> set (map fst (r_given w) @ map rp_promise (rs_requests w)). q < p)"

lemma read_start:
  assumes w: "rs_inv w" and rp: "r_with_promises rp_new w = (rp, w1)"
  defines "w2 \<equiv> w1\<lparr>r_reads := r_reads w1 @ [rp_promise rp]\<rparr>"
  shows "rs_inv w2" "rframe w w2" "loose w2 = insert (rp_promise rp) (loose w)" "rp_promise rp \<notin> loose w"
    "taken w2 (rp_promise rp)" "rp_resolve rp" "rp_reject rp"
    "r_readers w2 = r_readers w" "r_stream w2 = r_stream w"
proof -
  let ?n = "length (r_promises w)"
  have po: "promise_ok w" and go: "given_ok w" using w by (simp_all add: rs_inv_def rs_inv0_def)
  have rp': "rp = \<lparr>rp_promise = ?n, rp_resolve = True, rp_reject = True\<rparr>"
    "w2 = w\<lparr>r_promises := r_promises w @ [\<lparr>p_state = Pending, p_handled = False\<rparr>], r_reads := r_reads w @ [?n]\<rparr>"
    using rp by (auto simp: w2_def r_with_promises_def rp_new_def alloc_def)
  have f: "r_controller w2 = r_controller w" "r_stream w2 = r_stream w" "r_readers w2 = r_readers w"
    "r_next_reader w2 = r_next_reader w" "r_reactions w2 = r_reactions w" "r_accepted w2 = r_accepted w"
    "r_given w2 = r_given w" "r_reads w2 = r_reads w @ [?n]" "r_user_promises w2 = r_user_promises w" "r_native_size w2 = r_native_size w"
    "length (r_promises w2) = Suc ?n" by (simp_all add: rp')
  have req: "rs_requests w2 = rs_requests w" by (simp add: rp')
  have ps: "pstate (r_promises w2) q = pstate (r_promises w) q" for q by (auto simp: rp' pstate_def nth_append)
  have pn: "pstate (r_promises w) ?n = Pending" by (simp add: pstate_def)
  have new: "?n \<notin> set (r_reads w)" "?n \<notin> rp_promise ` set (rs_requests w)" using po by (auto simp: promise_ok_def)
  have loose: "loose w2 = insert ?n (loose w)" using new pn by (auto simp: loose_def ps req f(8))
  have "reader_ok w2" using w by (simp add: rs_inv_def rs_inv0_def reader_ok_def f)
  moreover have "foreign w q \<Longrightarrow> foreign w2 q" for q by (auto simp: foreign_def f)
  then have "promise_ok w2" using po unfolding promise_ok_def req ps f by (auto simp: less_Suc_eq)
  moreover have "given_ok w2" using go unfolding given_ok_def req ps loose f by auto
  ultimately show "rs_inv w2"
    using w by (simp add: rs_inv_def rs_inv0_def control_ok_def order_ok_def close_ok_def f req)
  show "rframe w w2" by (simp add: rframe_def f store_le_def ps)
  show "loose w2 = insert (rp_promise rp) (loose w)" "rp_resolve rp" "rp_reject rp" "r_readers w2 = r_readers w" "r_stream w2 = r_stream w"
    using loose by (simp_all add: rp' f)
  show "rp_promise rp \<notin> loose w" using new by (simp add: rp' loose_def)
  show "taken w2 (rp_promise rp)"
    using po go loose by (auto simp: taken_def req f rp'(1) promise_ok_def given_ok_def)
qed

lemma settle_taken:
  assumes w: "rs_inv w" "taken w p" and ps: "pstate ps p \<noteq> Pending" "store_le (r_promises w) ps"
    "\<And>q. q \<noteq> p \<Longrightarrow> pstate ps q = pstate (r_promises w) q" "length ps = length (r_promises w)"
  shows "rs_inv (w\<lparr>r_promises := ps\<rparr>)" "rframe w (w\<lparr>r_promises := ps\<rparr>)" "loose (w\<lparr>r_promises := ps\<rparr>) = loose w - {p}"
proof -
  let ?w = "w\<lparr>r_promises := ps\<rparr>"
  have po: "promise_ok w" and go: "given_ok w" using w by (simp_all add: rs_inv_def rs_inv0_def)
  have p: "p \<in> loose w" "p \<notin> fst ` set (r_given w)" "p \<notin> rp_promise ` set (rs_requests w)" using w(2) by (auto simp: taken_def)
  have e: "pstate ps q = Pending \<longleftrightarrow> q \<noteq> p \<and> pstate (r_promises w) q = Pending" for q using ps(1,3) by metis
  show l: "loose ?w = loose w - {p}" by (auto simp: loose_def e)
  have "promise_ok ?w" using po p(3) unfolding promise_ok_def by (auto simp: foreign_def e ps(4))
  moreover have "given_ok ?w"
  proof -
    have "q \<noteq> p" if "(q, c) \<in> set (r_given w)" for q c using that p(2) by force
    then show ?thesis using go ps(3) unfolding given_ok_def l by simp
  qed
  ultimately show "rs_inv ?w" using w(1)
    by (simp add: rs_inv_def rs_inv0_def control_ok_def reader_ok_def order_ok_def close_ok_def)
  show "rframe w ?w" using ps(2) by (simp add: rframe_def)
qed

lemma add_request_fine:
  assumes w: "rs_inv w" "taken w (rp_promise rp)" and rp: "rp_resolve rp" "rp_reject rp"
    and i: "rs_reader (r_stream w) = Some i" and st: "rs_state (r_stream w) = RsReadable" "rs_queue w = []"
  shows "rs_inv (add_read_request i rp w)" "rframe w (add_read_request i rp w)"
    "loose (add_read_request i rp w) = loose w - {rp_promise rp}"
proof -
  define w' where "w' = add_read_request i rp w"
  have f: "r_controller w' = r_controller w" "r_stream w' = r_stream w"
    "r_readers w' = (r_readers w)(i := (r_readers w i)\<lparr>rr_requests := rr_requests (r_readers w i) @ [rp]\<rparr>)"
    "r_promises w' = r_promises w" "r_next_reader w' = r_next_reader w" "r_reactions w' = r_reactions w"
    "r_accepted w' = r_accepted w" "r_given w' = r_given w"
    "r_reads w' = r_reads w" "r_user_promises w' = r_user_promises w" "r_native_size w' = r_native_size w"
    by (simp_all add: w'_def add_read_request_def)
  have req: "rs_requests w' = rs_requests w @ [rp]" by (simp add: rs_requests_def f i)
  have p: "rp_promise rp \<in> loose w" "rp_promise rp \<notin> fst ` set (r_given w)" "rp_promise rp \<notin> rp_promise ` set (rs_requests w)"
    using w(2) by (auto simp: taken_def)
  have po: "promise_ok w" and go: "given_ok w" and ro: "reader_ok w" using w by (simp_all add: rs_inv_def rs_inv0_def)
  have loose: "loose w' = loose w - {rp_promise rp}" by (auto simp: loose_def req f)
  have fo: "foreign w' = foreign w" by (simp add: fun_eq_iff foreign_def f)
  have cl: "rr_closed (r_readers w' j) = rr_closed (r_readers w j)" for j by (simp add: f)
  have "reader_ok w'" using ro i by (auto simp: reader_ok_def f)
  moreover have "promise_ok w'" using po p(1) rp unfolding promise_ok_def fo cl by (auto simp: req f loose_def)
  moreover have "q \<noteq> rp_promise rp" if "(q, c) \<in> set (r_given w)" for q c using that p(2) by force
  then have "given_ok w'" using go p unfolding given_ok_def loose by (auto simp: req f)
  moreover have "order_ok w'" if "r_native_size w"
    using w that st by (auto simp: rs_inv_def rs_inv0_def order_ok_def f req sorted_wrt_append taken_def)
  ultimately show "rs_inv (add_read_request i rp w)" using w(1)
    by (simp add: rs_inv_def rs_inv0_def control_ok_def close_ok_def f flip: w'_def)
  show "rframe w (add_read_request i rp w)" by (simp add: rframe_def f flip: w'_def)
  show "loose (add_read_request i rp w) = loose w - {rp_promise rp}" using loose by (simp add: w'_def)
qed

text \<open>A chunk is taken from the queue for a read.\<close>

lemma dequeue_fine:
  assumes w: "rs_inv w" "taken w p" and q: "dequeue_value (rc_container (r_controller w)) = Some (chunk, q)"
    and st: "rs_state (r_stream w) = RsReadable"
  defines "w' \<equiv> upd_rcontroller (\<lambda>c. c\<lparr>rc_container := q\<rparr>) (w\<lparr>r_given := r_given w @ [(p, chunk)]\<rparr>)"
  shows "rs_inv0 w'" "rframe w w'" "loose w' = loose w"
proof -
  have p: "p \<in> loose w" "p \<notin> fst ` set (r_given w)" "p \<notin> rp_promise ` set (rs_requests w)"
    using w(2) by (auto simp: taken_def)
  have qs: "map vs_value (rs_queue w) = chunk # map vs_value (queue q)"
    using q by (auto simp: dequeue_value_def Let_def split: list.splits)
  then have ne: "rs_queue w \<noteq> []" by auto
  show loose: "loose w' = loose w" by (simp add: w'_def)
  have "order_ok w'" if "r_native_size w"
    using w that st ne qs by (auto simp: w'_def rs_inv_def rs_inv0_def order_ok_def sorted_wrt_append taken_def)
  moreover have "given_ok w'" using w p unfolding given_ok_def loose
    by (auto simp: w'_def rs_inv_def rs_inv0_def given_ok_def loose_def)
  moreover have "promise_ok w'" "reader_ok w'" "control_ok w'" using w
    by (simp_all add: w'_def rs_inv_def rs_inv0_def promise_ok_def reader_ok_def control_ok_def foreign_def)
  ultimately show "rs_inv0 w'" by (simp add: rs_inv0_def w'_def)
  show "rframe w w'" by (auto simp: w'_def rframe_def)
qed

text \<open>The read a chunk was taken for is settled with that chunk.\<close>

lemma chunk_steps_fine:
  assumes w: "rs_inv w" and p: "rp_promise rp \<in> loose w" "(rp_promise rp, chunk) \<in> set (r_given w)" "rp_resolve rp"
  shows "rs_inv (chunk_steps rp chunk w)" "rframe w (chunk_steps rp chunk w)"
    "loose (chunk_steps rp chunk w) = loose w - {rp_promise rp}"
proof -
  define w' where "w' = chunk_steps rp chunk w"
  have w': "w' = w\<lparr>r_promises := rp_do_resolve rp (ReadResult chunk False) (r_promises w)\<rparr>" by (simp add: w'_def chunk_steps_def)
  have po: "promise_ok w" and go: "given_ok w" using w by (simp_all add: rs_inv_def rs_inv0_def)
  have pl: "rp_promise rp < length (r_promises w)" "pstate (r_promises w) (rp_promise rp) = Pending"
    "rp_promise rp \<notin> rp_promise ` set (rs_requests w)" using p(1) po by (auto simp: loose_def promise_ok_def)
  have ps: "pstate (r_promises w') q = (if q = rp_promise rp then Fulfilled (ReadResult chunk False) else pstate (r_promises w) q)" for q
    using p(3) pl by (simp add: w' pstate_resolve)
  have req: "rs_requests w' = rs_requests w" by (simp add: w')
  have f: "r_reads w' = r_reads w" "r_given w' = r_given w" "length (r_promises w') = length (r_promises w)"
    "r_readers w' = r_readers w" "r_reactions w' = r_reactions w" "r_user_promises w' = r_user_promises w" by (simp_all add: w')
  have loose: "loose w' = loose w - {rp_promise rp}" by (auto simp: loose_def ps req f)
  have fo: "foreign w' = foreign w" by (simp add: fun_eq_iff foreign_def f)
  have "pstate (r_promises w') (rp_promise r) = Pending" if "r \<in> set (rs_requests w)" for r
  proof -
    have "rp_promise r \<in> rp_promise ` set (rs_requests w)" using that by simp
    then have "rp_promise r \<noteq> rp_promise rp" using pl(3) by auto
    then show ?thesis using that po by (simp add: ps promise_ok_def)
  qed
  then have "promise_ok w'" using po unfolding promise_ok_def fo by (simp add: req f)
  moreover have "c = chunk" if "(rp_promise rp, c) \<in> set (r_given w)" for c
    using that p(2) go eq_key_imp_eq_value [of "r_given w"] by (auto simp: given_ok_def)
  then have "given_ok w'" using go unfolding given_ok_def loose by (auto simp: ps req f)
  ultimately show "rs_inv (chunk_steps rp chunk w)" using w
    by (simp add: rs_inv_def rs_inv0_def control_ok_def reader_ok_def order_ok_def close_ok_def w' flip: w'_def)
  show "rframe w (chunk_steps rp chunk w)" by (simp add: rframe_def w' store_le_do_resolve flip: w'_def)
  show "loose (chunk_steps rp chunk w) = loose w - {rp_promise rp}" using loose by (simp add: w'_def)
qed

subsection \<open>Readers\<close>

lemma set_up_reader_fine:
  assumes w: "rs_inv w"
  shows "rfine w (snd (set_up_default_reader w))"
proof (cases "is_readable_stream_locked (r_stream w)")
  case False
  have po: "promise_ok w" and go: "given_ok w" and ro: "reader_ok w" using w by (simp_all add: rs_inv_def rs_inv0_def)
  obtain closed ps where g: "generic_initialize (r_stream w) (r_promises w) = (closed, ps)" by fastforce
  have old: "length (r_promises w) \<le> length ps" "\<forall>q < length (r_promises w). pstate ps q = pstate (r_promises w) q"
    "rp_promise closed < length ps" "rp_promise closed = 0 \<or> length (r_promises w) \<le> rp_promise closed"
    using g po by (auto simp: generic_initialize_def rp_new_def alloc_def rp_rejected_with_def promise_rejected_with_def
        rp_resolved_with_undefined_def promise_resolved_with_undefined_def pstate_def nth_append Let_def rp_set_is_handled_def
        promise_ok_def foreign_def nth_list_update split: rs_state.splits)
  define w' where "w' = snd (set_up_default_reader w)"
  have none: "rs_reader (r_stream w) = None" using False by (simp add: is_readable_stream_locked_def)
  let ?i = "r_next_reader w"
  have f: "r_controller w' = r_controller w" "r_stream w' = (r_stream w)\<lparr>rs_reader := Some ?i\<rparr>"
    "r_readers w' = (r_readers w)(?i := \<lparr>rr_closed = closed, rr_attached = True, rr_requests = []\<rparr>)"
    "r_promises w' = ps" "r_next_reader w' = Suc ?i" "r_reactions w' = r_reactions w"
    "r_accepted w' = r_accepted w" "r_given w' = r_given w"
    "r_reads w' = r_reads w" "r_user_promises w' = r_user_promises w" "r_native_size w' = r_native_size w"
    using False g by (simp_all add: w'_def set_up_default_reader_def r_with_promises_def Let_def)
  have req: "rs_requests w' = []" "rs_requests w = []" by (simp_all add: rs_requests_def f none)
  have same: "\<forall>q \<in> set (r_reads w). pstate ps q = pstate (r_promises w) q" using old po by (simp add: promise_ok_def)
  have loose: "loose w' = loose w" using same by (auto simp: loose_def req f)
  have fo: "foreign w q \<Longrightarrow> foreign w' q" for q using old by (simp add: foreign_def f)
  have fc: "foreign w' (rp_promise closed)" using old po by (auto simp: foreign_def f promise_ok_def)
  have le: "store_le (r_promises w) ps" using old by (simp add: store_le_def)
  have "reader_ok w'" using ro none by (auto simp: reader_ok_def f)
  moreover have "promise_ok w'" using po fo fc unfolding promise_ok_def
    by (auto simp: f(3,6,9,10) req) (use old in \<open>auto simp: f(4)\<close>)
  moreover have "given_ok w'" using given_ok_keep [OF go po f(8,9) loose] le by (simp add: f(4) req)
  moreover have "order_ok w'" if "order_ok w" using that by (simp add: order_ok_def f req)
  ultimately have "rfine w w'" using w loose le
    by (simp add: rfine_def rs_inv_def rs_inv0_def control_ok_def close_ok_def rframe_def f)
  then show ?thesis by (simp add: w'_def)
qed (use w in \<open>simp add: set_up_default_reader_def\<close>)

lemma release_fine:
  assumes w: "rs_inv w"
  shows "rfine w (reader_release_lock i w)"
proof (cases "rr_attached (r_readers w i)")
  case True
  have po: "promise_ok w" and go: "given_ok w" and ro: "reader_ok w" using w by (simp_all add: rs_inv_def rs_inv0_def)
  have cur: "rs_reader (r_stream w) = Some i" using ro True by (simp add: reader_ok_def)
  define rp where "rp = fst (if rs_state (r_stream w) = RsReadable
      then (rr_closed (r_readers w i), rp_do_reject (rr_closed (r_readers w i)) reader_released_error (r_promises w))
      else rp_rejected_with reader_released_error (r_promises w))"
  define ps where "ps = snd (if rs_state (r_stream w) = RsReadable
      then (rr_closed (r_readers w i), rp_do_reject (rr_closed (r_readers w i)) reader_released_error (r_promises w))
      else rp_rejected_with reader_released_error (r_promises w))"
  let ?e = "TypeError ''Reader was released''"
  let ?rs = "rr_requests (r_readers w i)"
  define ps2 where "ps2 = fold (\<lambda>rp. rp_do_reject rp ?e) ?rs (rp_set_is_handled rp ps)"
  have old: "length (r_promises w) \<le> length ps" "\<forall>q \<in> set (r_reads w). pstate ps q = pstate (r_promises w) q"
    "store_le (r_promises w) ps" "rp_promise rp < length ps" "rp_promise rp \<notin> set (r_reads w)"
    using po by (auto simp: rp_def ps_def rp_rejected_with_def promise_rejected_with_def alloc_def pstate_reject store_le_reject
        promise_ok_def foreign_def)
  have rw: "rs_requests w = ?rs" by (simp add: rs_requests_def cur)
  have "\<forall>rp \<in> set ?rs. rp_reject rp" using po rw by (simp add: promise_ok_def)
  then have "settles ?rs (Rejected ?e) (rp_set_is_handled rp ps) ps2" unfolding ps2_def by (rule settles_fold_reject)
  then have ps2: "length ps2 = length ps" "store_le (r_promises w) ps2"
    "\<And>q. pstate ps2 q = (if q \<in> rp_promise ` set ?rs \<and> q < length ps \<and> pstate ps q = Pending then Rejected ?e else pstate ps q)"
    using settles_other(2) [of ?rs "Rejected ?e" _ ps2] store_le_trans [OF old(3) store_le_trans [OF store_le_handled]]
    by (auto simp: settles_def)
  define w' where "w' = reader_release_lock i w"
  have f: "r_controller w' = r_controller w" "r_stream w' = (r_stream w)\<lparr>rs_reader := None\<rparr>"
    "r_readers w' = (r_readers w)(i := (r_readers w i)\<lparr>rr_closed := rp, rr_attached := False, rr_requests := []\<rparr>)"
    "r_promises w' = ps2" "r_next_reader w' = r_next_reader w" "r_reactions w' = r_reactions w"
    "r_accepted w' = r_accepted w" "r_given w' = r_given w"
    "r_reads w' = r_reads w" "r_user_promises w' = r_user_promises w" "r_native_size w' = r_native_size w"
    using True by (simp_all add: w'_def reader_release_lock_def default_reader_release_def error_read_requests_def
        fold_request_error generic_release_def Let_def split_beta ps2_def rp_def ps_def)
  have req: "rs_requests w' = []" by (simp add: rs_requests_def f)
  have lt: "\<forall>q \<in> set (r_reads w). q < length ps" using po old(1) by (auto simp: promise_ok_def)
  have loose: "loose w' = loose w" using old(2) lt by (auto simp: loose_def req f ps2(3) rw)
  have fo: "foreign w q \<Longrightarrow> foreign w' q" for q using old(1) by (simp add: foreign_def f ps2)
  have fc: "foreign w' (rp_promise rp)" using old by (simp add: foreign_def f ps2)
  have "reader_ok w'" using ro cur by (auto simp: reader_ok_def f)
  moreover have "promise_ok w'" using po fo fc lt unfolding promise_ok_def by (auto simp: f(3,6,9,10) req f(4) ps2(1))
  moreover have "given_ok w'" using given_ok_keep [OF go po f(8,9) loose] ps2(2) by (simp add: f(4) req)
  moreover have "order_ok w'" if "order_ok w" using that by (auto simp: order_ok_def f req sorted_wrt_append)
  ultimately have "rfine w w'" using w loose ps2(2)
    by (simp add: rfine_def rs_inv_def rs_inv0_def control_ok_def close_ok_def rframe_def f)
  then show ?thesis by (simp add: w'_def)
qed (use w in \<open>simp add: reader_release_lock_def\<close>)

subsection \<open>The code of the user\<close>

lemma should_call_pull_Some: "\<exists>b. should_call_pull rd w = Some b \<and> (b \<longrightarrow> rs_state (r_stream w) = RsReadable)"
  by (cases "rs_state (r_stream w)") (auto simp: should_call_pull_def can_close_or_enqueue_def rc_get_desired_size_def)

locale ruser_code =
  fixes u :: ruser
  assumes ruser_ok: "rs_inv w \<Longrightarrow> rgood_result w (u c w)"
begin

lemma source_call_ok: "rs_inv w \<Longrightarrow> rgood_result w (source_call u c alg w)"
proof (cases alg)
  case SourceFunction
  assume "rs_inv w"
  then obtain out w1 where w1: "u c w = Some (out, w1)" "rfine w w1" using ruser_ok by (blast elim: rgood_resultE)
  obtain p w2 where w2: "r_with_promises (promise_resolved_with out) w1 = (p, w2)" by fastforce
  then have "rfine w1 w2" by (rule resolved_with_fine [OF rfine_inv [OF w1(2)]])
  then show ?thesis using SourceFunction w1 w2 rfine_trans by simp
qed simp

lemma call_pull_ok:
  assumes w: "rs_inv w"
  shows "rgood w (call_pull_if_needed u rd w)"
proof -
  obtain b where b: "should_call_pull rd w = Some b" "b \<Longrightarrow> rs_state (r_stream w) = RsReadable"
    using should_call_pull_Some by blast
  show ?thesis
  proof (cases "b \<and> \<not> rc_pulling (r_controller w)")
    case True
    then obtain alg where alg: "rc_pull_algorithm (r_controller w) = Some alg"
      using w b(2) by (auto simp: rs_inv_def rs_inv0_def control_ok_def)
    let ?w1 = "upd_rcontroller (\<lambda>c. c\<lparr>rc_pulling := True\<rparr>) w"
    have n: "n_rpull (r_reactions w) = 0" using w True by (simp add: rs_inv_def rs_inv0_def control_ok_def)
    have w1: "rs_inv ?w1" using w n by (simp add: rs_inv_def rs_inv0_def control_ok_def close_ok_controller order_ok_controller)
    then obtain p w2 where w2: "source_call u RCallPull alg ?w1 = Some (p, w2)" "rfine ?w1 w2"
      using source_call_ok by (blast elim: rgood_resultE)
    have fr: "rc_pulling (r_controller w2)" "n_rpull (r_reactions w2) = 0" using w2(2) n by (simp_all add: rfine_def rframe_def)
    let ?w3 = "r_upon_promise p ROnPull w2"
    have "promise_ok ?w3" using w2(2) by (intro promise_ok_reaction) (simp_all add: rfine_def rs_inv_def rs_inv0_def)
    then have "rs_inv ?w3" using w2(2) fr
      by (simp add: rfine_def r_upon_promise_def rs_inv_def rs_inv0_def control_ok_def n_rstart_def n_rpull_def)
    moreover have "rframe w ?w3" using w2(2) True by (auto simp: rfine_def rframe_def r_upon_promise_def n_rstart_def)
    moreover have "loose ?w3 = loose w" using w2(2) by (simp add: rfine_def r_upon_promise_def)
    ultimately have "rfine w ?w3" by (simp add: rfine_def)
    then show ?thesis using True b(1) alg w2(1) by (simp add: call_pull_if_needed_def pull_algorithm_def)
  next
    case False
    then show ?thesis using b(1) w flags_fine(2) [OF w] by (auto simp: call_pull_if_needed_def)
  qed
qed

lemma size_ok:
  assumes w: "rs_inv w" "rs_state (r_stream w) = RsReadable"
  shows "\<exists>res w1. rc_strategy_size_algorithm u chunk w = Some (res, w1) \<and> rfine w w1 \<and> (r_native_size w \<longrightarrow> w1 = w)"
proof -
  obtain alg where alg: "rc_size_algorithm (r_controller w) = Some alg" "r_native_size w \<longrightarrow> native_size alg"
    using w by (auto simp: rs_inv_def rs_inv0_def control_ok_def order_ok_def)
  have *: "\<exists>out w1. u c w = Some (out, w1) \<and> rfine w w1" for c using ruser_ok [OF w(1), of c] by (auto elim: rgood_resultE)
  show ?thesis
  proof (cases alg)
    case (SizeFunction f)
    then show ?thesis using alg w * [of "RCallSize chunk"] * [of "RCallByteLength chunk"]
      by (cases f) (auto simp: rc_strategy_size_algorithm_def native_size_def byte_length_size_def)
  qed (use alg w in \<open>simp add: rc_strategy_size_algorithm_def\<close>)
qed

lemma rc_enqueue_ok:
  assumes w: "rs_inv w" and rd: "r_native_size w \<longrightarrow> rd = rs_reader (r_stream w)"
  shows "rgood_result w (rc_enqueue u rd chunk w)"
proof (cases "can_close_or_enqueue w")
  case True
  then have st: "rs_state (r_stream w) = RsReadable" by (simp add: can_close_or_enqueue_def)
  show ?thesis
  proof (cases "get_num_read_requests rd w > 0")
    case num: True
    then obtain i rp rps where i: "rd = Some i" "rr_requests (r_readers w i) = rp # rps"
      by (auto simp: get_num_read_requests_def length_greater_0_conv neq_Nil_conv split: option.splits)
    obtain w1 where w1: "fulfill_read_request i chunk False (w\<lparr>r_accepted := r_accepted w @ [chunk]\<rparr>) = Some w1" "rfine w w1"
      using fulfill_fine [OF w st i(2)] by (blast elim: rgoodE)
    have "rgood w1 (call_pull_if_needed u rd w1)" using w1(2) by (intro call_pull_ok) (simp add: rfine_def)
    then obtain w2 where "call_pull_if_needed u rd w1 = Some w2" "rfine w w2" using rgood_trans [OF w1(2)] by (blast elim: rgoodE)
    then show ?thesis using True num i(1) w1(1) by (simp add: rc_enqueue_def)
  next
    case num: False
    obtain res w1 where w1: "rc_strategy_size_algorithm u chunk w = Some (res, w1)" "rfine w w1" "r_native_size w \<longrightarrow> w1 = w"
      using size_ok [OF w st] by blast
    have i1: "rs_inv w1" "r_native_size w1 = r_native_size w" using w1(2) by (simp_all add: rfine_def rframe_def)
    have rd1: "r_native_size w1 \<longrightarrow> rd = rs_reader (r_stream w1)" using rd w1(3) i1(2) by auto
    have err: "rfine w (rc_error rd e w1)" for e using rfine_trans [OF w1(2) rc_error_fine [OF i1(1) rd1]] .
    show ?thesis
    proof (cases res)
      case (Inl e)
      then show ?thesis using True num w1(1) err by (simp add: rc_enqueue_def)
    next
      case (Inr sz)
      show ?thesis
      proof (cases "enqueue_value_with_size chunk sz (rc_container (r_controller w1))")
        case (Inl e)
        then show ?thesis using True num w1(1) \<open>res = Inr sz\<close> err by (simp add: rc_enqueue_def)
      next
        case q: (Inr q)
        have "r_native_size w1 \<longrightarrow> rs_requests w1 = [] \<and> rs_state (r_stream w1) = RsReadable"
          using rd num st w1(3) i1(2) by (auto simp: get_num_read_requests_def rs_requests_def split: option.splits)
        then have e: "rfine w1 (upd_rcontroller (\<lambda>c. c\<lparr>rc_container := q\<rparr>) (w1\<lparr>r_accepted := r_accepted w1 @ [chunk]\<rparr>))" (is "rfine w1 ?w2")
          using enqueue_fine [OF i1(1) _ q] by blast
        then have "rgood ?w2 (call_pull_if_needed u rd ?w2)" by (intro call_pull_ok) (simp add: rfine_def)
        then obtain w3 where "call_pull_if_needed u rd ?w2 = Some w3" "rfine w w3"
          using rgood_trans [OF rfine_trans [OF w1(2) e]] by (blast elim: rgoodE)
        then show ?thesis using True num w1(1) \<open>res = Inr sz\<close> q by (simp add: rc_enqueue_def)
      qed
    qed
  qed
qed (use w in \<open>simp add: rc_enqueue_def\<close>)

end

subsection \<open>Reading\<close>

context ruser_code
begin

lemma pull_steps_ok:
  assumes w: "rs_inv w" "taken w (rp_promise rp)" and rp: "rp_resolve rp" "rp_reject rp"
    and i: "rs_reader (r_stream w) = Some i" and st: "rs_state (r_stream w) = RsReadable"
  shows "\<exists>w'. pull_steps u i rp w = Some w' \<and> rs_inv w' \<and> rframe w w' \<and> loose w' = loose w - {rp_promise rp}"
proof (cases "rs_queue w = []")
  case True
  note a = add_request_fine [OF w rp i st True]
  obtain w' where "call_pull_if_needed u (Some i) (add_read_request i rp w) = Some w'" "rfine (add_read_request i rp w) w'"
    using call_pull_ok [OF a(1)] by (blast elim: rgoodE)
  then show ?thesis using True a rframe_trans by (auto simp: pull_steps_def rfine_def)
next
  case False
  then obtain chunk q where q: "dequeue_value (rc_container (r_controller w)) = Some (chunk, q)"
    by (auto simp: dequeue_value_def Let_def neq_Nil_conv)
  define w1 where "w1 = upd_rcontroller (\<lambda>c. c\<lparr>rc_container := q\<rparr>) (w\<lparr>r_given := r_given w @ [(rp_promise rp, chunk)]\<rparr>)"
  note d = dequeue_fine [OF w q st, folded w1_def]
  have f1: "rs_state (r_stream w1) = RsReadable" "rs_reader (r_stream w1) = Some i" "(rp_promise rp, chunk) \<in> set (r_given w1)"
    using st i by (simp_all add: w1_def)
  obtain w2 where w2: "(if rc_close_requested (r_controller w1) \<and> rs_queue w1 = []
       then Some (readable_stream_close (Some i) (upd_rcontroller rc_clear_algorithms w1))
       else call_pull_if_needed u (Some i) w1) = Some w2" "rfine w1 w2"
  proof (cases "rc_close_requested (r_controller w1) \<and> rs_queue w1 = []")
    case True
    have "rfine w1 (readable_stream_close (Some i) (upd_rcontroller rc_clear_algorithms w1))"
      using d(1) f1 by (intro readable_stream_close_fine) (simp_all add: rc_clear_algorithms_def)
    then show ?thesis using that True by simp
  next
    case False
    then have "rs_inv w1" using d(1) by (auto simp: rs_inv_def close_ok_def)
    then have "rgood w1 (call_pull_if_needed u (Some i) w1)" by (rule call_pull_ok)
    then show ?thesis using that False by (auto elim: rgoodE)
  qed
  have p: "rp_promise rp \<in> loose w2" "(rp_promise rp, chunk) \<in> set (r_given w2)"
    using w(2) w2(2) d(3) f1(3) by (auto simp: taken_def rfine_def rframe_def)
  note c = chunk_steps_fine [OF rfine_inv [OF w2(2)] p rp(1)]
  have "rframe w (chunk_steps rp chunk w2)" using rframe_trans [OF d(2)] rframe_trans [OF _ c(2)] w2(2) by (auto simp: rfine_def)
  moreover have "pull_steps u i rp w = Some (chunk_steps rp chunk w2)"
    unfolding pull_steps_def Let_def q bind.bind_lunit prod.case w1_def [symmetric] w2(1) using False by simp
  ultimately show ?thesis using c w2(2) d(3) by (simp add: rfine_def)
qed

lemma read_default_ok:
  assumes w: "rs_inv w" and i: "rr_attached (r_readers w i)"
  shows "rgood_result w (read_default u i w)"
proof -
  obtain rp w1 where rp: "r_with_promises rp_new w = (rp, w1)" by fastforce
  define w2 where "w2 = w1\<lparr>r_reads := r_reads w1 @ [rp_promise rp]\<rparr>"
  note r = read_start [OF w rp, folded w2_def]
  define w3 where "w3 = upd_rstream (\<lambda>s. s\<lparr>rs_disturbed := True\<rparr>) w2"
  have f3: "rfine w2 w3" "taken w3 (rp_promise rp)" "rs_state (r_stream w3) = rs_state (r_stream w2)" "r_promises w3 = r_promises w2"
    using flags_fine(1) [OF r(1)] r(5) by (simp_all add: w3_def taken_def)
  have i3: "rs_reader (r_stream w3) = Some i" using w i r by (simp add: w3_def rs_inv_def rs_inv0_def reader_ok_def)
  have lt: "rp_promise rp < length (r_promises w3)" "pstate (r_promises w3) (rp_promise rp) = Pending"
    using f3(1,2) by (auto simp: rfine_def rs_inv_def rs_inv0_def promise_ok_def taken_def loose_def)
  have "\<exists>w4. default_reader_read u i rp w2 = Some w4 \<and> rs_inv w4 \<and> rframe w3 w4 \<and> loose w4 = loose w3 - {rp_promise rp}"
  proof (cases "rs_state (r_stream w3)")
    case RsReadable
    then show ?thesis using pull_steps_ok [OF rfine_inv [OF f3(1)] f3(2) r(6,7) i3] f3(3)
      by (simp add: default_reader_read_def Let_def w3_def)
  next
    case RsClosed
    then show ?thesis using settle_taken [OF rfine_inv [OF f3(1)] f3(2), of "rp_do_resolve rp (ReadResult Undefined True) (r_promises w3)"]
      lt r(6) f3(3) by (simp add: default_reader_read_def Let_def close_steps_def pstate_resolve store_le_do_resolve flip: w3_def)
  next
    case (RsErrored e)
    then show ?thesis using settle_taken [OF rfine_inv [OF f3(1)] f3(2), of "rp_do_reject rp e (r_promises w3)"]
      lt r(7) f3(3) by (simp add: default_reader_read_def Let_def request_error_steps_def pstate_reject store_le_reject flip: w3_def)
  qed
  then obtain w4 where w4: "default_reader_read u i rp w2 = Some w4" "rs_inv w4" "rframe w3 w4" "loose w4 = loose w3 - {rp_promise rp}" by blast
  have "rframe w w4" using r(2) f3(1) w4(3) rframe_trans by (auto simp: rfine_def)
  moreover have "loose w4 = loose w" using w4(4) f3(1) r(3,4) by (simp add: rfine_def)
  ultimately show ?thesis using w4(1,2) rp by (simp add: read_default_def rfine_def w2_def)
qed

lemma reject_ok: "rs_inv w \<Longrightarrow> rgood_result w (r_reject_type_error msg w)"
  using alloc_fine [of w "Rejected (TypeError msg)"]
  by (auto simp: r_reject_type_error_def promise_rejected_with_constructor_def [abs_def] promise_rejected_with_def split: prod.split)

lemma reader_read_ok:
  assumes w: "rs_inv w"
  shows "rgood_result w (reader_read u i w)"
proof (cases "rr_attached (r_readers w i)")
  case True
  show ?thesis
  proof (cases "try_get_native_pull w")
    case native: True
    let ?w1 = "upd_rstream (\<lambda>s. s\<lparr>rs_disturbed := True\<rparr>) w"
    note f = flags_fine(1) [OF w]
    obtain out w2 where w2: "u RCallNativePull ?w1 = Some (out, w2)" "rfine ?w1 w2"
      using ruser_ok [OF rfine_inv [OF f]] by (blast elim: rgood_resultE)
    obtain p w3 where w3: "r_with_promises (promise_resolved_with out) w2 = (p, w3)" by fastforce
    then have "rfine w2 w3" by (rule resolved_with_fine [OF rfine_inv [OF w2(2)]])
    then have "rfine w w3" "rfine w w2" using rfine_trans [OF f] rfine_trans [OF w2(2)] w2(2) by blast+
    then show ?thesis using True native w2(1) w3 by (cases out) (simp_all add: reader_read_def read_native_def)
  next
    case False
    obtain p w1 where "read_default u i w = Some (p, w1)" "rfine w w1"
      using read_default_ok [OF w True] by (blast elim: rgood_resultE)
    then show ?thesis using True False by (simp add: reader_read_def)
  qed
qed (simp add: reader_read_def reject_ok w)

subsection \<open>Cancelling\<close>

lemma cancel_ok:
  assumes w: "rs_inv w" and rd: "r_native_size w \<longrightarrow> rd = rs_reader (r_stream w)"
  shows "rgood_result w (readable_stream_cancel u rd reason w)"
proof -
  define w1 where "w1 = upd_rstream (\<lambda>s. s\<lparr>rs_disturbed := True\<rparr>) w"
  have f: "rfine w w1" using flags_fine(1) [OF w] by (simp add: w1_def)
  show ?thesis
  proof (cases "rs_state (r_stream w)")
    case RsReadable
    define w2 where "w2 = readable_stream_close rd w1"
    have "rfine w1 (readable_stream_close rd (w1\<lparr>r_controller := r_controller w1\<rparr>))"
      using rfine_inv [OF f] RsReadable rd by (intro readable_stream_close_fine) (simp_all add: rs_inv_def w1_def)
    then have w2: "rfine w w2" using rfine_trans [OF f] by (simp add: w2_def)
    have c2: "r_controller w2 = r_controller w" "rs_state (r_stream w2) = RsClosed"
      by (simp_all add: w2_def readable_stream_close_eq w1_def)
    define w3 where "w3 = upd_rcontroller (\<lambda>c. c\<lparr>rc_container := reset_queue (rc_container c)\<rparr>) w2"
    have "rs_inv w3" using rfine_inv [OF w2] c2
      by (auto simp: w3_def rs_inv_def rs_inv0_def control_ok_def close_ok_def order_ok_def)
    then have w3: "rfine w w3" using w2 by (simp add: rfine_def rframe_def w3_def)
    obtain alg where alg: "rc_cancel_algorithm (r_controller w) = Some alg"
      using w RsReadable by (auto simp: rs_inv_def rs_inv0_def control_ok_def)
    obtain p w4 where w4: "source_call u (RCallCancel reason) alg w3 = Some (p, w4)" "rfine w3 w4"
      using source_call_ok [OF rfine_inv [OF w3]] by (blast elim: rgood_resultE)
    have s4: "rs_state (r_stream w4) = RsClosed" using w4(2) c2(2) by (simp add: rfine_def rframe_def w3_def)
    define w5 where "w5 = upd_rcontroller rc_clear_algorithms w4"
    have "rs_inv w5" using rfine_inv [OF w4(2)] s4
      by (auto simp: w5_def rc_clear_algorithms_def rs_inv_def rs_inv0_def control_ok_def close_ok_def order_ok_def)
    then have w5: "rfine w4 w5" by (simp add: rfine_def rframe_def w5_def rc_clear_algorithms_def)
    obtain rp w6 where w6: "r_with_promises rp_new w5 = (rp, w6)" by fastforce
    then have "r_with_promises (alloc Pending) w5 = (rp_promise rp, w6)" by (auto simp: r_with_promises_def rp_new_def alloc_def)
    then have a: "rfine w5 w6" "rp_promise rp = length (r_promises w5)" using alloc_fine [OF rfine_inv [OF w5]] by blast+
    have "foreign w6 (rp_promise rp)" using a rfine_inv [OF w5] w6
      by (auto simp: foreign_def r_with_promises_def rp_new_def alloc_def rs_inv_def rs_inv0_def promise_ok_def)
    then have "promise_ok (r_upon_promise p (ROnCancel rp) w6)" using rfine_inv [OF a(1)]
      by (intro promise_ok_reaction) (auto simp: rs_inv_def rs_inv0_def)
    then have "rfine w6 (r_upon_promise p (ROnCancel rp) w6)" using rfine_inv [OF a(1)]
      by (simp add: rfine_def r_upon_promise_def rs_inv_def rs_inv0_def control_ok_def n_rstart_def n_rpull_def rframe_def)
    then have "rfine w (r_upon_promise p (ROnCancel rp) w6)" using w3 w4(2) w5 a(1) rfine_trans by blast
    moreover have "readable_stream_cancel u rd reason w = Some (rp_promise rp, r_upon_promise p (ROnCancel rp) w6)"
    proof -
      have "cancel_steps u reason w2 = Some (p, w5)"
        using w4(1) alg c2(1) by (simp add: cancel_steps_def cancel_algorithm_def w5_def w3_def)
      then show ?thesis using RsReadable w6
        by (simp add: readable_stream_cancel_def upon_promise_fulfilment_def Let_def w2_def w1_def)
    qed
    ultimately show ?thesis by simp
  next
    case RsClosed
    obtain p w2 where w2: "r_with_promises (promise_resolved_with (Ret Undefined)) w1 = (p, w2)" by fastforce
    then have "rfine w w2" using rfine_trans [OF f] resolved_with_fine [OF rfine_inv [OF f]] by blast
    then show ?thesis using RsClosed w2 by (simp add: readable_stream_cancel_def Let_def flip: w1_def) (simp add: w1_def)
  next
    case (RsErrored e)
    obtain p w2 where w2: "r_with_promises (promise_rejected_with e) w1 = (p, w2)" by fastforce
    then have "rfine w w2" using rfine_trans [OF f] alloc_fine [OF rfine_inv [OF f]] by (auto simp: promise_rejected_with_def [abs_def])
    then show ?thesis using RsErrored w2 by (simp add: readable_stream_cancel_def Let_def flip: w1_def) (simp add: w1_def)
  qed
qed

end

end
