(* ===== verification/ReadableRun.thy ===== *)
theory ReadableRun
  imports ReadableInv
begin

text \<open>
  Runs of a readable stream, as for the writable ones: \<open>rs_api\<close> performs one public operation, \<open>rcb\<close>
  turns a program of the user into code that calls the public operations again, and a step is a
  public operation from the outside or a reaction whose promise is settled.  The outside may
  settle the promises it made itself.

  The results: no run panics; with a native size function every chunk goes to the reads in the order of
  both, and a read waits only while the stream is readable and its queue is empty.
\<close>

subsection \<open>Public operations\<close>

datatype rs_op =
    GetReader
  | RsCancel "js_value option"
  | RcClose
  | RcEnqueue "js_value option" bool
  | RcError "js_value option"
  | NativeEnqueue js_value bool
  | NativeClose
  | NativeError js_value
  | SetNativePull
  | SyncDrain
  | ReaderRead nat
  | ReaderReleaseLock nat
  | ReaderCancel nat "js_value option"
  | MakePromise
  | SettleMade nat promise_state

fun rs_api :: "ruser \<Rightarrow> rs_op \<Rightarrow> rworld \<Rightarrow> rworld option" where
  "rs_api u GetReader w = Some (snd (set_up_default_reader w))"
| "rs_api u (RsCancel r) w = map_option snd (rs_cancel u r w)"
| "rs_api u RcClose w = Some (snd (rc_close_method w))"
| "rs_api u (RcEnqueue chunk transfer) w = map_option snd (rc_enqueue_method u chunk transfer w)"
| "rs_api u (RcError e) w = Some (rc_error_method e w)"
| "rs_api u (NativeEnqueue chunk strict) w = map_option snd (enqueue_value_impl u chunk strict w)"
| "rs_api u NativeClose w = Some (rc_close_stream w)"
| "rs_api u (NativeError e) w = Some (rc_error_stream e w)"
| "rs_api u SetNativePull w = Some (upd_rcontroller (\<lambda>c. c\<lparr>rc_native_pull := True\<rparr>) w)"
| "rs_api u SyncDrain w = map_option snd (try_sync_drain_closed_stream w)"
| "rs_api u (ReaderRead i) w = map_option snd (reader_read u i w)"
| "rs_api u (ReaderReleaseLock i) w = Some (reader_release_lock i w)"
| "rs_api u (ReaderCancel i r) w = map_option snd (reader_cancel u i r w)"
| "rs_api u MakePromise w =
     (let (p, w') = r_with_promises (alloc Pending) w in Some (w'\<lparr>r_user_promises := r_user_promises w' @ [p]\<rparr>))"
| "rs_api u (SettleMade p st) w =
     Some (if p \<in> set (r_user_promises w) then upd_rpromises (settle p st) w else w)"

fun rs_api_ops :: "ruser \<Rightarrow> rs_op list \<Rightarrow> rworld \<Rightarrow> rworld option" where
  "rs_api_ops u [] w = Some w"
| "rs_api_ops u (x # xs) w = do { w' \<leftarrow> rs_api u x w; rs_api_ops u xs w' }"

lemma drain_all: "\<exists>vs q'. drain (length (queue q)) q = Some (vs, q') \<and> queue q' = []"
proof (induction "length (queue q)" arbitrary: q)
  case (Suc n)
  then obtain x xs where q: "queue q = x # xs" by (cases "queue q") auto
  then obtain q1 where q1: "dequeue_value q = Some (vs_value x, q1)" "queue q1 = xs" by (simp add: dequeue_value_def Let_def)
  then have "n = length (queue q1)" using Suc.hyps(2) q by simp
  then obtain vs q2 where "drain n q1 = Some (vs, q2)" "queue q2 = []" using Suc.hyps(1) by blast
  then show ?case using Suc.hyps(2) q1(1) by (simp flip: Suc.hyps(2))
qed simp

lemma sync_drain_fine:
  assumes w: "rs_inv w"
  shows "rgood_result w (try_sync_drain_closed_stream w)"
proof -
  obtain vs q where q: "drain (length (rs_queue w)) (rc_container (r_controller w)) = Some (vs, q)" using drain_all by blast
  let ?w' = "upd_rstream (\<lambda>s. s\<lparr>rs_disturbed := True, rs_state := RsClosed\<rparr>) (upd_rcontroller (\<lambda>c. c\<lparr>rc_container := q\<rparr>) w)"
  have "rfine w ?w'" if "\<not> is_readable_stream_locked (r_stream w)" "rs_state (r_stream w) = RsReadable"
  proof -
    have req: "rs_requests ?w' = []" "rs_requests w = []" "loose ?w' = loose w"
      using that(1) by (simp_all add: rs_requests_def loose_def is_readable_stream_locked_def)
    have "rs_inv ?w'" using w req
      by (auto simp: rs_inv_def rs_inv0_def control_ok_def close_ok_def order_ok_def reader_ok_def promise_ok_def given_ok_def foreign_def)
    then show ?thesis using that(2) req(3) by (simp add: rfine_def rframe_def)
  qed
  then show ?thesis using w q by (auto simp: try_sync_drain_closed_stream_def)
qed

lemma make_promise_fine:
  assumes w: "rs_inv w"
  shows "rgood w (rs_api u MakePromise w)"
proof -
  obtain p w1 where w1: "r_with_promises (alloc Pending) w = (p, w1)" by fastforce
  have a: "rfine w w1" "p = length (r_promises w)" using alloc_fine [OF w w1] by auto
  have "foreign w1 p" using w1 w a(2)
    by (auto simp: foreign_def r_with_promises_def alloc_def rs_inv_def rs_inv0_def promise_ok_def)
  then have "promise_ok (w1\<lparr>r_user_promises := r_user_promises w1 @ [p]\<rparr>)" using rfine_inv [OF a(1)]
    by (auto simp: rs_inv_def rs_inv0_def promise_ok_def foreign_def)
  then have "rfine w1 (w1\<lparr>r_user_promises := r_user_promises w1 @ [p]\<rparr>)" using rfine_inv [OF a(1)]
    by (simp add: rfine_def rframe_def rs_inv_def rs_inv0_def control_ok_def close_ok_def order_ok_def reader_ok_def given_ok_def)
  then show ?thesis using w1 rfine_trans [OF a(1)] by simp
qed

context ruser_code
begin

lemma map_snd_rgood: "rgood_result w x \<Longrightarrow> rgood w (map_option snd x)"
  by (auto simp: rgood_result_def rgood_def)

lemma rs_api_ok:
  assumes w: "rs_inv w"
  shows "rgood w (rs_api u x w)"
proof -
  have rd: "r_native_size w \<longrightarrow> refresh_reader w = rs_reader (r_stream w)" by (simp add: refresh_reader_def)
  note cancel = cancel_ok [OF w]
  have at: "r_native_size w \<longrightarrow> Some i = rs_reader (r_stream w)" if "rr_attached (r_readers w i)" for i
    using w that by (simp add: rs_inv_def rs_inv0_def reader_ok_def)
  show ?thesis
  proof (cases x)
    case (RsCancel r)
    obtain p w' where "readable_stream_cancel u (refresh_reader w) (case r of Some v \<Rightarrow> v | None \<Rightarrow> Undefined) w = Some (p, w')" "rfine w w'"
      using cancel [OF rd] by (blast elim: rgood_resultE)
    then show ?thesis using RsCancel reject_ok [OF w] by (auto simp: rs_cancel_def intro!: map_snd_rgood)
  next
    case (ReaderCancel i r)
    show ?thesis
    proof (cases "rr_attached (r_readers w i)")
      case True
      obtain p w' where "readable_stream_cancel u (Some i) (case r of Some v \<Rightarrow> v | None \<Rightarrow> Undefined) w = Some (p, w')" "rfine w w'"
        using cancel [OF at [OF True]] by (blast elim: rgood_resultE)
      then show ?thesis using ReaderCancel True by (simp add: reader_cancel_def)
    qed (use reject_ok [OF w] ReaderCancel in \<open>auto simp: reader_cancel_def intro!: map_snd_rgood\<close>)
  next
    case (RcEnqueue chunk transfer)
    then show ?thesis using rc_enqueue_ok [OF w rd] w by (auto simp: rc_enqueue_method_def intro!: map_snd_rgood)
  next
    case (NativeEnqueue chunk strict)
    then show ?thesis using rc_enqueue_ok [OF w rd] w by (auto simp: enqueue_value_impl_def intro!: map_snd_rgood)
  next
    case (ReaderRead i)
    then show ?thesis using reader_read_ok [OF w] by (auto intro!: map_snd_rgood)
  next
    case SyncDrain
    then show ?thesis using sync_drain_fine [OF w] by (auto intro!: map_snd_rgood)
  next
    case (SettleMade p st)
    then show ?thesis using w settle_fine [OF w] by (auto simp: rs_inv_def rs_inv0_def promise_ok_def foreign_def)
  next
    case MakePromise
    then show ?thesis using make_promise_fine [OF w] by simp
  qed (use w set_up_reader_fine [OF w] rc_close_fine [OF w rd] rc_error_fine [OF w rd] flags_fine(3) [OF w] release_fine [OF w] in
    \<open>auto simp: rc_close_method_def rc_close_stream_def rc_error_method_def rc_error_stream_def\<close>)
qed

lemma rs_api_ops_ok: "rs_inv w \<Longrightarrow> rgood w (rs_api_ops u xs w)"
proof (induction xs arbitrary: w)
  case (Cons x xs)
  obtain w1 where w1: "rs_api u x w = Some w1" "rfine w w1" using rs_api_ok [OF Cons.prems] by (blast elim: rgoodE)
  then show ?case using rgood_trans [OF w1(2) Cons.IH [OF rfine_inv [OF w1(2)]]] by simp
qed simp

end

subsection \<open>Programs of the user\<close>

type_synonym rprogram = "rcallback \<Rightarrow> rworld \<Rightarrow> rs_op list \<times> outcome"

fun rcb :: "rprogram \<Rightarrow> nat \<Rightarrow> ruser" where
  "rcb prog 0 c w = Some (Throw (RangeError ''Maximum call stack size exceeded''), w)"
| "rcb prog (Suc n) c w =
     (let (ops, out) = prog c w in do { w' \<leftarrow> rs_api_ops (rcb prog n) ops w; Some (out, w') })"

lemma ruser_code_rcb: "ruser_code (rcb prog n)"
proof (induction n)
  case (Suc n)
  show ?case
  proof
    fix w c
    assume "rs_inv w"
    from ruser_code.rs_api_ops_ok [OF Suc this, of "fst (prog c w)"] show "rgood_result w (rcb prog (Suc n) c w)"
      by (auto simp: rgood_def split_beta)
  qed
qed (unfold_locales, simp)

interpretation rprog: ruser_code "rcb prog n" for prog n
  by (rule ruser_code_rcb)

subsection \<open>Runs\<close>

datatype rs_event = RsApi rs_op | RsReact nat

definition drop_nth :: "nat \<Rightarrow> 'a list \<Rightarrow> 'a list" where
  "drop_nth k xs = take k xs @ drop (Suc k) xs"

definition rs_react :: "ruser \<Rightarrow> nat \<Rightarrow> rworld \<Rightarrow> rworld option" where
  "rs_react u k w =
     (if k < length (r_reactions w) then
        let (p, r) = r_reactions w ! k;
            w1 = w\<lparr>r_reactions := drop_nth k (r_reactions w)\<rparr>
        in case pstate (r_promises w) p of
             Pending \<Rightarrow> Some w
           | Fulfilled v \<Rightarrow> r_run_reaction u r (Inr v) w1
           | Rejected e \<Rightarrow> r_run_reaction u r (Inl e) w1
      else Some w)"

fun rs_step :: "ruser \<Rightarrow> rs_event \<Rightarrow> rworld \<Rightarrow> rworld option" where
  "rs_step u (RsApi x) w = rs_api u x w"
| "rs_step u (RsReact k) w = rs_react u k w"

text \<open>The streams with the size algorithm \<open>alg\<close>, made by the constructor or by Rust code.\<close>

inductive rs_reachable :: "ruser \<Rightarrow> size_algorithm \<Rightarrow> rworld \<Rightarrow> bool" for u alg where
  new: "readable_stream_new u source strategy primordial_promises = Some (res, w) \<Longrightarrow>
    extract_size_algorithm strategy = alg \<Longrightarrow> rs_reachable u alg w"
| create: "create_readable_stream u start pull cancel hwm (Some alg) primordial_promises = Some (res, w) \<Longrightarrow> rs_reachable u alg w"
| step: "rs_reachable u alg w \<Longrightarrow> rs_step u ev w = Some w' \<Longrightarrow> rs_reachable u alg w'"

text \<open>What one turn of the event loop keeps.\<close>

definition turned :: "rworld \<Rightarrow> rworld \<Rightarrow> bool" where
  "turned w w' \<longleftrightarrow> rs_inv w' \<and> loose w' = loose w \<and> r_native_size w' = r_native_size w
     \<and> rstate_le (rs_state (r_stream w)) (rs_state (r_stream w'))"

lemma turned_fine: "turned a b \<Longrightarrow> rfine b c \<Longrightarrow> turned a c"
  by (auto simp: turned_def rfine_def rframe_def intro: rstate_le_trans)

lemma fine_turned: "rfine a b \<Longrightarrow> turned a b"
  by (simp add: turned_def rfine_def rframe_def)

lemma turned_good: "turned a b \<Longrightarrow> rgood b x \<Longrightarrow> \<exists>c. x = Some c \<and> turned a c"
  by (auto simp: rgood_def intro: turned_fine)

lemma n_drop_nth:
  assumes "k < length rs" "rs ! k = (p, r)"
  shows "n_rstart rs = n_rstart (drop_nth k rs) + (if r = ROnStart then 1 else 0)"
    "n_rpull rs = n_rpull (drop_nth k rs) + (if r = ROnPull then 1 else 0)"
    "set (drop_nth k rs) \<subseteq> set rs"
proof -
  have rs: "rs = take k rs @ (p, r) # drop (Suc k) rs"
    using id_take_nth_drop [OF assms(1)] assms(2) by simp
  have "length (filter P rs) = length (filter P (drop_nth k rs)) + (if P (p, r) then 1 else 0)" for P
    by (subst rs) (simp add: drop_nth_def)
  then show "n_rstart rs = n_rstart (drop_nth k rs) + (if r = ROnStart then 1 else 0)"
    "n_rpull rs = n_rpull (drop_nth k rs) + (if r = ROnPull then 1 else 0)"
    by (auto simp: n_rstart_def n_rpull_def)
  show "set (drop_nth k rs) \<subseteq> set rs" by (subst (2) rs) (auto simp: drop_nth_def)
qed

context ruser_code
begin

lemma run_reaction_turned:
  assumes w: "rs_inv w" and k: "k < length (r_reactions w)" "r_reactions w ! k = (p, r)"
  shows "\<exists>w'. r_run_reaction u r result (w\<lparr>r_reactions := drop_nth k (r_reactions w)\<rparr>) = Some w' \<and> turned w w'"
proof -
  define w1 where "w1 = w\<lparr>r_reactions := drop_nth k (r_reactions w)\<rparr>"
  note n = n_drop_nth [OF k]
  have "promise_ok w1" using w n(3) by (auto simp: w1_def rs_inv_def rs_inv0_def promise_ok_def)
  then have i: "rs_inv w1" using w n(1,2) by (auto simp: w1_def rs_inv_def rs_inv0_def control_ok_def)
  then have t1: "turned w w1" by (simp add: turned_def w1_def)
  have rd: "r_native_size w1 \<longrightarrow> refresh_reader w1 = rs_reader (r_stream w1)" by (simp add: refresh_reader_def)
  have err: "turned w (rc_error (refresh_reader w1) e w1)" for e using turned_fine [OF t1 rc_error_fine [OF i rd]] .
  have "\<exists>w'. r_run_reaction u r result w1 = Some w' \<and> turned w w'"
  proof (cases r)
    case ROnStart
    let ?w2 = "upd_rcontroller (\<lambda>c. c\<lparr>rc_started := True\<rparr>) w1"
    have "n_rstart (r_reactions w1) = 0" using w n(1) ROnStart
      by (auto simp: w1_def rs_inv_def rs_inv0_def control_ok_def split: if_splits)
    then have "rs_inv ?w2" using i by (simp add: rs_inv_def rs_inv0_def control_ok_def close_ok_controller order_ok_controller)
    then have "turned w ?w2" "rgood ?w2 (call_pull_if_needed u (refresh_reader w1) ?w2)"
      using t1 call_pull_ok by (simp_all add: turned_def)
    then show ?thesis using ROnStart err turned_good by (cases result) (auto simp: r_on_start_def)
  next
    case ROnPull
    let ?w2 = "upd_rcontroller (\<lambda>c. c\<lparr>rc_pulling := False\<rparr>) w1"
    have "n_rpull (r_reactions w1) = 0" using w n(2) ROnPull
      by (auto simp: w1_def rs_inv_def rs_inv0_def control_ok_def split: if_splits)
    then have i2: "rs_inv ?w2" using i by (simp add: rs_inv_def rs_inv0_def control_ok_def close_ok_controller order_ok_controller)
    then have t2: "turned w ?w2" using t1 by (simp add: turned_def)
    let ?w3 = "upd_rcontroller (\<lambda>c. c\<lparr>rc_pull_again := False\<rparr>) ?w2"
    have f3: "rfine ?w2 ?w3" using flags_fine(2) [OF i2] by simp
    then have "turned w ?w3" "rgood ?w3 (call_pull_if_needed u (refresh_reader w1) ?w3)"
      using t2 turned_fine call_pull_ok [OF rfine_inv [OF f3]] by blast+
    then show ?thesis using ROnPull err t2 turned_good by (cases result) (auto simp: r_on_pull_def Let_def)
  next
    case (ROnCancel rp)
    then have "(p, ROnCancel rp) \<in> set (r_reactions w)" using k nth_mem by fastforce
    then have "rp_promise rp \<notin> set (r_reads w1)" using w by (auto simp: w1_def rs_inv_def rs_inv0_def promise_ok_def foreign_def)
    then have "rfine w1 (r_on_cancel rp result w1)" using i
      by (cases result) (auto simp: r_on_cancel_def pstate_reject pstate_resolve_undefined store_le_reject store_le_resolve intro!: promises_fine)
    then show ?thesis using ROnCancel turned_fine [OF t1] by simp
  qed
  then show ?thesis by (simp add: w1_def)
qed

lemma rs_step_turned: "rs_inv w \<Longrightarrow> \<exists>w'. rs_step u ev w = Some w' \<and> turned w w'"
proof (cases ev)
  case (RsApi x)
  assume "rs_inv w"
  from rs_api_ok [OF this, of x] show ?thesis using RsApi fine_turned by (auto elim!: rgoodE)
next
  case (RsReact k)
  assume w: "rs_inv w"
  show ?thesis using run_reaction_turned [OF w, of k] RsReact fine_turned [of w w] w
    by (auto simp: rs_react_def Let_def split: prod.split promise_state.split)
qed

lemma fresh_rworld_inv: "rs_inv (fresh_rworld pull cancel hwm alg primordial_promises)"
  "loose (fresh_rworld pull cancel hwm alg primordial_promises) = {}"
  by (simp_all add: rs_inv_def rs_inv0_def close_ok_def control_ok_def reader_ok_def promise_ok_def given_ok_def order_ok_def
      fresh_rworld_def initial_rstream_def initial_rcontroller_def queue_new_def n_rstart_def n_rpull_def rs_requests_def no_readers_def
      rp_resolved_with_undefined_def promise_resolved_with_undefined_def primordial_promises_def foreign_def loose_def)

lemma set_up_ok:
  fixes pull cancel hwm alg
  defines "w \<equiv> fresh_rworld pull cancel hwm alg primordial_promises"
  shows "\<exists>res w'. set_up_default_controller u start w = Some (res, w') \<and> rs_inv w' \<and> loose w' = {} \<and> r_native_size w' = native_size alg"
proof -
  note fresh = fresh_rworld_inv [of pull cancel hwm alg, folded w_def]
  have n: "n_rstart (r_reactions w) = 0" "\<not> rc_started (r_controller w)" "r_native_size w = native_size alg"
    by (simp_all add: w_def fresh_rworld_def initial_rcontroller_def n_rstart_def)
  obtain out w1 where w1: "(case start of SourceReturnUndefined \<Rightarrow> Some (Ret Undefined, w) | SourceFunction \<Rightarrow> u RCallStart w) = Some (out, w1)"
    "rfine w w1"
    using fresh(1) ruser_ok [OF fresh(1), of RCallStart] by (cases start) (auto elim: rgood_resultE)
  show ?thesis
  proof (cases out)
    case (Ret v)
    obtain p w2 where w2: "r_with_promises (promise_resolved_with (Ret v)) w1 = (p, w2)" by fastforce
    then have f: "rfine w w2" using rfine_trans [OF w1(2)] resolved_with_fine [OF rfine_inv [OF w1(2)]] by blast
    have "promise_ok (r_upon_promise p ROnStart w2)" using rfine_inv [OF f]
      by (intro promise_ok_reaction) (simp_all add: rs_inv_def rs_inv0_def)
    then have "rs_inv (r_upon_promise p ROnStart w2)" using f n
      by (simp add: rfine_def rframe_def r_upon_promise_def rs_inv_def rs_inv0_def control_ok_def n_rstart_def n_rpull_def)
    then show ?thesis using Ret w1(1) w2 f fresh(2) n(3)
      by (simp add: set_up_default_controller_def rfine_def rframe_def r_upon_promise_def)
  next
    case (Throw e)
    then show ?thesis using w1 fresh(2) n(3) by (simp add: set_up_default_controller_def rfine_def rframe_def)
  qed
qed

lemma readable_stream_new_ok:
  "\<exists>res w. readable_stream_new u source strategy primordial_promises = Some (res, w) \<and> rs_inv w \<and> loose w = {}
     \<and> r_native_size w = native_size (extract_size_algorithm strategy)"
proof (cases "extract_high_water_mark strategy (Fin 1)")
  case (Inl e)
  then show ?thesis using fresh_rworld_inv by (simp add: readable_stream_new_def Let_def) (simp add: fresh_rworld_def)
next
  case (Inr hwm)
  then show ?thesis using set_up_ok [where hwm = hwm and alg = "extract_size_algorithm strategy"]
    by (simp add: readable_stream_new_def Let_def)
qed

lemma rs_reachable_inv: "rs_reachable u alg w \<Longrightarrow> rs_inv w \<and> loose w = {} \<and> r_native_size w = native_size alg"
proof (induction rule: rs_reachable.induct)
  case (new source strategy res w)
  then show ?case using readable_stream_new_ok [of source strategy] by auto
next
  case (create start pull cancel hwm res w)
  then show ?case using set_up_ok [of start pull cancel "case hwm of None \<Rightarrow> Fin 1 | Some x \<Rightarrow> x" alg]
    by (auto simp: create_readable_stream_def)
next
  case (step w ev w')
  then show ?case using rs_step_turned [of w ev] by (auto simp: turned_def)
qed

end

subsection \<open>Runs by evaluation\<close>

fun rs_run :: "ruser \<Rightarrow> rs_event list \<Rightarrow> rworld \<Rightarrow> rworld option" where
  "rs_run u [] w = Some w"
| "rs_run u (x # xs) w = do { w' \<leftarrow> rs_step u x w; rs_run u xs w' }"

definition rs_start_and_run :: "ruser \<Rightarrow> underlying_source \<Rightarrow> queuing_strategy option \<Rightarrow> rs_event list \<Rightarrow> rworld option" where
  "rs_start_and_run u source strategy evs =
     do { (res, w) \<leftarrow> readable_stream_new u source strategy primordial_promises; rs_run u (RsReact 0 # evs) w }"

definition empty_source :: underlying_source where
  "empty_source = \<lparr>src_start = False, src_pull = False, src_cancel = False\<rparr>"

definition ridle :: rprogram where
  "ridle c w = ([], Ret Undefined)"



lemma round64_units: "round64 0 = Fin 0" "round64 1 = Fin 1"
  using round64_nat [of 0] round64_nat [of 1] by simp_all

lemmas rs_eval = rs_start_and_run_def readable_stream_new_def set_up_default_controller_def empty_source_def ridle_def
  fresh_rworld_def initial_rstream_def initial_rcontroller_def source_algorithm_of_def queue_new_def no_readers_def
  extract_size_algorithm_def extract_high_water_mark_def f64_sub_def round64_units r_with_promises_def alloc_def
  primordial_promises_def promise_resolved_with_undefined_def rp_resolved_with_undefined_def r_upon_promise_def
  rs_react_def drop_nth_def pstate_def r_on_start_def r_on_pull_def refresh_reader_def call_pull_if_needed_def
  should_call_pull_def can_close_or_enqueue_def get_num_read_requests_def rc_get_desired_size_def pull_algorithm_def
  set_up_default_reader_def is_readable_stream_locked_def generic_initialize_def rp_new_def
  rc_enqueue_method_def rc_enqueue_def rc_strategy_size_algorithm_def size_result_def rc_error_def readable_stream_error_def
  rc_clear_algorithms_def reset_queue_def rp_do_reject_def rp_set_is_handled_def settle_def error_read_requests_def
  reader_read_def try_get_native_pull_def read_native_def read_default_def default_reader_read_def pull_steps_def add_read_request_def
  enqueue_value_with_size_def is_non_negative_number_def dequeue_value_def chunk_steps_def rp_do_resolve_def native_size_def Let_def

subsection \<open>No run panics\<close>



subsection \<open>Chunks and reads\<close>





text \<open>A closed or errored stream stays what it is, whatever is called on it.\<close>

lemma rs_terminal_states:
  assumes "rs_reachable (rcb program n) alg w" and "rs_step (rcb program n) ev w = Some w'"
  shows "(rs_state (r_stream w) = RsClosed \<longrightarrow> rs_state (r_stream w') = RsClosed)
    \<and> (\<forall>e. rs_state (r_stream w) = RsErrored e \<longrightarrow> rs_state (r_stream w') = RsErrored e)"
  using rprog.rs_step_turned [of w program n ev] rprog.rs_reachable_inv [OF assms(1)] assms(2) by (auto simp: turned_def)

subsection \<open>Where the code departs from the standard\<close>

definition reads_and_throws :: rprogram where
  "reads_and_throws c w = ([GetReader, ReaderRead 0], Throw (Object 7))"

text \<open>When the size function throws, the stream is errored with the reader it had before the call.  A reader
  that the size function acquired is not told: its read and its closed promise are pending for ever,
  no reaction is left and the stream is errored.\<close>

lemma rs_size_throws_forgets_reader:
  "\<exists>w. rs_start_and_run (rcb reads_and_throws 1) empty_source (Some \<lparr>qs_high_water_mark = None, qs_size = Some SizeFnJs\<rparr>)
        [RsReact 0, RsApi (RcEnqueue (Some (Object 1)) False), RsReact 0] = Some w
    \<and> rs_state (r_stream w) = RsErrored (Object 7) \<and> r_reactions w = [] \<and> rs_reader (r_stream w) = Some 0
    \<and> (\<exists>rp. rr_requests (r_readers w 0) = [rp] \<and> pstate (r_promises w) (rp_promise rp) = Pending)
    \<and> pstate (r_promises w) (rp_promise (rr_closed (r_readers w 0))) = Pending"
  by (simp add: rs_eval reads_and_throws_def)

text \<open>The fast path of \<^verbatim>\<open>read\<close> for streams with a native source reports the end of the data to the read only: the
  read is done, but the stream stays readable and the closed promise of its reader pending.\<close>

lemma rs_native_end_stays_open:
  "\<exists>w. rs_start_and_run (rcb (\<lambda>c w. ([], Ret (ReadResult Undefined True))) 1) empty_source None
        [RsReact 0, RsApi SetNativePull, RsApi GetReader, RsApi (ReaderRead 0)] = Some w
    \<and> p_state (last (r_promises w)) = Fulfilled (ReadResult Undefined True)
    \<and> rs_state (r_stream w) = RsReadable \<and> r_reactions w = []
    \<and> pstate (r_promises w) (rp_promise (rr_closed (r_readers w 0))) = Pending"
  by (simp add: rs_eval)

end
