(* ===== verification/ByteStream.thy ===== *)
theory ByteStream
  imports ReadableStream
begin

text \<open>
  Readable byte streams: \<^verbatim>\<open>modules/llrt_stream_web/src/readable/byte_controller.rs\<close> and \<^verbatim>\<open>byob_reader.rs\<close>, with
  the parts of \<^verbatim>\<open>stream/mod.rs\<close>, \<^verbatim>\<open>default_reader.rs\<close>, \<^verbatim>\<open>reader.rs\<close> that serve them and the views of
  \<^verbatim>\<open>libs/llrt_utils/src/bytes.rs\<close>.

  A world holds one stream with its byte controller, its readers, the promises and reactions as for the
  default streams, and the array buffers: a buffer is an index into a store of contents, \<^term>\<open>None\<close> when it
  is detached.  Transferring a buffer detaches it and puts its contents into a new one.  Buffers have a
  fixed length.  \<open>b_held\<close> is the list of the buffers that code of the user can reach; no operation of the
  stream reads it.

  An operation gives \<^term>\<open>None\<close> when the code panics or does not return, otherwise a world with a result, where
  \<^term>\<open>Inl\<close> is a JavaScript exception.  The argument \<open>rd\<close> is the reader an operation was started with.
\<close>

subsection \<open>Array buffers and views\<close>

type_synonym buffers = "u8 list option list"

definition buffer_at :: "buffers \<Rightarrow> nat \<Rightarrow> u8 list option" where
  "buffer_at bs b = (if b < length bs then bs ! b else None)"

fun element_size :: "view_kind \<Rightarrow> nat" where
  "element_size U8Array = 1"
| "element_size I8Array = 1"
| "element_size U16Array = 2"
| "element_size I16Array = 2"
| "element_size U32Array = 4"
| "element_size I32Array = 4"
| "element_size U64Array = 8"
| "element_size I64Array = 8"
| "element_size F16Array = 2"
| "element_size F32Array = 4"
| "element_size F64Array = 8"
| "element_size U8ClampedArray = 1"
| "element_size DataView = 1"

definition detached_error :: js_value where
  "detached_error = TypeError ''ArrayBuffer is detached''"

text \<open>The method \<^verbatim>\<open>transfer\<close> of array buffers and the constructors of the views, as the language defines them.
  A view of a detached buffer has the length 0.\<close>

definition transfer_array_buffer :: "nat \<Rightarrow> buffers \<Rightarrow> (js_value + nat) \<times> buffers" where
  "transfer_array_buffer b bs =
     (case buffer_at bs b of
        None \<Rightarrow> (Inl detached_error, bs)
      | Some xs \<Rightarrow> (Inr (length bs), bs[b := None] @ [Some xs]))"

definition construct_view :: "view_kind \<Rightarrow> nat \<Rightarrow> nat \<Rightarrow> nat \<Rightarrow> buffers \<Rightarrow> js_value + array_view" where
  "construct_view k b off n bs =
     (case buffer_at bs b of
        None \<Rightarrow> Inl detached_error
      | Some xs \<Rightarrow>
          if off mod element_size k \<noteq> 0 \<or> length xs < off + n * element_size k then Inl (RangeError ''invalid array buffer region'')
          else Inr \<lparr>av_kind = k, av_buffer = b, av_offset = off, av_length = n * element_size k\<rparr>)"

fun view_from_value :: "js_value option \<Rightarrow> js_value + array_view" where
  "view_from_value (Some (ArrayView v)) = Inr v"
| "view_from_value (Some v) =
     Inl (TypeError (if is_object v then ''view must be an ArrayBufferView''
       else ''view must be typed DataView, Buffer, ArrayBuffer, or Uint8Array, but is not an object''))"
| "view_from_value None =
     Inl (TypeError ''view must be typed DataView, Buffer, ArrayBuffer, or Uint8Array, but is not an object'')"

definition get_array_buffer :: "array_view \<Rightarrow> buffers \<Rightarrow> nat \<times> nat \<times> nat" where
  "get_array_buffer v bs =
     (if buffer_at bs (av_buffer v) = None then (av_buffer v, 0, 0) else (av_buffer v, av_length v, av_offset v))"

text \<open>Turning the bytes of a view into a value again makes a new \<^verbatim>\<open>DataView\<close> of the whole buffer.\<close>

definition view_into_js :: "array_view \<Rightarrow> buffers \<Rightarrow> js_value + array_view" where
  "view_into_js v bs =
     (if av_kind v = DataView
      then (case buffer_at bs (av_buffer v) of
              None \<Rightarrow> Inl detached_error
            | Some xs \<Rightarrow> construct_view DataView (av_buffer v) 0 (length xs) bs)
      else Inr v)"

definition copy_data_block_bytes :: "nat \<Rightarrow> nat \<Rightarrow> nat \<Rightarrow> nat \<Rightarrow> nat \<Rightarrow> buffers \<Rightarrow> (js_value + buffers) option" where
  "copy_data_block_bytes to_block to_index from_block from_index n bs =
     (case buffer_at bs to_block of
        None \<Rightarrow> Some (Inl (JsError ''ArrayBuffer is detached''))
      | Some dest \<Rightarrow>
          (case buffer_at bs from_block of
             None \<Rightarrow> Some (Inl (JsError ''ArrayBuffer is detached''))
           | Some source \<Rightarrow>
               do { slice dest to_index (to_index + n);
                    xs \<leftarrow> slice source from_index (from_index + n);
                    Some (Inr (bs[to_block := Some (take to_index dest @ xs @ drop (to_index + n) dest)])) }))"

subsection \<open>State\<close>

datatype pull_into_reader = ReaderDefault | ReaderByob | ReaderNone

record pull_into =
  pi_buffer :: nat
  pi_buffer_length :: nat
  pi_offset :: nat
  pi_length :: nat
  pi_filled :: nat
  pi_minimum :: nat
  pi_element_size :: nat
  pi_constructor :: view_kind
  pi_reader :: pull_into_reader

record queue_entry =
  qe_buffer :: nat
  qe_offset :: nat
  qe_length :: nat

record byob_request =
  bq_view :: "array_view option"
  bq_controller :: bool

record bcontroller =
  bc_auto_allocate :: "nat option"
  bc_byob_request :: "nat option"
  bc_cancel_algorithm :: "source_algorithm option"
  bc_close_requested :: bool
  bc_pull_again :: bool
  bc_pull_algorithm :: "source_algorithm option"
  bc_pulling :: bool
  bc_pending :: "pull_into list"
  bc_queue :: "queue_entry list"
  bc_total :: nat
  bc_started :: bool
  bc_hwm :: f64

text \<open>A reader of either class: its requests are the read requests of a default reader, the read-into
  requests of a BYOB reader.\<close>

record breader =
  br_byob :: bool
  br_closed :: resolveable_promise
  br_attached :: bool
  br_requests :: "resolveable_promise list"

record bworld =
  b_stream :: rstream
  b_controller :: bcontroller
  b_readers :: "nat \<Rightarrow> breader"
  b_next_reader :: nat
  b_promises :: promise_store
  b_reactions :: "(nat \<times> rreaction) list"
  b_buffers :: buffers
  b_byob_requests :: "byob_request list"
  b_held :: "nat list"
  b_user_promises :: "nat list"

datatype bcallback = BCallStart | BCallPull | BCallCancel js_value

type_synonym buser = "bcallback \<Rightarrow> bworld \<Rightarrow> (outcome \<times> bworld) option"

type_synonym 'a thrown = "((js_value + 'a) \<times> bworld) option"

abbreviation upd_bstream :: "(rstream \<Rightarrow> rstream) \<Rightarrow> bworld \<Rightarrow> bworld" where
  "upd_bstream f w \<equiv> w\<lparr>b_stream := f (b_stream w)\<rparr>"

abbreviation upd_bc :: "(bcontroller \<Rightarrow> bcontroller) \<Rightarrow> bworld \<Rightarrow> bworld" where
  "upd_bc f w \<equiv> w\<lparr>b_controller := f (b_controller w)\<rparr>"

abbreviation upd_bpromises :: "(promise_store \<Rightarrow> promise_store) \<Rightarrow> bworld \<Rightarrow> bworld" where
  "upd_bpromises f w \<equiv> w\<lparr>b_promises := f (b_promises w)\<rparr>"

abbreviation upd_breader :: "nat \<Rightarrow> (breader \<Rightarrow> breader) \<Rightarrow> bworld \<Rightarrow> bworld" where
  "upd_breader i f w \<equiv> w\<lparr>b_readers := (b_readers w)(i := f (b_readers w i))\<rparr>"

definition b_with_promises :: "(promise_store \<Rightarrow> 'a \<times> promise_store) \<Rightarrow> bworld \<Rightarrow> 'a \<times> bworld" where
  "b_with_promises f w = (let (x, ps) = f (b_promises w) in (x, w\<lparr>b_promises := ps\<rparr>))"

definition b_upon_promise :: "nat \<Rightarrow> rreaction \<Rightarrow> bworld \<Rightarrow> bworld" where
  "b_upon_promise p r w = w\<lparr>b_reactions := b_reactions w @ [(p, r)]\<rparr>"

definition b_refresh_reader :: "bworld \<Rightarrow> nat option" where
  "b_refresh_reader w = rs_reader (b_stream w)"

text \<open>The question mark operator.\<close>

definition or_throw :: "'a thrown \<Rightarrow> ('a \<Rightarrow> bworld \<Rightarrow> 'b thrown) \<Rightarrow> 'b thrown" where
  "or_throw x f = Option.bind x (\<lambda>(r, w). case r of Inl e \<Rightarrow> Some (Inl e, w) | Inr a \<Rightarrow> f a w)"

lemma or_throw_simps [simp]:
  "or_throw None f = None" "or_throw (Some (Inl e, w)) f = Some (Inl e, w)" "or_throw (Some (Inr a, w)) f = f a w"
  by (simp_all add: or_throw_def)

lemma or_throw_mono [partial_function_mono]:
  assumes "mono_option B" "\<And>a w. mono_option (\<lambda>f. C a w f)"
  shows "mono_option (\<lambda>f. or_throw (B f) (\<lambda>a w. C a w f))"
  unfolding or_throw_def
proof (rule bind_mono [OF assms(1)])
  fix y :: "(js_value + 'c) \<times> bworld"
  show "mono_option (\<lambda>f. case y of (Inl e, w) \<Rightarrow> Some (Inl e, w) | (Inr a, w) \<Rightarrow> C a w f)"
    by (cases y; cases "fst y") (auto intro: assms(2) option.const_mono)
qed

definition with_transfer :: "nat \<Rightarrow> bworld \<Rightarrow> nat thrown" where
  "with_transfer b w = (let (r, bs) = transfer_array_buffer b (b_buffers w) in Some (r, w\<lparr>b_buffers := bs\<rparr>))"

subsection \<open>Requests of the readers\<close>

definition b_num_requests :: "nat option \<Rightarrow> bworld \<Rightarrow> nat" where
  "b_num_requests rd w = (case rd of None \<Rightarrow> 0 | Some i \<Rightarrow> length (br_requests (b_readers w i)))"

definition b_add_request :: "nat \<Rightarrow> resolveable_promise \<Rightarrow> bworld \<Rightarrow> bworld" where
  "b_add_request i rp w = upd_breader i (\<lambda>r. r\<lparr>br_requests := br_requests r @ [rp]\<rparr>) w"

text \<open>A view that is given to the user: its buffer can be reached from then on.\<close>

definition b_give :: "resolveable_promise \<Rightarrow> array_view \<Rightarrow> bool \<Rightarrow> bworld \<Rightarrow> bworld" where
  "b_give rp v finished w =
     upd_bpromises (rp_do_resolve rp (ReadResult (ArrayView v) finished)) (w\<lparr>b_held := av_buffer v # b_held w\<rparr>)"

definition b_close_steps :: "js_value \<Rightarrow> resolveable_promise \<Rightarrow> bworld \<Rightarrow> bworld" where
  "b_close_steps v rp w = upd_bpromises (rp_do_resolve rp (ReadResult v True)) w"

definition b_error_steps :: "js_value \<Rightarrow> resolveable_promise \<Rightarrow> bworld \<Rightarrow> bworld" where
  "b_error_steps e rp w = upd_bpromises (rp_do_reject rp e) w"

definition b_error_requests :: "nat \<Rightarrow> js_value \<Rightarrow> bworld \<Rightarrow> bworld" where
  "b_error_requests i e w =
     fold (b_error_steps e) (br_requests (b_readers w i)) (upd_breader i (\<lambda>r. r\<lparr>br_requests := []\<rparr>) w)"

definition b_fulfill_read_request :: "nat \<Rightarrow> array_view \<Rightarrow> bool \<Rightarrow> bworld \<Rightarrow> unit thrown" where
  "b_fulfill_read_request i v finished w =
     (case br_requests (b_readers w i) of
        [] \<Rightarrow> None
      | rp # rps \<Rightarrow>
          let w1 = upd_breader i (\<lambda>r. r\<lparr>br_requests := rps\<rparr>) w in
          Some (Inr (), if finished then b_close_steps Undefined rp w1 else b_give rp v False w1))"

definition b_fulfill_read_into_request :: "nat \<Rightarrow> array_view \<Rightarrow> bool \<Rightarrow> bworld \<Rightarrow> unit thrown" where
  "b_fulfill_read_into_request i v finished w =
     (case br_requests (b_readers w i) of
        [] \<Rightarrow> None
      | rp # rps \<Rightarrow>
          let w1 = upd_breader i (\<lambda>r. r\<lparr>br_requests := rps\<rparr>) w in
          (case view_into_js v (b_buffers w1) of
             Inl e \<Rightarrow> Some (Inl e, w1)
           | Inr v' \<Rightarrow> Some (Inr (), b_give rp v' finished w1)))"

subsection \<open>Closing and erroring the stream\<close>

definition b_stream_error :: "nat option \<Rightarrow> js_value \<Rightarrow> bworld \<Rightarrow> bworld" where
  "b_stream_error rd e w =
     (let w1 = upd_bstream (\<lambda>s. s\<lparr>rs_state := RsErrored e\<rparr>) w in
      case rd of
        None \<Rightarrow> w1
      | Some i \<Rightarrow>
          let rp = br_closed (b_readers w1 i) in
          b_error_requests i e (upd_bpromises (\<lambda>ps. rp_set_is_handled rp (rp_do_reject rp e ps)) w1))"

definition b_stream_close :: "nat option \<Rightarrow> bworld \<Rightarrow> bworld" where
  "b_stream_close rd w =
     (let w1 = upd_bstream (\<lambda>s. s\<lparr>rs_state := RsClosed\<rparr>) w in
      case rd of
        None \<Rightarrow> w1
      | Some i \<Rightarrow>
          let w2 = upd_bpromises (rp_resolve_undefined (br_closed (b_readers w1 i))) w1 in
          if br_byob (b_readers w2 i) then w2
          else fold (b_close_steps Undefined) (br_requests (b_readers w2 i)) (upd_breader i (\<lambda>r. r\<lparr>br_requests := []\<rparr>) w2))"

subsection \<open>The controller\<close>

definition bc_clear_algorithms :: "bcontroller \<Rightarrow> bcontroller" where
  "bc_clear_algorithms c = c\<lparr>bc_pull_algorithm := None, bc_cancel_algorithm := None\<rparr>"

definition bc_reset_queue :: "bcontroller \<Rightarrow> bcontroller" where
  "bc_reset_queue c = c\<lparr>bc_queue := [], bc_total := 0\<rparr>"

definition bc_invalidate :: "bworld \<Rightarrow> bworld" where
  "bc_invalidate w =
     (case bc_byob_request (b_controller w) of
        None \<Rightarrow> w
      | Some q \<Rightarrow> upd_bc (\<lambda>c. c\<lparr>bc_byob_request := None\<rparr>)
          (w\<lparr>b_byob_requests := (b_byob_requests w)[q := \<lparr>bq_view = None, bq_controller = False\<rparr>]\<rparr>))"

definition bc_clear_pending :: "bworld \<Rightarrow> bworld" where
  "bc_clear_pending w = upd_bc (\<lambda>c. c\<lparr>bc_pending := []\<rparr>) (bc_invalidate w)"

definition bc_shift_pending :: "bworld \<Rightarrow> (pull_into \<times> bworld) option" where
  "bc_shift_pending w =
     (let w1 = bc_invalidate w in
      case bc_pending (b_controller w1) of
        [] \<Rightarrow> None
      | d # ds \<Rightarrow> Some (d, upd_bc (\<lambda>c. c\<lparr>bc_pending := ds\<rparr>) w1))"

definition bc_get_desired_size :: "bworld \<Rightarrow> f64 option" where
  "bc_get_desired_size w =
     (case rs_state (b_stream w) of
        RsErrored _ \<Rightarrow> None
      | RsClosed \<Rightarrow> Some (Fin 0)
      | RsReadable \<Rightarrow> Some (f64_sub (bc_hwm (b_controller w)) (round64 (of_nat (bc_total (b_controller w))))))"

definition bc_should_call_pull :: "nat option \<Rightarrow> bworld \<Rightarrow> bool option" where
  "bc_should_call_pull rd w =
     (if rs_state (b_stream w) \<noteq> RsReadable then Some False
      else if bc_close_requested (b_controller w) then Some False
      else if \<not> bc_started (b_controller w) then Some False
      else if b_num_requests rd w > 0 then Some True
      else do { desired_size \<leftarrow> bc_get_desired_size w; Some (f64_lt (Fin 0) desired_size) })"

fun b_source_call :: "buser \<Rightarrow> bcallback \<Rightarrow> source_algorithm \<Rightarrow> bworld \<Rightarrow> (nat \<times> bworld) option" where
  "b_source_call u c SourceReturnUndefined w = Some (promise_resolved_with_undefined, w)"
| "b_source_call u c SourceFunction w =
     do { (out, w') \<leftarrow> u c w; Some (b_with_promises (promise_resolved_with out) w') }"

definition bc_pull :: "buser \<Rightarrow> bworld \<Rightarrow> (nat \<times> bworld) option" where
  "bc_pull u w = do { alg \<leftarrow> bc_pull_algorithm (b_controller w); b_source_call u BCallPull alg w }"

definition bc_cancel :: "buser \<Rightarrow> js_value \<Rightarrow> bworld \<Rightarrow> (nat \<times> bworld) option" where
  "bc_cancel u reason w = do { alg \<leftarrow> bc_cancel_algorithm (b_controller w); b_source_call u (BCallCancel reason) alg w }"

definition bc_call_pull_if_needed :: "buser \<Rightarrow> nat option \<Rightarrow> bworld \<Rightarrow> bworld option" where
  "bc_call_pull_if_needed u rd w =
     do { should_pull \<leftarrow> bc_should_call_pull rd w;
          if \<not> should_pull then Some w
          else if bc_pulling (b_controller w) then Some (upd_bc (\<lambda>c. c\<lparr>bc_pull_again := True\<rparr>) w)
          else do { (p, w1) \<leftarrow> bc_pull u (upd_bc (\<lambda>c. c\<lparr>bc_pulling := True\<rparr>) w);
                    Some (b_upon_promise p ROnPull w1) } }"

definition bc_error :: "nat option \<Rightarrow> js_value \<Rightarrow> bworld \<Rightarrow> bworld" where
  "bc_error rd e w =
     (if rs_state (b_stream w) \<noteq> RsReadable then w
      else b_stream_error rd e (upd_bc (\<lambda>c. bc_clear_algorithms (bc_reset_queue c)) (bc_clear_pending w)))"

definition insufficient_bytes :: js_value where
  "insufficient_bytes = TypeError ''Insufficient bytes to fill elements in the given buffer''"

definition bc_close :: "nat option \<Rightarrow> bworld \<Rightarrow> (js_value + unit) \<times> bworld" where
  "bc_close rd w =
     (if bc_close_requested (b_controller w) \<or> rs_state (b_stream w) \<noteq> RsReadable then (Inr (), w)
      else if bc_total (b_controller w) > 0 then (Inr (), upd_bc (\<lambda>c. c\<lparr>bc_close_requested := True\<rparr>) w)
      else
        case bc_pending (b_controller w) of
          d # ds \<Rightarrow>
            if pi_filled d mod pi_element_size d \<noteq> 0
            then (Inl insufficient_bytes, bc_error rd insufficient_bytes w)
            else (Inr (), b_stream_close rd (upd_bc bc_clear_algorithms w))
        | [] \<Rightarrow> (Inr (), b_stream_close rd (upd_bc bc_clear_algorithms w)))"

definition bc_handle_queue_drain :: "buser \<Rightarrow> nat option \<Rightarrow> bworld \<Rightarrow> bworld option" where
  "bc_handle_queue_drain u rd w =
     (if bc_total (b_controller w) = 0 \<and> bc_close_requested (b_controller w)
      then Some (b_stream_close rd (upd_bc bc_clear_algorithms w))
      else bc_call_pull_if_needed u rd w)"

subsection \<open>The queue of bytes\<close>

definition bc_enqueue_chunk :: "nat \<Rightarrow> nat \<Rightarrow> nat \<Rightarrow> bworld \<Rightarrow> bworld" where
  "bc_enqueue_chunk b off n w =
     upd_bc (\<lambda>c. c\<lparr>bc_queue := bc_queue c @ [\<lparr>qe_buffer = b, qe_offset = off, qe_length = n\<rparr>], bc_total := bc_total c + n\<rparr>) w"

definition bc_enqueue_cloned_chunk :: "nat \<Rightarrow> nat \<Rightarrow> nat \<Rightarrow> bworld \<Rightarrow> bworld option" where
  "bc_enqueue_cloned_chunk b off n w =
     do { xs \<leftarrow> buffer_at (b_buffers w) b;
          ys \<leftarrow> slice xs off (off + n);
          Some (bc_enqueue_chunk (length (b_buffers w)) 0 n (w\<lparr>b_buffers := b_buffers w @ [Some ys]\<rparr>)) }"

definition bc_enqueue_detached_pull_into :: "bworld \<Rightarrow> bworld option" where
  "bc_enqueue_detached_pull_into w =
     do { d \<leftarrow> index (bc_pending (b_controller w)) 0;
          w1 \<leftarrow> (if pi_filled d > 0 then bc_enqueue_cloned_chunk (pi_buffer d) (pi_offset d) (pi_filled d) w else Some w);
          (_, w2) \<leftarrow> bc_shift_pending w1;
          Some w2 }"

definition bc_fill_read_request :: "buser \<Rightarrow> nat \<Rightarrow> resolveable_promise \<Rightarrow> bworld \<Rightarrow> unit thrown" where
  "bc_fill_read_request u i rp w =
     (case bc_queue (b_controller w) of
        [] \<Rightarrow> None
      | e # q \<Rightarrow>
          do { t \<leftarrow> usub (bc_total (b_controller w)) (qe_length e);
               w1 \<leftarrow> bc_handle_queue_drain u (Some i) (upd_bc (\<lambda>c. c\<lparr>bc_queue := q, bc_total := t\<rparr>) w);
               (case construct_view U8Array (qe_buffer e) (qe_offset e) (qe_length e) (b_buffers w1) of
                  Inl err \<Rightarrow> Some (Inl err, w1)
                | Inr v \<Rightarrow> Some (Inr (), b_give rp v False w1)) })"

partial_function (option) bc_process_read_requests :: "buser \<Rightarrow> nat \<Rightarrow> bworld \<Rightarrow> unit thrown" where
  "bc_process_read_requests u i w =
     (case br_requests (b_readers w i) of
        [] \<Rightarrow> Some (Inr (), w)
      | rp # rps \<Rightarrow>
          if bc_total (b_controller w) = 0 then Some (Inr (), w)
          else or_throw (bc_fill_read_request u i rp (upd_breader i (\<lambda>r. r\<lparr>br_requests := rps\<rparr>) w))
                 (\<lambda>_ w1. bc_process_read_requests u i w1))"

subsection \<open>Filling pull-into descriptors from the queue\<close>

text \<open>What to copy: as much as fits and is there, cut to whole elements when that reaches the minimum.\<close>

definition fill_plan :: "pull_into \<Rightarrow> nat \<Rightarrow> (nat \<times> bool) option" where
  "fill_plan d available =
     do { room \<leftarrow> usub (pi_length d) (pi_filled d);
          let max_bytes_to_copy = min available room;
          let max_bytes_filled = pi_filled d + max_bytes_to_copy;
          let max_aligned_bytes = max_bytes_filled - max_bytes_filled mod pi_element_size d;
          if pi_minimum d \<le> max_aligned_bytes
          then do { n \<leftarrow> usub max_aligned_bytes (pi_filled d); Some (n, True) }
          else Some (max_bytes_to_copy, False) }"

record fill_state =
  fs_descriptor :: pull_into
  fs_queue :: "queue_entry list"
  fs_total :: nat
  fs_buffers :: buffers

function (sequential) fill_loop :: "nat \<Rightarrow> fill_state \<Rightarrow> ((js_value + unit) \<times> fill_state) option" where
  "fill_loop 0 s = Some (Inr (), s)"
| "fill_loop remaining s =
     (case fs_queue s of
        [] \<Rightarrow> None
      | e # q \<Rightarrow>
          let n = min remaining (qe_length e); d = fs_descriptor s in
          do { r \<leftarrow> copy_data_block_bytes (pi_buffer d) (pi_offset d + pi_filled d) (qe_buffer e) (qe_offset e) n (fs_buffers s);
               (case r of
                  Inl err \<Rightarrow> Some (Inl err, s)
                | Inr bs \<Rightarrow>
                    do { t \<leftarrow> usub (fs_total s) n;
                         fill_loop (remaining - n)
                           \<lparr>fs_descriptor = d\<lparr>pi_filled := pi_filled d + n\<rparr>,
                            fs_queue = (if qe_length e = n then q
                                        else e\<lparr>qe_offset := qe_offset e + n, qe_length := qe_length e - n\<rparr> # q),
                            fs_total = t, fs_buffers = bs\<rparr> }) })"
  by pat_completeness auto
termination
  by (relation "measure (\<lambda>(n, s). n + length (fs_queue s))") auto

definition fill_from_queue :: "pull_into \<Rightarrow> bworld \<Rightarrow> ((js_value + bool) \<times> pull_into \<times> bworld) option" where
  "fill_from_queue d w =
     do { (n, ready) \<leftarrow> fill_plan d (bc_total (b_controller w));
          (r, s) \<leftarrow> fill_loop n \<lparr>fs_descriptor = d, fs_queue = bc_queue (b_controller w),
                      fs_total = bc_total (b_controller w), fs_buffers = b_buffers w\<rparr>;
          Some (case r of Inl e \<Rightarrow> Inl e | Inr _ \<Rightarrow> Inr ready, fs_descriptor s,
            upd_bc (\<lambda>c. c\<lparr>bc_queue := fs_queue s, bc_total := fs_total s\<rparr>) (w\<lparr>b_buffers := fs_buffers s\<rparr>)) }"

text \<open>The same for the first pending descriptor, which is filled in place.\<close>

definition fill_head_from_queue :: "bworld \<Rightarrow> bool thrown" where
  "fill_head_from_queue w =
     do { d \<leftarrow> index (bc_pending (b_controller w)) 0;
          (r, d', w1) \<leftarrow> fill_from_queue d w;
          Some (r, upd_bc (\<lambda>c. c\<lparr>bc_pending := (bc_pending c)[0 := d']\<rparr>) w1) }"

definition convert_pull_into :: "pull_into \<Rightarrow> bworld \<Rightarrow> array_view thrown" where
  "convert_pull_into d w =
     or_throw (with_transfer (pi_buffer d) w)
       (\<lambda>b w1. Some (construct_view (pi_constructor d) b (pi_offset d) (pi_filled d div pi_element_size d) (b_buffers w1), w1))"

definition bc_commit :: "nat option \<Rightarrow> pull_into \<Rightarrow> bworld \<Rightarrow> unit thrown" where
  "bc_commit rd d w =
     (let finished = (rs_state (b_stream w) = RsClosed) in
      or_throw (convert_pull_into d w)
        (\<lambda>v w1.
           (case rd of
              None \<Rightarrow> None
            | Some i \<Rightarrow>
                if pi_reader d = ReaderDefault then
                  (if br_byob (b_readers w1 i) then None
                   else case view_into_js v (b_buffers w1) of
                          Inl e \<Rightarrow> Some (Inl e, w1)
                        | Inr v' \<Rightarrow> b_fulfill_read_request i v' finished w1)
                else if br_byob (b_readers w1 i) then b_fulfill_read_into_request i v finished w1
                else None)))"

partial_function (option) bc_process_pull_intos :: "nat option \<Rightarrow> bworld \<Rightarrow> unit thrown" where
  "bc_process_pull_intos rd w =
     (if bc_pending (b_controller w) = [] then Some (Inr (), w)
      else if bc_total (b_controller w) = 0 then Some (Inr (), w)
      else or_throw (fill_head_from_queue w)
             (\<lambda>ready w1.
                if ready
                then do { (d, w2) \<leftarrow> bc_shift_pending w1;
                          or_throw (bc_commit rd d w2) (\<lambda>_ w3. bc_process_pull_intos rd w3) }
                else bc_process_pull_intos rd w1))"

subsection \<open>Enqueueing\<close>

definition detach_first_pending :: "bworld \<Rightarrow> unit thrown" where
  "detach_first_pending w =
     (case bc_pending (b_controller w) of
        [] \<Rightarrow> Some (Inr (), w)
      | d # ds \<Rightarrow>
          if buffer_at (b_buffers w) (pi_buffer d) = None
          then Some (Inl (TypeError ''The BYOB request's buffer has been detached and so cannot be filled with an enqueued chunk''), w)
          else or_throw (with_transfer (pi_buffer d) (bc_invalidate w))
                 (\<lambda>b w1.
                    let w2 = upd_bc (\<lambda>c. c\<lparr>bc_pending := (bc_pending c)[0 := d\<lparr>pi_buffer := b\<rparr>]\<rparr>) w1 in
                    if pi_reader d = ReaderNone
                    then do { w3 \<leftarrow> bc_enqueue_detached_pull_into w2; Some (Inr (), w3) }
                    else Some (Inr (), w2)))"

definition enqueue_for_default_reader :: "buser \<Rightarrow> nat \<Rightarrow> nat \<Rightarrow> nat \<Rightarrow> nat \<Rightarrow> bworld \<Rightarrow> unit thrown" where
  "enqueue_for_default_reader u i b off n w =
     or_throw (bc_process_read_requests u i w)
       (\<lambda>_ w1.
          if b_num_requests (Some i) w1 = 0 then Some (Inr (), bc_enqueue_chunk b off n w1)
          else
            do { w2 \<leftarrow> (if bc_pending (b_controller w1) \<noteq> [] then map_option snd (bc_shift_pending w1) else Some w1);
                 (case construct_view U8Array b off n (b_buffers w2) of
                    Inl e \<Rightarrow> Some (Inl e, w2)
                  | Inr v \<Rightarrow> b_fulfill_read_request i v False w2) })"

definition bc_enqueue_impl :: "buser \<Rightarrow> nat option \<Rightarrow> array_view \<Rightarrow> bool \<Rightarrow> bworld \<Rightarrow> unit thrown" where
  "bc_enqueue_impl u rd chunk skip_transfer w =
     (if bc_close_requested (b_controller w) \<or> rs_state (b_stream w) \<noteq> RsReadable then Some (Inr (), w)
      else
        let (b, n, off) = get_array_buffer chunk (b_buffers w) in
        if buffer_at (b_buffers w) b = None
        then Some (Inl (TypeError ''chunk's buffer is detached and so cannot be enqueued''), w)
        else
          or_throw (if skip_transfer then Some (Inr b, w) else with_transfer b w)
            (\<lambda>b' w1. or_throw (detach_first_pending w1)
              (\<lambda>_ w2. or_throw
                 (case rd of
                    None \<Rightarrow> Some (Inr (), bc_enqueue_chunk b' off n w2)
                  | Some i \<Rightarrow>
                      if br_byob (b_readers w2 i) then bc_process_pull_intos rd (bc_enqueue_chunk b' off n w2)
                      else enqueue_for_default_reader u i b' off n w2)
                 (\<lambda>_ w3. do { w4 \<leftarrow> bc_call_pull_if_needed u rd w3; Some (Inr (), w4) }))))"

subsection \<open>Reading into a view\<close>

definition bc_pull_into :: "buser \<Rightarrow> nat \<Rightarrow> array_view \<Rightarrow> nat \<Rightarrow> resolveable_promise \<Rightarrow> bworld \<Rightarrow> unit thrown" where
  "bc_pull_into u i view min_elements rp w =
     (let esize = element_size (av_kind view);
          (b, n, off) = get_array_buffer view (b_buffers w);
          (r, bs) = transfer_array_buffer b (b_buffers w);
          w0 = w\<lparr>b_buffers := bs\<rparr>
      in case r of
           Inl e \<Rightarrow> Some (Inr (), b_error_steps e rp w0)
         | Inr b' \<Rightarrow>
             let d = \<lparr>pi_buffer = b', pi_buffer_length = length (the (buffer_at bs b')), pi_offset = off, pi_length = n,
                      pi_filled = 0, pi_minimum = min_elements * esize, pi_element_size = esize,
                      pi_constructor = av_kind view, pi_reader = ReaderByob\<rparr>;
                 wait = (\<lambda>d w. b_add_request i rp (upd_bc (\<lambda>c. c\<lparr>bc_pending := bc_pending c @ [d]\<rparr>) w));
                 wait_and_pull = (\<lambda>d w. do { w' \<leftarrow> bc_call_pull_if_needed u (Some i) (wait d w); Some (Inr (), w') })
             in if bc_pending (b_controller w0) \<noteq> [] then Some (Inr (), wait d w0)
                else if rs_state (b_stream w0) = RsClosed then
                  (case construct_view (av_kind view) b' off 0 bs of
                     Inl e \<Rightarrow> Some (Inl e, w0)
                   | Inr v \<Rightarrow> Some (Inr (), b_give rp v True w0))
                else if bc_total (b_controller w0) > 0 then
                  do { (r1, d1, w1) \<leftarrow> fill_from_queue d w0;
                       (case r1 of
                          Inl e \<Rightarrow> Some (Inl e, w1)
                        | Inr True \<Rightarrow>
                            or_throw (convert_pull_into d1 w1)
                              (\<lambda>v w2. do { w3 \<leftarrow> bc_handle_queue_drain u (Some i) w2; Some (Inr (), b_give rp v False w3) })
                        | Inr False \<Rightarrow>
                            if bc_close_requested (b_controller w1)
                            then Some (Inr (), b_error_steps insufficient_bytes rp (bc_error (Some i) insufficient_bytes w1))
                            else wait_and_pull d1 w1) }
                else wait_and_pull d w0)"

subsection \<open>Responding to a BYOB request\<close>

definition bc_fill_head :: "nat \<Rightarrow> bworld \<Rightarrow> bworld option" where
  "bc_fill_head n w =
     do { d \<leftarrow> index (bc_pending (b_controller w)) 0;
          Some (upd_bc (\<lambda>c. c\<lparr>bc_pending := (bc_pending c)[0 := d\<lparr>pi_filled := pi_filled d + n\<rparr>]\<rparr>) w) }"

partial_function (option) bc_commit_all :: "nat \<Rightarrow> bworld \<Rightarrow> unit thrown" where
  "bc_commit_all i w =
     (if b_num_requests (Some i) w = 0 then Some (Inr (), w)
      else do { (d, w1) \<leftarrow> bc_shift_pending w;
                or_throw (bc_commit (Some i) d w1) (\<lambda>_ w2. bc_commit_all i w2) })"

definition bc_respond_closed :: "nat option \<Rightarrow> bworld \<Rightarrow> unit thrown" where
  "bc_respond_closed rd w =
     do { d \<leftarrow> index (bc_pending (b_controller w)) 0;
          w1 \<leftarrow> (if pi_reader d = ReaderNone then map_option snd (bc_shift_pending w) else Some w);
          (case rd of
             Some i \<Rightarrow> if br_byob (b_readers w1 i) then bc_commit_all i w1 else Some (Inr (), w1)
           | None \<Rightarrow> Some (Inr (), w1)) }"

definition bc_respond_readable :: "nat option \<Rightarrow> nat \<Rightarrow> bworld \<Rightarrow> unit thrown" where
  "bc_respond_readable rd n w =
     do { w1 \<leftarrow> bc_fill_head n w;
          d \<leftarrow> index (bc_pending (b_controller w1)) 0;
          if pi_reader d = ReaderNone
          then do { w2 \<leftarrow> bc_enqueue_detached_pull_into w1; bc_process_pull_intos rd w2 }
          else if pi_filled d < pi_minimum d then Some (Inr (), w1)
          else
            do { (d', w2) \<leftarrow> bc_shift_pending w1;
                 let remainder = pi_filled d' mod pi_element_size d';
                 w3 \<leftarrow> (if remainder > 0
                        then bc_enqueue_cloned_chunk (pi_buffer d') (pi_offset d' + pi_filled d' - remainder) remainder w2
                        else Some w2);
                 or_throw (bc_commit rd (d'\<lparr>pi_filled := pi_filled d' - remainder\<rparr>) w3)
                   (\<lambda>_ w4. bc_process_pull_intos rd w4) } }"

definition bc_respond_internal :: "buser \<Rightarrow> nat option \<Rightarrow> nat \<Rightarrow> bworld \<Rightarrow> unit thrown" where
  "bc_respond_internal u rd n w =
     (let w1 = bc_invalidate w in
      or_throw (if rs_state (b_stream w1) = RsClosed then bc_respond_closed rd w1 else bc_respond_readable rd n w1)
        (\<lambda>_ w2. do { w3 \<leftarrow> bc_call_pull_if_needed u rd w2; Some (Inr (), w3) }))"

definition bc_set_first_buffer :: "nat \<Rightarrow> bworld \<Rightarrow> bworld" where
  "bc_set_first_buffer b w =
     upd_bc (\<lambda>c. c\<lparr>bc_pending := (case bc_pending c of [] \<Rightarrow> [] | d # ds \<Rightarrow> d\<lparr>pi_buffer := b\<rparr> # ds)\<rparr>) w"

definition bc_respond :: "buser \<Rightarrow> nat option \<Rightarrow> nat \<Rightarrow> bworld \<Rightarrow> unit thrown" where
  "bc_respond u rd n w =
     do { d \<leftarrow> index (bc_pending (b_controller w)) 0;
          if rs_state (b_stream w) = RsClosed \<and> n \<noteq> 0
          then Some (Inl (TypeError ''bytesWritten must be 0 when calling respond() on a closed stream''), w)
          else if rs_state (b_stream w) \<noteq> RsClosed \<and> n = 0
          then Some (Inl (TypeError ''bytesWritten must be greater than 0 when calling respond() on a readable stream''), w)
          else if rs_state (b_stream w) \<noteq> RsClosed \<and> pi_length d < pi_filled d + n
          then Some (Inl (RangeError (''bytesWritten out of range'' @ [CHR 0x27])), w)
          else or_throw (with_transfer (pi_buffer d) w)
                 (\<lambda>b w1. bc_respond_internal u rd n (bc_set_first_buffer b w1)) }"

definition bc_respond_with_new_view :: "buser \<Rightarrow> nat option \<Rightarrow> array_view \<Rightarrow> bworld \<Rightarrow> unit thrown" where
  "bc_respond_with_new_view u rd view w =
     (let (b, n, off) = get_array_buffer view (b_buffers w) in
      if rs_state (b_stream w) = RsClosed \<and> n \<noteq> 0
      then Some (Inl (TypeError ''The view's length must be 0 when calling respondWithNewView() on a closed stream''), w)
      else if rs_state (b_stream w) \<noteq> RsClosed \<and> n = 0
      then Some (Inl (TypeError ''The view's length must be greater than 0 when calling respondWithNewView() on a readable stream''), w)
      else
        do { d \<leftarrow> index (bc_pending (b_controller w)) 0;
             if pi_offset d + pi_filled d \<noteq> off
             then Some (Inl (RangeError ''The region specified by view does not match byobRequest''), w)
             else if pi_buffer_length d \<noteq> length (the (buffer_at (b_buffers w) b))
             then Some (Inl (RangeError ''The buffer of view has different capacity than byobRequest''), w)
             else if pi_length d < pi_filled d + n
             then Some (Inl (RangeError ''The region specified by view is larger than byobRequest''), w)
             else or_throw (with_transfer b w)
                    (\<lambda>b' w1. bc_respond_internal u rd n (bc_set_first_buffer b' w1)) })"

definition bc_get_byob_request :: "bworld \<Rightarrow> (nat option) thrown" where
  "bc_get_byob_request w =
     (case (bc_byob_request (b_controller w), bc_pending (b_controller w)) of
        (None, d # ds) \<Rightarrow>
          do { n \<leftarrow> usub (pi_length d) (pi_filled d);
               (case construct_view U8Array (pi_buffer d) (pi_offset d + pi_filled d) n (b_buffers w) of
                  Inl e \<Rightarrow> Some (Inl e, w)
                | Inr v \<Rightarrow>
                    let q = length (b_byob_requests w) in
                    Some (Inr (Some q), upd_bc (\<lambda>c. c\<lparr>bc_byob_request := Some q\<rparr>)
                      (w\<lparr>b_byob_requests := b_byob_requests w @ [\<lparr>bq_view = Some v, bq_controller = True\<rparr>],
                         b_held := av_buffer v # b_held w\<rparr>))) }
      | (q, _) \<Rightarrow> Some (Inr q, w))"

definition byob_request_respond :: "buser \<Rightarrow> nat \<Rightarrow> nat \<Rightarrow> bworld \<Rightarrow> unit thrown" where
  "byob_request_respond u q n w =
     (case (bq_controller (b_byob_requests w ! q), bq_view (b_byob_requests w ! q)) of
        (True, Some v) \<Rightarrow>
          if buffer_at (b_buffers w) (av_buffer v) = None
          then Some (Inl (TypeError ''The BYOB request's buffer has been detached and so cannot be used as a response''), w)
          else bc_respond u (b_refresh_reader w) n w
      | _ \<Rightarrow> Some (Inl (TypeError ''This BYOB request has been invalidated''), w))"

definition byob_request_respond_with_new_view :: "buser \<Rightarrow> nat \<Rightarrow> js_value option \<Rightarrow> bworld \<Rightarrow> unit thrown" where
  "byob_request_respond_with_new_view u q view w =
     (if \<not> bq_controller (b_byob_requests w ! q) then Some (Inl (TypeError ''This BYOB request has been invalidated''), w)
      else case view_from_value view of
        Inl e \<Rightarrow> Some (Inl e, w)
      | Inr v \<Rightarrow>
          if buffer_at (b_buffers w) (av_buffer v) = None
          then Some (Inl (TypeError ''The given view's buffer has been detached and so cannot be used as a response''), w)
          else bc_respond_with_new_view u (b_refresh_reader w) v w)"

subsection \<open>The methods of the controller\<close>

definition bc_close_method :: "bworld \<Rightarrow> (js_value + unit) \<times> bworld" where
  "bc_close_method w =
     (if bc_close_requested (b_controller w) then (Inl (TypeError ''close() called more than once''), w)
      else if rs_state (b_stream w) \<noteq> RsReadable then (Inl (TypeError ''close() called when stream is not readable''), w)
      else bc_close (b_refresh_reader w) w)"

definition bc_enqueue_method :: "buser \<Rightarrow> js_value \<Rightarrow> bworld \<Rightarrow> unit thrown" where
  "bc_enqueue_method u chunk w =
     (case view_from_value (Some chunk) of
        Inl e \<Rightarrow> Some (Inl e, w)
      | Inr v \<Rightarrow>
          let (b, n, off) = get_array_buffer v (b_buffers w) in
          if n = 0 then Some (Inl (TypeError ''chunk must have non-zero byteLength''), w)
          else if buffer_at (b_buffers w) b = Some []
          then Some (Inl (TypeError ''chunk must have non-zero buffer byteLength''), w)
          else if bc_close_requested (b_controller w) then Some (Inl (TypeError ''stream is closed or draining''), w)
          else if rs_state (b_stream w) \<noteq> RsReadable
          then Some (Inl (TypeError ''The stream is not in the readable state and cannot be enqueued to''), w)
          else bc_enqueue_impl u (b_refresh_reader w) v False w)"

definition bc_error_method :: "js_value option \<Rightarrow> bworld \<Rightarrow> bworld" where
  "bc_error_method e w = bc_error (b_refresh_reader w) (case e of Some v \<Rightarrow> v | None \<Rightarrow> Undefined) w"

text \<open>The same from Rust, for a whole buffer.\<close>

definition bc_enqueue_bytes :: "buser \<Rightarrow> nat \<Rightarrow> bool \<Rightarrow> bworld \<Rightarrow> unit thrown" where
  "bc_enqueue_bytes u b skip_transfer w =
     (let n = (case buffer_at (b_buffers w) b of None \<Rightarrow> 0 | Some xs \<Rightarrow> length xs) in
      if n = 0 then Some (Inr (), w)
      else bc_enqueue_impl u (b_refresh_reader w) \<lparr>av_kind = U8Array, av_buffer = b, av_offset = 0, av_length = n\<rparr> skip_transfer w)"

definition bc_close_stream :: "bworld \<Rightarrow> (js_value + unit) \<times> bworld" where
  "bc_close_stream w = bc_close (b_refresh_reader w) w"

subsection \<open>Readers\<close>

definition b_set_up_reader :: "bool \<Rightarrow> bworld \<Rightarrow> (js_value + nat) \<times> bworld" where
  "b_set_up_reader byob w =
     (if is_readable_stream_locked (b_stream w)
      then (Inl (TypeError ''This stream has already been locked for exclusive reading by another reader''), w)
      else
        let (closed, w1) = b_with_promises (generic_initialize (b_stream w)) w;
            i = b_next_reader w
        in (Inr i, upd_bstream (\<lambda>s. s\<lparr>rs_reader := Some i\<rparr>)
             (w1\<lparr>b_readers := (b_readers w1)(i := \<lparr>br_byob = byob, br_closed = closed, br_attached = True, br_requests = []\<rparr>),
                 b_next_reader := Suc i\<rparr>)))"

definition bc_release_steps :: "bcontroller \<Rightarrow> bcontroller" where
  "bc_release_steps c =
     (case bc_pending c of [] \<Rightarrow> c | d # ds \<Rightarrow> c\<lparr>bc_pending := [d\<lparr>pi_reader := ReaderNone\<rparr>]\<rparr>)"

definition b_generic_release :: "nat \<Rightarrow> bworld \<Rightarrow> bworld" where
  "b_generic_release i w =
     (let rp = br_closed (b_readers w i);
          (rp', ps) = (if rs_state (b_stream w) = RsReadable
                       then (rp, rp_do_reject rp reader_released_error (b_promises w))
                       else rp_rejected_with reader_released_error (b_promises w))
      in upd_breader i (\<lambda>r. r\<lparr>br_closed := rp', br_attached := False\<rparr>)
           (upd_bstream (\<lambda>s. s\<lparr>rs_reader := None\<rparr>)
             (upd_bc bc_release_steps (w\<lparr>b_promises := rp_set_is_handled rp' ps\<rparr>))))"

definition b_reader_release :: "nat \<Rightarrow> bworld \<Rightarrow> bworld" where
  "b_reader_release i w = b_error_requests i (TypeError ''Reader was released'') (b_generic_release i w)"

definition b_reader_release_lock :: "nat \<Rightarrow> bworld \<Rightarrow> bworld" where
  "b_reader_release_lock i w = (if br_attached (b_readers w i) then b_reader_release i w else w)"

definition bc_pull_steps :: "buser \<Rightarrow> nat \<Rightarrow> resolveable_promise \<Rightarrow> bworld \<Rightarrow> unit thrown" where
  "bc_pull_steps u i rp w =
     (if bc_total (b_controller w) > 0 then bc_fill_read_request u i rp w
      else
        let w1 = (case bc_auto_allocate (b_controller w) of
                    None \<Rightarrow> w
                  | Some n \<Rightarrow>
                      let d = \<lparr>pi_buffer = length (b_buffers w), pi_buffer_length = n, pi_offset = 0, pi_length = n,
                               pi_filled = 0, pi_minimum = 1, pi_element_size = 1, pi_constructor = U8Array,
                               pi_reader = ReaderDefault\<rparr>
                      in upd_bc (\<lambda>c. c\<lparr>bc_pending := bc_pending c @ [d]\<rparr>) (w\<lparr>b_buffers := b_buffers w @ [Some (replicate n 0)]\<rparr>))
        in do { w2 \<leftarrow> bc_call_pull_if_needed u (Some i) (b_add_request i rp w1); Some (Inr (), w2) })"

definition b_default_reader_read :: "buser \<Rightarrow> nat \<Rightarrow> resolveable_promise \<Rightarrow> bworld \<Rightarrow> unit thrown" where
  "b_default_reader_read u i rp w =
     (let w1 = upd_bstream (\<lambda>s. s\<lparr>rs_disturbed := True\<rparr>) w in
      case rs_state (b_stream w1) of
        RsClosed \<Rightarrow> Some (Inr (), b_close_steps Undefined rp w1)
      | RsErrored stored \<Rightarrow> Some (Inr (), b_error_steps stored rp w1)
      | RsReadable \<Rightarrow> bc_pull_steps u i rp w1)"

definition b_reject :: "js_value \<Rightarrow> bworld \<Rightarrow> nat thrown" where
  "b_reject e w = (let (p, w') = b_with_promises (promise_rejected_with e) w in Some (Inr p, w'))"

definition b_reader_read :: "buser \<Rightarrow> nat \<Rightarrow> bworld \<Rightarrow> nat thrown" where
  "b_reader_read u i w =
     (if \<not> br_attached (b_readers w i) then b_reject (TypeError ''Cannot read from a stream using a released reader'') w
      else
        let (rp, w1) = b_with_promises rp_new w in
        or_throw (b_default_reader_read u i rp w1) (\<lambda>_ w2. Some (Inr (rp_promise rp), w2)))"

definition b_byob_reader_read :: "buser \<Rightarrow> nat \<Rightarrow> array_view \<Rightarrow> nat \<Rightarrow> resolveable_promise \<Rightarrow> bworld \<Rightarrow> unit thrown" where
  "b_byob_reader_read u i view min_elements rp w =
     (let w1 = upd_bstream (\<lambda>s. s\<lparr>rs_disturbed := True\<rparr>) w in
      case rs_state (b_stream w1) of
        RsErrored stored \<Rightarrow> Some (Inr (), b_error_steps stored rp w1)
      | _ \<Rightarrow> bc_pull_into u i view min_elements rp w1)"

text \<open>The option \<^verbatim>\<open>min\<close>, converted to a 64-bit integer as Rust does.\<close>

definition read_min :: "f64 option \<Rightarrow> js_value + nat" where
  "read_min opt =
     (let m = (case opt of None \<Rightarrow> Fin 1 | Some x \<Rightarrow> x) in
      if f64_lt m (Fin 0) \<or> f64_lt (Fin (2 ^ 64)) m
      then Inl (TypeError ''min on ReadableStreamBYOBReaderReadOptions must fit into unsigned long long'')
      else Inr (case m of Fin r \<Rightarrow> min (nat \<lfloor>r\<rfloor>) (2 ^ 64 - 1) | _ \<Rightarrow> 0))"

definition has_array_length :: "view_kind \<Rightarrow> bool" where
  "has_array_length k \<longleftrightarrow> k \<notin> {F16Array, U8ClampedArray, DataView}"

definition b_reader_read_into :: "buser \<Rightarrow> nat \<Rightarrow> js_value option \<Rightarrow> f64 option \<Rightarrow> bworld \<Rightarrow> nat thrown" where
  "b_reader_read_into u i view opt w =
     (case read_min opt of
        Inl e \<Rightarrow> b_reject e w
      | Inr m \<Rightarrow>
          (case view_from_value view of
             Inl e \<Rightarrow> b_reject e w
           | Inr v \<Rightarrow>
               let (b, n, off) = get_array_buffer v (b_buffers w) in
               if n = 0 then b_reject (TypeError ''view must have non-zero byteLength'') w
               else if buffer_at (b_buffers w) b = Some [] then b_reject (TypeError ''view's buffer must have non-zero byteLength'') w
               else if buffer_at (b_buffers w) b = None then b_reject (TypeError ''view's buffer has been detached'') w
               else if m = 0 then b_reject (TypeError ''options.min must be greater than 0'') w
               else if has_array_length (av_kind v) \<and> n div element_size (av_kind v) < m
               then b_reject (RangeError ''options.min must be less than or equal to views length'') w
               else if \<not> has_array_length (av_kind v) \<and> n < m
               then b_reject (RangeError ''options.min must be less than or equal to views byteLength'') w
               else if \<not> br_attached (b_readers w i) then b_reject (TypeError ''Cannot read a stream using a released reader'') w
               else
                 let (rp, w1) = b_with_promises rp_new w in
                 do { (r, w2) \<leftarrow> b_byob_reader_read u i v m rp w1;
                      (case r of Inl e \<Rightarrow> b_reject e w2 | Inr _ \<Rightarrow> Some (Inr (rp_promise rp), w2)) }))"

subsection \<open>Cancelling\<close>

definition bc_cancel_steps :: "buser \<Rightarrow> js_value \<Rightarrow> bworld \<Rightarrow> (nat \<times> bworld) option" where
  "bc_cancel_steps u reason w =
     do { (p, w1) \<leftarrow> bc_cancel u reason (upd_bc bc_reset_queue (bc_clear_pending w));
          Some (p, upd_bc bc_clear_algorithms w1) }"

definition b_close_read_into_requests :: "nat option \<Rightarrow> bworld \<Rightarrow> bworld" where
  "b_close_read_into_requests rd w =
     (case rd of
        None \<Rightarrow> w
      | Some i \<Rightarrow>
          if br_byob (b_readers w i)
          then fold (b_close_steps Undefined) (br_requests (b_readers w i)) (upd_breader i (\<lambda>r. r\<lparr>br_requests := []\<rparr>) w)
          else w)"

definition b_upon_fulfilment :: "nat \<Rightarrow> bworld \<Rightarrow> nat \<times> bworld" where
  "b_upon_fulfilment p w =
     (let (rp, w') = b_with_promises rp_new w in (rp_promise rp, b_upon_promise p (ROnCancel rp) w'))"

definition b_stream_cancel :: "buser \<Rightarrow> nat option \<Rightarrow> js_value \<Rightarrow> bworld \<Rightarrow> (nat \<times> bworld) option" where
  "b_stream_cancel u rd reason w =
     (let w1 = upd_bstream (\<lambda>s. s\<lparr>rs_disturbed := True\<rparr>) w in
      case rs_state (b_stream w1) of
        RsClosed \<Rightarrow> Some (b_with_promises (promise_resolved_with (Ret Undefined)) w1)
      | RsErrored stored \<Rightarrow> Some (b_with_promises (promise_rejected_with stored) w1)
      | RsReadable \<Rightarrow>
          do { (p, w2) \<leftarrow> bc_cancel_steps u reason (b_close_read_into_requests rd (b_stream_close rd w1));
               Some (b_upon_fulfilment p w2) })"

definition b_cancel :: "buser \<Rightarrow> js_value option \<Rightarrow> bworld \<Rightarrow> nat thrown" where
  "b_cancel u reason w =
     (if is_readable_stream_locked (b_stream w) then b_reject (TypeError ''Cannot cancel a stream that already has a reader'') w
      else do { (p, w') \<leftarrow> b_stream_cancel u (b_refresh_reader w) (case reason of Some v \<Rightarrow> v | None \<Rightarrow> Undefined) w;
                Some (Inr p, w') })"

definition b_reader_cancel :: "buser \<Rightarrow> nat \<Rightarrow> js_value option \<Rightarrow> bworld \<Rightarrow> nat thrown" where
  "b_reader_cancel u i reason w =
     (if \<not> br_attached (b_readers w i) then b_reject (TypeError ''Cannot cancel a stream using a released reader'') w
      else do { (p, w') \<leftarrow> b_stream_cancel u (Some i) (case reason of Some v \<Rightarrow> v | None \<Rightarrow> Undefined) w;
                Some (Inr p, w') })"

subsection \<open>Reactions\<close>

definition b_on_start :: "buser \<Rightarrow> (js_value + js_value) \<Rightarrow> bworld \<Rightarrow> bworld option" where
  "b_on_start u result w =
     (case result of
        Inr _ \<Rightarrow> bc_call_pull_if_needed u (b_refresh_reader w) (upd_bc (\<lambda>c. c\<lparr>bc_started := True\<rparr>) w)
      | Inl r \<Rightarrow> Some (bc_error (b_refresh_reader w) r w))"

definition b_on_pull :: "buser \<Rightarrow> (js_value + js_value) \<Rightarrow> bworld \<Rightarrow> bworld option" where
  "b_on_pull u result w =
     (case result of
        Inr _ \<Rightarrow>
          let w1 = upd_bc (\<lambda>c. c\<lparr>bc_pulling := False\<rparr>) w in
          if bc_pull_again (b_controller w1)
          then bc_call_pull_if_needed u (b_refresh_reader w) (upd_bc (\<lambda>c. c\<lparr>bc_pull_again := False\<rparr>) w1)
          else Some w1
      | Inl e \<Rightarrow> Some (bc_error (b_refresh_reader w) e w))"

definition b_on_cancel :: "resolveable_promise \<Rightarrow> (js_value + js_value) \<Rightarrow> bworld \<Rightarrow> bworld" where
  "b_on_cancel rp result w =
     upd_bpromises (case result of Inr _ \<Rightarrow> rp_resolve_undefined rp | Inl e \<Rightarrow> rp_do_reject rp e) w"

fun b_run_reaction :: "buser \<Rightarrow> rreaction \<Rightarrow> (js_value + js_value) \<Rightarrow> bworld \<Rightarrow> bworld option" where
  "b_run_reaction u ROnStart result w = b_on_start u result w"
| "b_run_reaction u ROnPull result w = b_on_pull u result w"
| "b_run_reaction u (ROnCancel rp) result w = Some (b_on_cancel rp result w)"

subsection \<open>The constructors\<close>

definition initial_bcontroller :: "source_algorithm \<Rightarrow> source_algorithm \<Rightarrow> f64 \<Rightarrow> nat option \<Rightarrow> bcontroller" where
  "initial_bcontroller pull cancel hwm auto =
     \<lparr>bc_auto_allocate = auto, bc_byob_request = None, bc_cancel_algorithm = Some cancel, bc_close_requested = False,
      bc_pull_again = False, bc_pull_algorithm = Some pull, bc_pulling = False, bc_pending = [], bc_queue = [],
      bc_total = 0, bc_started = False, bc_hwm = hwm\<rparr>"

definition fresh_bworld :: "source_algorithm \<Rightarrow> source_algorithm \<Rightarrow> f64 \<Rightarrow> nat option \<Rightarrow> promise_store \<Rightarrow> bworld" where
  "fresh_bworld pull cancel hwm auto ps =
     \<lparr>b_stream = initial_rstream, b_controller = initial_bcontroller pull cancel hwm auto,
      b_readers = (\<lambda>_. \<lparr>br_byob = False, br_closed = rp_resolved_with_undefined, br_attached = False, br_requests = []\<rparr>),
      b_next_reader = 0, b_promises = ps, b_reactions = [], b_buffers = [], b_byob_requests = [], b_held = [],
      b_user_promises = []\<rparr>"

definition set_up_byte_controller :: "buser \<Rightarrow> source_algorithm \<Rightarrow> bworld \<Rightarrow> unit thrown" where
  "set_up_byte_controller u start w =
     do { (out, w1) \<leftarrow> (case start of SourceReturnUndefined \<Rightarrow> Some (Ret Undefined, w) | SourceFunction \<Rightarrow> u BCallStart w);
          (case out of
             Throw e \<Rightarrow> Some (Inl e, w1)
           | Ret v \<Rightarrow>
               let (p, w2) = b_with_promises (promise_resolved_with (Ret v)) w1
               in Some (Inr (), b_upon_promise p ROnStart w2)) }"

definition byte_stream_new ::
  "buser \<Rightarrow> underlying_source \<Rightarrow> nat option \<Rightarrow> queuing_strategy option \<Rightarrow> promise_store \<Rightarrow> unit thrown" where
  "byte_stream_new u source auto strategy ps =
     (let pull = source_algorithm_of (src_pull source);
          cancel = source_algorithm_of (src_cancel source);
          unused = fresh_bworld pull cancel (Fin 0) auto ps
      in if Option.bind strategy qs_size \<noteq> None
         then Some (Inl (RangeError ''The strategy for a byte stream cannot have a size function''), unused)
         else case extract_high_water_mark strategy (Fin 0) of
                Inl e \<Rightarrow> Some (Inl e, unused)
              | Inr hwm \<Rightarrow>
                  if auto = Some 0 then Some (Inl (TypeError ''autoAllocateChunkSize must be greater than 0''), unused)
                  else set_up_byte_controller u (source_algorithm_of (src_start source)) (fresh_bworld pull cancel hwm auto ps))"

definition create_readable_byte_stream ::
  "buser \<Rightarrow> source_algorithm \<Rightarrow> source_algorithm \<Rightarrow> source_algorithm \<Rightarrow> promise_store \<Rightarrow> unit thrown" where
  "create_readable_byte_stream u start pull cancel ps =
     set_up_byte_controller u start (fresh_bworld pull cancel (Fin 0) None ps)"

end
