(* ===== verification/ByteInv.thy ===== *)
theory ByteInv
  imports ByteStream
begin

text \<open>
  The invariant of readable byte streams that are made without \<^verbatim>\<open>autoAllocateChunkSize\<close>.  The pending
  pull-into descriptors are in step with the read-into requests of the reader; the buffers of the queue and of
  all descriptors but the first are attached, all different and out of reach of the user; the
  descriptors and the entries of the queue lie inside their buffers.  \<open>b_inv k\<close> allows for \<open>k\<close> requests whose
  descriptors an operation has taken out already.

  Operations are judged from the state \<open>w0\<close> in which they began: \<open>bfine w0 k w\<close> says that the invariant
  holds in \<open>w\<close> and that nothing was done on the way that user code may not do.
\<close>

subsection \<open>Array buffers\<close>

definition attached :: "buffers \<Rightarrow> nat \<Rightarrow> bool" where
  "attached bs b \<longleftrightarrow> buffer_at bs b \<noteq> None"

text \<open>Buffers may be added, detached and written to, but do not change their length.\<close>

definition shrinks :: "buffers \<Rightarrow> buffers \<Rightarrow> bool" where
  "shrinks bs bs' \<longleftrightarrow> length bs \<le> length bs' \<and>
     (\<forall>b ys. b < length bs \<longrightarrow> buffer_at bs' b = Some ys \<longrightarrow> (\<exists>xs. buffer_at bs b = Some xs \<and> length xs = length ys))"

lemma shrinks_refl [simp]: "shrinks bs bs"
  by (simp add: shrinks_def)

lemma shrinksD:
  "shrinks bs bs' \<Longrightarrow> b < length bs \<Longrightarrow> buffer_at bs' b = Some ys \<Longrightarrow> \<exists>xs. buffer_at bs b = Some xs \<and> length xs = length ys"
  by (simp add: shrinks_def)

lemma shrinks_length: "shrinks bs bs' \<Longrightarrow> length bs \<le> length bs'"
  by (simp add: shrinks_def)

lemma shrinks_trans:
  assumes "shrinks a b" "shrinks b c"
  shows "shrinks a c"
  unfolding shrinks_def
proof (intro conjI allI impI)
  show "length a \<le> length c" using assms shrinks_length order_trans by blast
  fix i ys
  assume i: "i < length a" "buffer_at c i = Some ys"
  then obtain xs where "buffer_at b i = Some xs" "length xs = length ys"
    using shrinksD [OF assms(2) _ i(2)] shrinks_length [OF assms(1)] by auto
  then show "\<exists>xs. buffer_at a i = Some xs \<and> length xs = length ys" using shrinksD [OF assms(1) i(1)] by metis
qed

lemma shrinks_append [simp]: "shrinks bs (bs @ xs)"
  by (auto simp: shrinks_def buffer_at_def nth_append)

lemma buffer_at_append: "buffer_at (bs @ xs) b = (if b < length bs then buffer_at bs b else buffer_at xs (b - length bs))"
  by (auto simp: buffer_at_def nth_append)

lemma buffer_at_update: "buffer_at (bs[b := x]) c = (if c = b \<and> b < length bs then x else buffer_at bs c)"
  by (simp add: buffer_at_def nth_list_update)

lemma attached_less: "attached bs b \<Longrightarrow> b < length bs"
  by (auto simp: attached_def buffer_at_def split: if_splits)

lemma attached_Some: "buffer_at bs b = Some xs \<Longrightarrow> attached bs b"
  by (simp add: attached_def)

lemma attached_append [simp]: "attached (bs @ [x]) b \<longleftrightarrow> (if b = length bs then x \<noteq> None else attached bs b)"
  by (auto simp: attached_def buffer_at_def nth_append)

lemma attached_update [simp]: "attached (bs[b := x]) c \<longleftrightarrow> (if c = b \<and> b < length bs then x \<noteq> None else attached bs c)"
  by (simp add: attached_def buffer_at_update)

lemma shrinks_detach [simp]: "shrinks bs (bs[b := None])"
  by (auto simp: shrinks_def buffer_at_update split: if_splits)

lemma shrinks_write: "buffer_at bs b = Some xs \<Longrightarrow> length ys = length xs \<Longrightarrow> shrinks bs (bs[b := Some ys])"
  by (auto simp: shrinks_def buffer_at_update split: if_splits)

lemma transfer_cases:
  obtains (detached) "\<not> attached bs b" "transfer_array_buffer b bs = (Inl detached_error, bs)"
  | (attached) xs where "attached bs b" "buffer_at bs b = Some xs"
      "transfer_array_buffer b bs = (Inr (length bs), bs[b := None] @ [Some xs])"
  by (cases "buffer_at bs b") (auto simp: transfer_array_buffer_def attached_def)

lemma copy_ok:
  assumes "buffer_at bs a = Some xs" "buffer_at bs b = Some ys" "i + n \<le> length xs" "j + n \<le> length ys"
  shows "copy_data_block_bytes a i b j n bs = Some (Inr (bs[a := Some (take i xs @ take n (drop j ys) @ drop (i + n) xs)]))"
  using assms by (simp add: copy_data_block_bytes_def slice_in)

subsection \<open>Descriptors and entries\<close>

definition desc_ok :: "buffers \<Rightarrow> pull_into \<Rightarrow> bool" where
  "desc_ok bs d \<longleftrightarrow> pi_element_size d = element_size (pi_constructor d) \<and> pi_offset d mod pi_element_size d = 0
     \<and> pi_offset d + pi_length d \<le> pi_buffer_length d \<and> pi_minimum d \<le> pi_length d \<and> pi_minimum d mod pi_element_size d = 0
     \<and> pi_buffer d < length bs \<and> (\<forall>xs. buffer_at bs (pi_buffer d) = Some xs \<longrightarrow> length xs = pi_buffer_length d)"

definition qentry_ok :: "buffers \<Rightarrow> queue_entry \<Rightarrow> bool" where
  "qentry_ok bs e \<longleftrightarrow> qe_buffer e < length bs
     \<and> (\<forall>xs. buffer_at bs (qe_buffer e) = Some xs \<longrightarrow> qe_offset e + qe_length e \<le> length xs)"

lemma element_size_pos [simp]: "0 < element_size k"
  by (cases k) auto

lemma desc_ok_shrinks:
  assumes "desc_ok bs d" "shrinks bs bs'"
  shows "desc_ok bs' d"
proof -
  have "length ys = pi_buffer_length d" if "buffer_at bs' (pi_buffer d) = Some ys" for ys
    using shrinksD [OF assms(2) _ that] assms(1) by (auto simp: desc_ok_def)
  then show ?thesis using assms(1) shrinks_length [OF assms(2)] by (auto simp: desc_ok_def)
qed

lemma qentry_ok_shrinks:
  assumes "qentry_ok bs e" "shrinks bs bs'"
  shows "qentry_ok bs' e"
proof -
  have "qe_offset e + qe_length e \<le> length ys" if "buffer_at bs' (qe_buffer e) = Some ys" for ys
    using shrinksD [OF assms(2) _ that] assms(1) by (auto simp: qentry_ok_def)
  then show ?thesis using assms(1) shrinks_length [OF assms(2)] by (simp add: qentry_ok_def)
qed

text \<open>How far the available bytes fill a descriptor with whole elements.  Whatever is not ready uses up the queue.\<close>

definition whole_elements :: "pull_into \<Rightarrow> nat \<Rightarrow> nat" where
  "whole_elements d available = (let f = min (pi_length d) (pi_filled d + available) in f - f mod pi_element_size d)"

lemma fill_plan_ok:
  assumes d: "desc_ok bs d" and f: "pi_filled d < pi_minimum d"
  obtains (ready) n where "fill_plan d available = Some (n, True)" "0 < n" "n \<le> available" "pi_filled d + n \<le> pi_length d"
      "(pi_filled d + n) mod pi_element_size d = 0" "pi_minimum d \<le> pi_filled d + n" "pi_filled d + n = whole_elements d available"
  | (wait) "fill_plan d available = Some (available, False)" "pi_filled d + available < pi_minimum d"
proof -
  define e where "e = pi_element_size d"
  define m where "m = min available (pi_length d - pi_filled d)"
  define f where "f = pi_filled d + m"
  define a where "a = f - f mod e"
  have e: "0 < e" and mn: "pi_minimum d \<le> pi_length d" "pi_minimum d mod e = 0" using d by (auto simp: desc_ok_def e_def)
  have a: "a = f div e * e" by (simp add: a_def minus_mod_eq_div_mult)
  have le: "a \<le> f" "m \<le> available" "f \<le> pi_length d" using f mn by (auto simp: a_def f_def m_def)
  have plan: "fill_plan d available =
      (if pi_minimum d \<le> a then do { n \<leftarrow> usub a (pi_filled d); Some (n, True) } else Some (m, False))"
    using f mn by (simp add: fill_plan_def usub_def a_def f_def m_def e_def Let_def)
  show thesis
  proof (cases "pi_minimum d \<le> a")
    case True
    then have "pi_filled d < a" using f by simp
    then have "fill_plan d available = Some (a - pi_filled d, True)" using plan True by (simp add: usub_def)
    moreover have "a - pi_filled d \<le> available" using le by (auto simp: f_def)
    moreover have "a mod e = 0" by (simp add: a)
    moreover have "f = min (pi_length d) (pi_filled d + available)" using le(3) by (auto simp: f_def m_def min_def)
    then have "a = whole_elements d available" by (simp add: whole_elements_def a_def e_def Let_def)
    ultimately show thesis using True le \<open>pi_filled d < a\<close> by (intro ready [of "a - pi_filled d"]) (auto simp: e_def)
  next
    case False
    have "f < pi_minimum d"
    proof (rule ccontr)
      assume "\<not> ?thesis"
      then have "pi_minimum d div e * e \<le> f div e * e" by (simp add: div_le_mono)
      moreover have "pi_minimum d div e * e = pi_minimum d" using mn(2) by (metis add_0_right div_mult_mod_eq)
      ultimately show False using False a by simp
    qed
    moreover from this have "m = available" using mn(1) by (simp add: m_def f_def min_def split: if_splits)
    ultimately show thesis using False plan by (intro wait) (auto simp: f_def)
  qed
qed

subsection \<open>Copying from the queue\<close>

definition entry_bytes :: "buffers \<Rightarrow> queue_entry \<Rightarrow> u8 list" where
  "entry_bytes bs e = take (qe_length e) (drop (qe_offset e) (the (buffer_at bs (qe_buffer e))))"

definition queue_bytes :: "buffers \<Rightarrow> queue_entry list \<Rightarrow> u8 list" where
  "queue_bytes bs q = concat (map (entry_bytes bs) q)"

definition queue_size :: "queue_entry list \<Rightarrow> nat" where
  "queue_size q = sum_list (map qe_length q)"

text \<open>The entries of a queue that can be read while the buffer \<open>a\<close> is written.\<close>

definition readable_entry :: "buffers \<Rightarrow> nat \<Rightarrow> queue_entry \<Rightarrow> bool" where
  "readable_entry bs a e \<longleftrightarrow> qentry_ok bs e \<and> attached bs (qe_buffer e) \<and> qe_buffer e \<noteq> a"

lemma queue_simps [simp]:
  "queue_size [] = 0" "queue_size (e # q) = qe_length e + queue_size q" "queue_size (q @ r) = queue_size q + queue_size r"
  "queue_bytes bs [] = []" "queue_bytes bs (e # q) = entry_bytes bs e @ queue_bytes bs q"
  "queue_bytes bs (q @ r) = queue_bytes bs q @ queue_bytes bs r"
  by (simp_all add: queue_size_def queue_bytes_def)

lemma length_entry_bytes: "readable_entry bs a e \<Longrightarrow> length (entry_bytes bs e) = qe_length e"
  by (auto simp: readable_entry_def qentry_ok_def entry_bytes_def attached_def)

lemma length_queue_bytes: "\<forall>e \<in> set q. readable_entry bs a e \<Longrightarrow> length (queue_bytes bs q) = queue_size q"
  by (induction q) (auto simp: length_entry_bytes)

lemma entry_bytes_cong: "buffer_at bs' (qe_buffer e) = buffer_at bs (qe_buffer e) \<Longrightarrow> entry_bytes bs' e = entry_bytes bs e"
  by (simp add: entry_bytes_def)

lemma queue_bytes_cong:
  "\<forall>e \<in> set q. buffer_at bs' (qe_buffer e) = buffer_at bs (qe_buffer e) \<Longrightarrow> queue_bytes bs' q = queue_bytes bs q"
  by (induction q) (simp_all add: entry_bytes_def)

lemma readable_entry_write:
  "length ys = length xs \<Longrightarrow> buffer_at bs a = Some xs \<Longrightarrow> readable_entry bs a e \<Longrightarrow> readable_entry (bs[a := Some ys]) a e"
  by (auto simp: readable_entry_def qentry_ok_def buffer_at_update)

definition overwrite :: "nat \<Rightarrow> u8 list \<Rightarrow> u8 list \<Rightarrow> u8 list" where
  "overwrite i new xs = take i xs @ new @ drop (i + length new) xs"

lemma length_overwrite [simp]: "i + length new \<le> length xs \<Longrightarrow> length (overwrite i new xs) = length xs"
  by (simp add: overwrite_def)

lemma overwrite_overwrite: "i + length a + length b \<le> length xs \<Longrightarrow> overwrite (i + length a) b (overwrite i a xs) = overwrite i (a @ b) xs"
  by (auto simp: overwrite_def min_absorb2 ac_simps)

lemma overwrite_Nil [simp]: "overwrite i [] xs = xs"
  by (simp add: overwrite_def)

lemma copy_entry:
  assumes "buffer_at bs a = Some xs" "readable_entry bs a e" "i + n \<le> length xs" "n \<le> qe_length e"
  shows "copy_data_block_bytes a i (qe_buffer e) (qe_offset e) n bs = Some (Inr (bs[a := Some (overwrite i (take n (entry_bytes bs e)) xs)]))"
proof -
  obtain ys where ys: "buffer_at bs (qe_buffer e) = Some ys" using assms(2) by (auto simp: readable_entry_def attached_def)
  then have "qe_offset e + qe_length e \<le> length ys" using assms(2) by (simp add: readable_entry_def qentry_ok_def)
  moreover from this have "take n (entry_bytes bs e) = take n (drop (qe_offset e) ys)" "length (take n (entry_bytes bs e)) = n"
    using assms(4) ys by (auto simp: entry_bytes_def min_def)
  ultimately show ?thesis using copy_ok [OF assms(1) ys assms(3), of "qe_offset e"] assms(4) by (simp add: overwrite_def)
qed

lemma fill_loop_ok:
  assumes "buffer_at bs (pi_buffer d) = Some xs" "pi_offset d + pi_filled d + n \<le> length xs" "n \<le> queue_size q"
    "\<forall>e \<in> set q. readable_entry bs (pi_buffer d) e"
  shows "\<exists>q' k. fill_loop n \<lparr>fs_descriptor = d, fs_queue = q, fs_total = queue_size q, fs_buffers = bs\<rparr>
      = Some (Inr (), \<lparr>fs_descriptor = d\<lparr>pi_filled := pi_filled d + n\<rparr>, fs_queue = q', fs_total = queue_size q',
          fs_buffers = bs[pi_buffer d := Some (overwrite (pi_offset d + pi_filled d) (take n (queue_bytes bs q)) xs)]\<rparr>)
    \<and> queue_size q' + n = queue_size q \<and> map qe_buffer q' = drop k (map qe_buffer q) \<and> (\<forall>e \<in> set q'. qentry_ok bs e)
    \<and> queue_bytes bs q' = drop n (queue_bytes bs q)"
  using assms
proof (induction q arbitrary: n d xs bs)
  case Nil
  then have "bs[pi_buffer d := Some xs] = bs" by (auto simp: buffer_at_def split: if_splits intro: list_update_same_conv [THEN iffD2])
  then show ?case using Nil by (auto intro: exI [of _ "[]"])
next
  case (Cons e q)
  let ?a = "pi_buffer d" and ?i = "pi_offset d + pi_filled d"
  have e: "readable_entry bs ?a e" using Cons.prems(4) by simp
  then have le: "length (entry_bytes bs e) = qe_length e" by (rule length_entry_bytes)
  have same: "bs[?a := Some xs] = bs" using Cons.prems(1) by (auto simp: buffer_at_def split: if_splits intro: list_update_same_conv [THEN iffD2])
  show ?case
  proof (cases n)
    case 0
    then show ?thesis using Cons.prems(4) same by (intro exI [of _ "e # q"] exI [of _ 0]) (auto simp: readable_entry_def)
  next
    case (Suc n')
    show ?thesis
    proof (cases "qe_length e \<le> n")
      case True
      define bs1 where "bs1 = bs[?a := Some (overwrite ?i (entry_bytes bs e) xs)]"
      define d1 where "d1 = d\<lparr>pi_filled := pi_filled d + qe_length e\<rparr>"
      define n1 where "n1 = n - qe_length e"
      have cp: "copy_data_block_bytes ?a ?i (qe_buffer e) (qe_offset e) (qe_length e) bs = Some (Inr bs1)"
        using copy_entry [OF Cons.prems(1) e, of ?i "qe_length e"] Cons.prems(2) True le by (simp add: bs1_def)
      have xs1: "buffer_at bs1 (pi_buffer d1) = Some (overwrite ?i (entry_bytes bs e) xs)"
        using Cons.prems(1) by (auto simp: bs1_def d1_def buffer_at_update buffer_at_def split: if_splits)
      have len1: "length (overwrite ?i (entry_bytes bs e) xs) = length xs" using Cons.prems(2) True le by simp
      have "\<forall>e \<in> set q. readable_entry bs1 (pi_buffer d1) e"
        using Cons.prems(1,4) len1 by (auto simp: bs1_def d1_def intro: readable_entry_write)
      moreover have "pi_offset d1 + pi_filled d1 + n1 \<le> length (overwrite ?i (entry_bytes bs e) xs)" "n1 \<le> queue_size q"
        using Cons.prems(2,3) True len1 by (auto simp: d1_def n1_def)
      ultimately obtain q' k where ih: "fill_loop n1 \<lparr>fs_descriptor = d1, fs_queue = q, fs_total = queue_size q, fs_buffers = bs1\<rparr>
          = Some (Inr (), \<lparr>fs_descriptor = d1\<lparr>pi_filled := pi_filled d1 + n1\<rparr>, fs_queue = q', fs_total = queue_size q',
              fs_buffers = bs1[pi_buffer d1 := Some (overwrite (pi_offset d1 + pi_filled d1) (take n1 (queue_bytes bs1 q)) (overwrite ?i (entry_bytes bs e) xs))]\<rparr>)"
        "queue_size q' + n1 = queue_size q" "map qe_buffer q' = drop k (map qe_buffer q)" "\<forall>e \<in> set q'. qentry_ok bs1 e"
        "queue_bytes bs1 q' = drop n1 (queue_bytes bs1 q)" using Cons.IH [OF xs1] by blast
      have other: "buffer_at bs1 (qe_buffer e') = buffer_at bs (qe_buffer e')" if "e' \<in> set q \<or> e' \<in> set q'" for e'
      proof -
        have "qe_buffer ` set q' \<subseteq> qe_buffer ` set q" using ih(3) set_drop_subset [of k "map qe_buffer q"] by (metis list.set_map)
        then have "qe_buffer e' \<noteq> ?a" using that Cons.prems(4) by (auto simp: readable_entry_def)
        then show ?thesis by (simp add: bs1_def buffer_at_update)
      qed
      have qb: "queue_bytes bs1 q = queue_bytes bs q" "queue_bytes bs1 q' = queue_bytes bs q'"
        using other by (auto intro!: queue_bytes_cong)
      have "n1 \<le> length (queue_bytes bs q)" using Cons.prems(3,4) True length_queue_bytes [of q bs ?a] by (simp add: n1_def)
      then have sp: "overwrite (?i + qe_length e) (take n1 (queue_bytes bs q)) (overwrite ?i (entry_bytes bs e) xs)
          = overwrite ?i (take n (queue_bytes bs (e # q))) xs"
        using overwrite_overwrite [of ?i "entry_bytes bs e" "take n1 (queue_bytes bs q)" xs] le Cons.prems(2) True by (simp add: n1_def)
      have "\<forall>e \<in> set q'. qentry_ok bs e" using ih(4) other by (simp add: qentry_ok_def bs1_def)
      moreover have "map qe_buffer q' = drop (Suc k) (map qe_buffer (e # q))" using ih(3) by simp
      moreover have "fill_loop n \<lparr>fs_descriptor = d, fs_queue = e # q, fs_total = queue_size (e # q), fs_buffers = bs\<rparr>
        = fill_loop n1 \<lparr>fs_descriptor = d1, fs_queue = q, fs_total = queue_size q, fs_buffers = bs1\<rparr>"
        using Suc True cp by (auto simp: usub_def d1_def n1_def min_def Let_def)
      ultimately show ?thesis using ih(1,2,5) sp True qb le unfolding d1_def
        by (intro exI [of _ q'] exI [of _ "Suc k"]) (simp add: n1_def bs1_def add.assoc)
    next
      case False
      let ?e' = "e\<lparr>qe_offset := qe_offset e + n, qe_length := qe_length e - n\<rparr>"
      have cp: "copy_data_block_bytes ?a ?i (qe_buffer e) (qe_offset e) n bs = Some (Inr (bs[?a := Some (overwrite ?i (take n (entry_bytes bs e)) xs)]))"
        using copy_entry [OF Cons.prems(1) e, of ?i n] Cons.prems(2) False by simp
      have "entry_bytes bs ?e' = drop n (entry_bytes bs e)" "qentry_ok bs ?e'"
        using False e by (auto simp: entry_bytes_def qentry_ok_def readable_entry_def drop_take add.commute)
      moreover have "map qe_buffer (?e' # q) = drop 0 (map qe_buffer (e # q))" by simp
      moreover have "fill_loop n \<lparr>fs_descriptor = d, fs_queue = e # q, fs_total = queue_size (e # q), fs_buffers = bs\<rparr>
        = Some (Inr (), \<lparr>fs_descriptor = d\<lparr>pi_filled := pi_filled d + n\<rparr>, fs_queue = ?e' # q, fs_total = queue_size (?e' # q),
            fs_buffers = bs[?a := Some (overwrite ?i (take n (entry_bytes bs e)) xs)]\<rparr>)"
        using Suc False cp by (simp add: usub_def min_def Let_def)
      ultimately show ?thesis using False le Cons.prems(4)
        by (intro exI [of _ "?e' # q"] exI [of _ 0]) (auto simp: readable_entry_def)
    qed
  qed
qed

subsection \<open>The invariant\<close>

abbreviation bpending :: "bworld \<Rightarrow> pull_into list" where
  "bpending w \<equiv> bc_pending (b_controller w)"

abbreviation bqueue :: "bworld \<Rightarrow> queue_entry list" where
  "bqueue w \<equiv> bc_queue (b_controller w)"

text \<open>The buffers of the controller; those that user code can never reach.\<close>

definition owned :: "pull_into list \<Rightarrow> queue_entry list \<Rightarrow> nat list" where
  "owned ds q = map pi_buffer ds @ map qe_buffer q"

definition hidden :: "pull_into list \<Rightarrow> queue_entry list \<Rightarrow> nat list" where
  "hidden ds q = map pi_buffer (tl ds) @ map qe_buffer q"

definition balgs_ok :: "rs_state \<Rightarrow> 'a option \<Rightarrow> 'b option \<Rightarrow> nat option \<Rightarrow> bool" where
  "balgs_ok st pull cancel auto \<longleftrightarrow> (st = RsReadable \<longrightarrow> pull \<noteq> None \<and> cancel \<noteq> None) \<and> auto = None"

definition bqueue_ok :: "nat \<Rightarrow> queue_entry list \<Rightarrow> buffers \<Rightarrow> bool" where
  "bqueue_ok t q bs \<longleftrightarrow> t = queue_size q \<and> (\<forall>e \<in> set q. qentry_ok bs e)"

definition pending_ok :: "pull_into list \<Rightarrow> buffers \<Rightarrow> bool" where
  "pending_ok ds bs \<longleftrightarrow>
     (\<forall>d \<in> set ds. desc_ok bs d \<and> pi_filled d < pi_minimum d \<and> pi_reader d \<noteq> ReaderDefault)
   \<and> (\<forall>d \<in> set (tl ds). pi_reader d = ReaderByob)"

definition store_ok :: "pull_into list \<Rightarrow> queue_entry list \<Rightarrow> buffers \<Rightarrow> nat list \<Rightarrow> bool" where
  "store_ok ds q bs held \<longleftrightarrow> distinct (owned ds q)
   \<and> (\<forall>b \<in> set (hidden ds q). attached bs b \<and> b \<notin> set held)
   \<and> (\<forall>b \<in> set held. b < length bs)"

definition n_byob :: "pull_into list \<Rightarrow> nat" where
  "n_byob ds = length (filter (\<lambda>d. pi_reader d = ReaderByob) ds)"

definition n_into :: "nat option \<Rightarrow> (nat \<Rightarrow> breader) \<Rightarrow> nat" where
  "n_into rd rs = (case rd of None \<Rightarrow> 0 | Some i \<Rightarrow> if br_byob (rs i) then length (br_requests (rs i)) else 0)"

definition breaders_ok :: "nat option \<Rightarrow> (nat \<Rightarrow> breader) \<Rightarrow> nat \<Rightarrow> bool" where
  "breaders_ok rd rs next \<longleftrightarrow>
     (\<forall>j. br_attached (rs j) \<longleftrightarrow> rd = Some j) \<and> (\<forall>j. rd \<noteq> Some j \<longrightarrow> br_requests (rs j) = []) \<and> (\<forall>i. rd = Some i \<longrightarrow> i < next)"

definition brequest_ok :: "nat option \<Rightarrow> pull_into list \<Rightarrow> byob_request list \<Rightarrow> bool" where
  "brequest_ok current ds qs \<longleftrightarrow> (current \<noteq> None \<longrightarrow> ds \<noteq> [])
     \<and> (\<forall>q < length qs. bq_controller (qs ! q) \<longrightarrow> current = Some q)"

definition b_inv :: "nat \<Rightarrow> bworld \<Rightarrow> bool" where
  "b_inv k w \<longleftrightarrow>
     balgs_ok (rs_state (b_stream w)) (bc_pull_algorithm (b_controller w)) (bc_cancel_algorithm (b_controller w))
       (bc_auto_allocate (b_controller w))
   \<and> bqueue_ok (bc_total (b_controller w)) (bqueue w) (b_buffers w) \<and> pending_ok (bpending w) (b_buffers w)
   \<and> store_ok (bpending w) (bqueue w) (b_buffers w) (b_held w)
   \<and> n_into (rs_reader (b_stream w)) (b_readers w) = k + n_byob (bpending w)
   \<and> breaders_ok (rs_reader (b_stream w)) (b_readers w) (b_next_reader w)
   \<and> brequest_ok (bc_byob_request (b_controller w)) (bpending w) (b_byob_requests w)"

text \<open>A buffer in the hands of an operation that is running.\<close>

definition limbo :: "bworld \<Rightarrow> nat \<Rightarrow> bool" where
  "limbo w b \<longleftrightarrow> b < length (b_buffers w) \<and> b \<notin> set (b_held w) \<and> b \<notin> set (owned (bpending w) (bqueue w))"

definition bframe :: "bworld \<Rightarrow> bworld \<Rightarrow> bool" where
  "bframe w0 w \<longleftrightarrow>
     (bc_pulling (b_controller w0) \<longrightarrow> bc_pulling (b_controller w))
   \<and> (rs_state (b_stream w0) \<noteq> RsReadable \<longrightarrow> rs_state (b_stream w) \<noteq> RsReadable)
   \<and> b_next_reader w0 \<le> b_next_reader w
   \<and> (\<forall>j < b_next_reader w0. br_byob (b_readers w j) = br_byob (b_readers w0 j))
   \<and> length (b_buffers w0) \<le> length (b_buffers w)
   \<and> (\<forall>b. limbo w0 b \<longrightarrow> limbo w b \<and> buffer_at (b_buffers w) b = buffer_at (b_buffers w0) b)"

definition bfine :: "bworld \<Rightarrow> nat \<Rightarrow> bworld \<Rightarrow> bool" where
  "bfine w0 k w \<longleftrightarrow> b_inv k w \<and> bframe w0 w"

lemma bframe_refl [simp]: "bframe w w"
  by (simp add: bframe_def)

lemma bframe_trans: "bframe a b \<Longrightarrow> bframe b c \<Longrightarrow> bframe a c"
  unfolding bframe_def by auto

lemma bfine_refl [simp]: "bfine w k w = b_inv k w"
  by (simp add: bfine_def)

lemma bfine_trans: "bfine a k b \<Longrightarrow> bfine b l c \<Longrightarrow> bfine a l c"
  by (auto simp: bfine_def intro: bframe_trans)

lemma bfine_inv: "bfine w0 k w \<Longrightarrow> b_inv k w"
  by (simp add: bfine_def)

definition bgood :: "bworld \<Rightarrow> bworld option \<Rightarrow> bool" where
  "bgood w0 x \<longleftrightarrow> (\<exists>w. x = Some w \<and> bfine w0 0 w)"

definition bgood_result :: "bworld \<Rightarrow> ('a \<times> bworld) option \<Rightarrow> bool" where
  "bgood_result w0 x \<longleftrightarrow> (\<exists>r w. x = Some (r, w) \<and> bfine w0 0 w)"

lemma bgood_simps [simp]: "bgood w0 (Some w) = bfine w0 0 w" "bgood_result w0 (Some (r, w)) = bfine w0 0 w"
  by (auto simp: bgood_def bgood_result_def)

lemma bgoodE: "bgood w0 x \<Longrightarrow> (\<And>w. x = Some w \<Longrightarrow> bfine w0 0 w \<Longrightarrow> P) \<Longrightarrow> P"
  by (auto simp: bgood_def)

lemma bgood_resultE: "bgood_result w0 x \<Longrightarrow> (\<And>r w. x = Some (r, w) \<Longrightarrow> bfine w0 0 w \<Longrightarrow> P) \<Longrightarrow> P"
  by (auto simp: bgood_result_def)

lemma bgood_trans: "bfine a k b \<Longrightarrow> bgood b x \<Longrightarrow> bgood a x"
  by (auto simp: bgood_def intro: bfine_trans)

lemma bgood_result_trans: "bfine a k b \<Longrightarrow> bgood_result b x \<Longrightarrow> bgood_result a x"
  by (auto simp: bgood_result_def intro: bfine_trans)

text \<open>The rest of an operation after one that may throw.\<close>

lemma bgood_or_throw:
  assumes "bgood_result w0 x" "\<And>a w. x = Some (Inr a, w) \<Longrightarrow> bfine w0 0 w \<Longrightarrow> bgood_result w0 (f a w)"
  shows "bgood_result w0 (or_throw x f)"
proof -
  obtain r w where w: "x = Some (r, w)" "bfine w0 0 w" using assms(1) by (blast elim: bgood_resultE)
  then show ?thesis using assms(2) by (cases r) auto
qed

lemma binv_frame [simp]:
  "b_inv k (w\<lparr>b_promises := ps\<rparr>) = b_inv k w" "b_inv k (w\<lparr>b_reactions := rs\<rparr>) = b_inv k w"
  "b_inv k (w\<lparr>b_user_promises := us\<rparr>) = b_inv k w" "b_inv k (w\<lparr>b_stream := (b_stream w)\<lparr>rs_disturbed := x\<rparr>\<rparr>) = b_inv k w"
  "b_inv k (w\<lparr>b_controller := (b_controller w)\<lparr>bc_pull_again := x\<rparr>\<rparr>) = b_inv k w"
  "b_inv k (w\<lparr>b_controller := (b_controller w)\<lparr>bc_pulling := x\<rparr>\<rparr>) = b_inv k w"
  "b_inv k (w\<lparr>b_controller := (b_controller w)\<lparr>bc_started := x\<rparr>\<rparr>) = b_inv k w"
  "b_inv k (w\<lparr>b_controller := (b_controller w)\<lparr>bc_close_requested := x\<rparr>\<rparr>) = b_inv k w"
  by (simp_all add: b_inv_def)

lemma limbo_frame [simp]:
  "limbo (w\<lparr>b_promises := ps\<rparr>) = limbo w" "limbo (w\<lparr>b_reactions := rs\<rparr>) = limbo w"
  "limbo (w\<lparr>b_user_promises := us\<rparr>) = limbo w" "limbo (w\<lparr>b_stream := s\<rparr>) = limbo w"
  "limbo (w\<lparr>b_readers := r\<rparr>) = limbo w" "limbo (w\<lparr>b_byob_requests := qs\<rparr>) = limbo w"
  "bc_pending c = bpending w \<Longrightarrow> bc_queue c = bqueue w \<Longrightarrow> limbo (w\<lparr>b_controller := c\<rparr>) = limbo w"
  by (simp_all add: limbo_def fun_eq_iff)

lemma bframe_fields [simp]:
  "bframe w0 (w\<lparr>b_promises := ps\<rparr>) = bframe w0 w" "bframe w0 (w\<lparr>b_reactions := rs\<rparr>) = bframe w0 w"
  "bframe w0 (w\<lparr>b_user_promises := us\<rparr>) = bframe w0 w"
  "bframe w0 (w\<lparr>b_byob_requests := qs\<rparr>) = bframe w0 w"
  "rs_state s = rs_state (b_stream w) \<Longrightarrow> bframe w0 (w\<lparr>b_stream := s\<rparr>) = bframe w0 w"
  "bc_pending c = bpending w \<Longrightarrow> bc_queue c = bqueue w \<Longrightarrow> bc_pulling c = bc_pulling (b_controller w) \<Longrightarrow>
     bframe w0 (w\<lparr>b_controller := c\<rparr>) = bframe w0 w"
  by (simp_all add: bframe_def)

lemma bframe_readers [simp]:
  "\<forall>j. br_byob (r j) = br_byob (b_readers w j) \<Longrightarrow> bframe w0 (w\<lparr>b_readers := r\<rparr>) = bframe w0 w"
  by (simp add: bframe_def)

lemma bfine_fields [simp]:
  "bfine w0 k (w\<lparr>b_promises := ps\<rparr>) = bfine w0 k w" "bfine w0 k (w\<lparr>b_reactions := rs\<rparr>) = bfine w0 k w"
  "bfine w0 k (w\<lparr>b_user_promises := us\<rparr>) = bfine w0 k w"
  "bfine w0 k (w\<lparr>b_stream := (b_stream w)\<lparr>rs_disturbed := x\<rparr>\<rparr>) = bfine w0 k w"
  "bfine w0 k (w\<lparr>b_controller := (b_controller w)\<lparr>bc_pull_again := x\<rparr>\<rparr>) = bfine w0 k w"
  "bfine w0 k (w\<lparr>b_controller := (b_controller w)\<lparr>bc_close_requested := x\<rparr>\<rparr>) = bfine w0 k w"
  "bfine w0 k (w\<lparr>b_controller := (b_controller w)\<lparr>bc_started := x\<rparr>\<rparr>) = bfine w0 k w"
  by (simp_all add: bfine_def)

subsection \<open>Steps of operations\<close>

lemma limbo_old: "bframe w0 w \<Longrightarrow> \<not> limbo w b \<Longrightarrow> \<not> limbo w0 b"
  by (auto simp: bframe_def)

lemma limbo_new: "bframe w0 w \<Longrightarrow> length (b_buffers w) \<le> b \<Longrightarrow> \<not> limbo w0 b"
  by (auto simp: bframe_def limbo_def)

text \<open>Changing the buffers: the hidden ones stay attached, those of other operations are untouched.\<close>

lemma buffers_fine:
  assumes w: "bfine w0 k w" and s: "shrinks (b_buffers w) bs"
    and hid: "\<And>b. b \<in> set (hidden (bpending w) (bqueue w)) \<Longrightarrow> attached bs b"
    and same: "\<And>b. limbo w0 b \<Longrightarrow> buffer_at bs b = buffer_at (b_buffers w) b"
  shows "bfine w0 k (w\<lparr>b_buffers := bs\<rparr>)"
proof -
  let ?w = "w\<lparr>b_buffers := bs\<rparr>"
  have l: "length (b_buffers w) \<le> length bs" using s by (rule shrinks_length)
  have "bqueue_ok (bc_total (b_controller w)) (bqueue w) bs" using w s by (auto simp: bfine_def b_inv_def bqueue_ok_def intro: qentry_ok_shrinks)
  moreover have "pending_ok (bpending w) bs" using w s by (auto simp: bfine_def b_inv_def pending_ok_def intro: desc_ok_shrinks)
  moreover have "store_ok (bpending w) (bqueue w) bs (b_held w)" using w hid l by (fastforce simp: bfine_def b_inv_def store_ok_def)
  ultimately have "b_inv k ?w" using w by (simp add: bfine_def b_inv_def)
  moreover have "bframe w0 ?w" using w same l by (auto simp: bfine_def bframe_def limbo_def)
  ultimately show ?thesis by (simp add: bfine_def)
qed

lemma store_distinct: "b_inv k w \<Longrightarrow> distinct (owned (bpending w) (bqueue w))"
  by (simp add: b_inv_def store_ok_def)

lemma owned_less:
  assumes "b_inv k w" "b \<in> set (owned (bpending w) (bqueue w)) \<or> b \<in> set (b_held w)"
  shows "b < length (b_buffers w)"
  using assms by (auto simp: b_inv_def owned_def pending_ok_def desc_ok_def bqueue_ok_def qentry_ok_def store_ok_def)

lemma alloc_buffer_fine:
  assumes w: "bfine w0 k w"
  shows "bfine w0 k (w\<lparr>b_buffers := b_buffers w @ [Some xs]\<rparr>)" "limbo (w\<lparr>b_buffers := b_buffers w @ [Some xs]\<rparr>) (length (b_buffers w))"
proof -
  have h: "attached (b_buffers w) b" if "b \<in> set (hidden (bpending w) (bqueue w))" for b
    using w that by (simp add: bfine_def b_inv_def store_ok_def)
  have l: "limbo w0 b \<Longrightarrow> b < length (b_buffers w)" for b using w by (auto simp: bfine_def bframe_def limbo_def)
  show "bfine w0 k (w\<lparr>b_buffers := b_buffers w @ [Some xs]\<rparr>)"
    using h l by (intro buffers_fine [OF w]) (auto simp: buffer_at_append)
  show "limbo (w\<lparr>b_buffers := b_buffers w @ [Some xs]\<rparr>) (length (b_buffers w))"
    using owned_less [OF bfine_inv [OF w], of "length (b_buffers w)"] by (auto simp: limbo_def)
qed

lemma with_transfer_fine:
  assumes w: "bfine w0 k w" and b: "b \<notin> set (hidden (bpending w) (bqueue w))" "\<not> limbo w0 b"
  obtains (detached) "\<not> attached (b_buffers w) b" "with_transfer b w = Some (Inl detached_error, w)"
  | (attached) xs w' where "buffer_at (b_buffers w) b = Some xs" "with_transfer b w = Some (Inr (length (b_buffers w)), w')"
      "w' = w\<lparr>b_buffers := (b_buffers w)[b := None] @ [Some xs]\<rparr>" "bfine w0 k w'" "limbo w' (length (b_buffers w))"
proof (cases b "b_buffers w" rule: transfer_cases)
  case (attached xs)
  let ?w1 = "w\<lparr>b_buffers := (b_buffers w)[b := None]\<rparr>"
  have h: "attached (b_buffers w) c" if "c \<in> set (hidden (bpending w) (bqueue w))" for c
    using w that by (simp add: bfine_def b_inv_def store_ok_def)
  have "bfine w0 k ?w1" using h b by (intro buffers_fine [OF w]) (auto simp: buffer_at_update)
  from alloc_buffer_fine [OF this, of xs] attached that(2) show thesis by (simp add: with_transfer_def)
qed (use that(1) in \<open>simp add: with_transfer_def\<close>)

lemma invalidate_fields [simp]:
  "bpending (bc_invalidate w) = bpending w" "bqueue (bc_invalidate w) = bqueue w" "bc_total (b_controller (bc_invalidate w)) = bc_total (b_controller w)"
  "b_buffers (bc_invalidate w) = b_buffers w" "b_stream (bc_invalidate w) = b_stream w" "b_readers (bc_invalidate w) = b_readers w"
  "b_held (bc_invalidate w) = b_held w" "b_next_reader (bc_invalidate w) = b_next_reader w" "b_promises (bc_invalidate w) = b_promises w"
  "bc_pulling (b_controller (bc_invalidate w)) = bc_pulling (b_controller w)"
  "bc_auto_allocate (b_controller (bc_invalidate w)) = bc_auto_allocate (b_controller w)"
  "bc_pull_algorithm (b_controller (bc_invalidate w)) = bc_pull_algorithm (b_controller w)"
  "bc_cancel_algorithm (b_controller (bc_invalidate w)) = bc_cancel_algorithm (b_controller w)"
  "bc_byob_request (b_controller (bc_invalidate w)) = None"
  by (simp_all add: bc_invalidate_def split: option.split)

lemma limbo_invalidate [simp]: "limbo (bc_invalidate w) = limbo w"
  by (simp add: limbo_def fun_eq_iff)

lemma brequest_invalidate:
  "brequest_ok (bc_byob_request (b_controller w)) (bpending w) (b_byob_requests w) \<Longrightarrow> brequest_ok None ds (b_byob_requests (bc_invalidate w))"
  by (auto simp: brequest_ok_def bc_invalidate_def nth_update_if split: option.splits if_splits)

lemma invalidate_fine: "bfine w0 k w \<Longrightarrow> bfine w0 k (bc_invalidate w)"
  by (auto simp: bfine_def b_inv_def bframe_def intro: brequest_invalidate)

lemma shift_fine:
  assumes w: "bfine w0 k w" and p: "bpending w = d # ds"
  obtains w' where "bc_shift_pending w = Some (d, w')" "bpending w' = ds" "bqueue w' = bqueue w" "b_buffers w' = b_buffers w"
    "b_stream w' = b_stream w" "b_readers w' = b_readers w" "bc_total (b_controller w') = bc_total (b_controller w)" "b_held w' = b_held w"
    "b_promises w' = b_promises w"
    "bfine w0 ((if pi_reader d = ReaderByob then 1 else 0) + k) w'" "\<not> limbo w0 (pi_buffer d)" "pi_buffer d \<notin> set (hidden ds (bqueue w))"
    "desc_ok (b_buffers w') d"
proof -
  let ?w' = "upd_bc (\<lambda>c. c\<lparr>bc_pending := ds\<rparr>) (bc_invalidate w)"
  have i: "b_inv k w" using w by (rule bfine_inv)
  have "pending_ok ds (b_buffers w)" using i p by (cases ds) (auto simp: b_inv_def pending_ok_def)
  moreover have "store_ok ds (bqueue w) (b_buffers w) (b_held w)" using i p
    by (cases ds) (auto simp: b_inv_def store_ok_def owned_def hidden_def)
  moreover have "n_byob (d # ds) = (if pi_reader d = ReaderByob then 1 else 0) + n_byob ds" by (simp add: n_byob_def)
  ultimately have "b_inv ((if pi_reader d = ReaderByob then 1 else 0) + k) ?w'" using i p brequest_invalidate [of w ds] by (simp add: b_inv_def)
  moreover have "bframe w0 ?w'" using w p by (auto simp: bfine_def bframe_def limbo_def owned_def)
  moreover have "\<not> limbo w0 (pi_buffer d)" using w p by (intro limbo_old [of w0 w]) (auto simp: bfine_def limbo_def owned_def)
  moreover have "pi_buffer d \<notin> set (hidden ds (bqueue w))" using i p by (cases ds) (auto simp: b_inv_def store_ok_def owned_def hidden_def)
  moreover have "desc_ok (b_buffers w) d" using i p by (simp add: b_inv_def pending_ok_def)
  ultimately show thesis using that [of ?w'] p by (simp add: bc_shift_pending_def bfine_def Let_def)
qed

lemma enqueue_chunk_fine:
  assumes w: "bfine w0 k w" and b: "limbo w b" "\<not> limbo w0 b" "buffer_at (b_buffers w) b = Some xs" "off + n \<le> length xs"
  shows "bfine w0 k (bc_enqueue_chunk b off n w)"
proof -
  let ?e = "\<lparr>qe_buffer = b, qe_offset = off, qe_length = n\<rparr>"
  have "store_ok (bpending w) (bqueue w @ [?e]) (b_buffers w) (b_held w)" using w b
    by (auto simp: bfine_def b_inv_def store_ok_def owned_def hidden_def limbo_def attached_def)
  moreover have "bqueue_ok (bc_total (b_controller w) + n) (bqueue w @ [?e]) (b_buffers w)" using w b
    by (auto simp: bfine_def b_inv_def bqueue_ok_def qentry_ok_def limbo_def)
  moreover have "bframe w0 (bc_enqueue_chunk b off n w)" using w b(2)
    by (auto simp: bc_enqueue_chunk_def bfine_def bframe_def limbo_def owned_def)
  ultimately show ?thesis using w by (simp add: bfine_def b_inv_def bc_enqueue_chunk_def)
qed

lemma give_fine:
  assumes w: "bfine w0 k w" and b: "limbo w (av_buffer v)" "\<not> limbo w0 (av_buffer v)"
  shows "bfine w0 k (b_give rp v x w)"
proof -
  have "set (hidden (bpending w) (bqueue w)) \<subseteq> set (owned (bpending w) (bqueue w))" by (cases "bpending w") (auto simp: owned_def hidden_def)
  then have "store_ok (bpending w) (bqueue w) (b_buffers w) (av_buffer v # b_held w)" using w b
    by (auto simp: bfine_def b_inv_def store_ok_def limbo_def)
  moreover have "bframe w0 (w\<lparr>b_held := av_buffer v # b_held w\<rparr>)" using w b(2) by (auto simp: bfine_def bframe_def limbo_def)
  ultimately show ?thesis using w by (simp add: bfine_def b_inv_def b_give_def)
qed

lemma clone_fine:
  assumes w: "bfine w0 k w" and b: "buffer_at (b_buffers w) b = Some xs" "off + n \<le> length xs"
  obtains w' where "bc_enqueue_cloned_chunk b off n w = Some w'" "bfine w0 k w'"
    "w' = bc_enqueue_chunk (length (b_buffers w)) 0 n (w\<lparr>b_buffers := b_buffers w @ [Some (take n (drop off xs))]\<rparr>)"
proof -
  let ?w = "w\<lparr>b_buffers := b_buffers w @ [Some (take n (drop off xs))]\<rparr>"
  have a: "bfine w0 k ?w" "limbo ?w (length (b_buffers w))" using alloc_buffer_fine [OF w] by blast+
  have "\<not> limbo w0 (length (b_buffers w))" using w by (intro limbo_new [of w0 w]) (auto simp: bfine_def)
  then have "bfine w0 k (bc_enqueue_chunk (length (b_buffers w)) 0 n ?w)" using b(2)
    by (intro enqueue_chunk_fine [OF a]) (auto simp: buffer_at_append buffer_at_def)
  then show thesis using that b by (simp add: bc_enqueue_cloned_chunk_def slice_in)
qed

text \<open>Filling a descriptor whose buffer is neither that of an entry nor in the hands of another operation.\<close>

lemma fill_from_queue_fine:
  assumes w: "bfine w0 k w" and d: "desc_ok (b_buffers w) d" "pi_filled d < pi_minimum d" "buffer_at (b_buffers w) (pi_buffer d) = Some xs"
    "pi_buffer d \<notin> set (map qe_buffer (bqueue w))" "\<not> limbo w0 (pi_buffer d)"
  obtains n ready q' l bs where
    "fill_from_queue d w = Some (Inr ready, d\<lparr>pi_filled := pi_filled d + n\<rparr>,
       upd_bc (\<lambda>c. c\<lparr>bc_queue := q', bc_total := queue_size q'\<rparr>) (w\<lparr>b_buffers := bs\<rparr>))"
    "bfine w0 k (upd_bc (\<lambda>c. c\<lparr>bc_queue := q', bc_total := queue_size q'\<rparr>) (w\<lparr>b_buffers := bs\<rparr>))"
    "map qe_buffer q' = drop l (map qe_buffer (bqueue w))"
    "bs = (b_buffers w)[pi_buffer d := Some (overwrite (pi_offset d + pi_filled d) (take n (queue_bytes (b_buffers w) (bqueue w))) xs)]"
    "n \<le> queue_size (bqueue w)" "queue_size q' + n = queue_size (bqueue w)" "pi_filled d + n \<le> pi_length d"
    "queue_bytes (b_buffers w) q' = drop n (queue_bytes (b_buffers w) (bqueue w))"
    "ready \<longrightarrow> pi_minimum d \<le> pi_filled d + n \<and> pi_filled d + n = whole_elements d (queue_size (bqueue w))"
    "\<not> ready \<longrightarrow> pi_filled d + n < pi_minimum d \<and> queue_size q' = 0" "shrinks (b_buffers w) bs"
proof -
  let ?bs = "b_buffers w" and ?q = "bqueue w"
  have inv: "b_inv k w" using w by (rule bfine_inv)
  have t: "bc_total (b_controller w) = queue_size ?q" using inv by (simp add: b_inv_def bqueue_ok_def)
  have re: "\<forall>e \<in> set ?q. readable_entry ?bs (pi_buffer d) e"
    using inv d(4) by (force simp: b_inv_def bqueue_ok_def store_ok_def hidden_def readable_entry_def)
  obtain n ready where n: "fill_plan d (queue_size ?q) = Some (n, ready)" "n \<le> queue_size ?q" "pi_filled d + n \<le> pi_length d"
    "ready \<longrightarrow> pi_minimum d \<le> pi_filled d + n \<and> pi_filled d + n = whole_elements d (queue_size ?q)"
    "\<not> ready \<longrightarrow> pi_filled d + n < pi_minimum d \<and> n = queue_size ?q"
  proof (rule fill_plan_ok [OF d(1,2), of "queue_size ?q"])
    assume "fill_plan d (queue_size ?q) = Some (queue_size ?q, False)" "pi_filled d + queue_size ?q < pi_minimum d"
    then show thesis using that [of "queue_size ?q" False] d(1) by (simp add: desc_ok_def)
  qed (use that [of _ True] in simp)
  have xs: "length xs = pi_buffer_length d" using d(1,3) by (simp add: desc_ok_def)
  have rng: "pi_offset d + pi_filled d + n \<le> length xs" using n(3) d(1) xs by (simp add: desc_ok_def)
  obtain q' l where fl: "fill_loop n \<lparr>fs_descriptor = d, fs_queue = ?q, fs_total = queue_size ?q, fs_buffers = ?bs\<rparr>
      = Some (Inr (), \<lparr>fs_descriptor = d\<lparr>pi_filled := pi_filled d + n\<rparr>, fs_queue = q', fs_total = queue_size q',
          fs_buffers = ?bs[pi_buffer d := Some (overwrite (pi_offset d + pi_filled d) (take n (queue_bytes ?bs ?q)) xs)]\<rparr>)"
    "queue_size q' + n = queue_size ?q" "map qe_buffer q' = drop l (map qe_buffer ?q)" "\<forall>e \<in> set q'. qentry_ok ?bs e"
    "queue_bytes ?bs q' = drop n (queue_bytes ?bs ?q)"
    using fill_loop_ok [OF d(3) rng n(2) re] by blast
  define bs where "bs = ?bs[pi_buffer d := Some (overwrite (pi_offset d + pi_filled d) (take n (queue_bytes ?bs ?q)) xs)]"
  have "length (overwrite (pi_offset d + pi_filled d) (take n (queue_bytes ?bs ?q)) xs) = length xs"
    using rng n(2) length_queue_bytes [OF re] by simp
  then have sh: "shrinks ?bs bs" using d(3) shrinks_write by (simp add: bs_def)
  have at: "attached ?bs b \<Longrightarrow> attached bs b" for b by (simp add: bs_def)
  have f1: "bfine w0 k (w\<lparr>b_buffers := bs\<rparr>)" using inv d(5) at sh
    by (intro buffers_fine [OF w]) (auto simp: b_inv_def store_ok_def bs_def buffer_at_update)
  have sub: "set (map qe_buffer q') \<subseteq> set (map qe_buffer ?q)" using fl(3) set_drop_subset by metis
  have "distinct (map qe_buffer q')" using fl(3) inv by (simp add: b_inv_def store_ok_def owned_def distinct_drop)
  then have "store_ok (bpending w) q' bs (b_held w)" using bfine_inv [OF f1] sub
    by (auto simp: b_inv_def store_ok_def owned_def hidden_def)
  moreover have "bqueue_ok (queue_size q') q' bs" using fl(4) sh by (auto simp: bqueue_ok_def intro: qentry_ok_shrinks)
  moreover have "bframe w0 (upd_bc (\<lambda>c. c\<lparr>bc_queue := q', bc_total := queue_size q'\<rparr>) (w\<lparr>b_buffers := bs\<rparr>))"
    using f1 sub by (auto simp: bfine_def bframe_def limbo_def owned_def)
  ultimately have f2: "bfine w0 k (upd_bc (\<lambda>c. c\<lparr>bc_queue := q', bc_total := queue_size q'\<rparr>) (w\<lparr>b_buffers := bs\<rparr>))"
    using f1 by (simp add: bfine_def b_inv_def)
  have ff: "fill_from_queue d w = Some (Inr ready, d\<lparr>pi_filled := pi_filled d + n\<rparr>,
       upd_bc (\<lambda>c. c\<lparr>bc_queue := q', bc_total := queue_size q'\<rparr>) (w\<lparr>b_buffers := bs\<rparr>))"
    using n(1) fl(1) t by (simp add: fill_from_queue_def bs_def)
  have "\<not> ready \<longrightarrow> pi_filled d + n < pi_minimum d \<and> queue_size q' = 0" using n(5) fl(2) by auto
  then show thesis by (rule that [OF ff f2 fl(3) bs_def n(2) fl(2) n(3) fl(5) n(4) _ sh])
qed

text \<open>The view a finished descriptor gives.\<close>

definition filled_view :: "nat \<Rightarrow> nat \<Rightarrow> pull_into \<Rightarrow> array_view" where
  "filled_view b n d =
     \<lparr>av_kind = pi_constructor d, av_buffer = b, av_offset = (if pi_constructor d = DataView then 0 else pi_offset d),
      av_length = (if pi_constructor d = DataView then n else pi_filled d div pi_element_size d * pi_element_size d)\<rparr>"

lemma convert_fine:
  assumes w: "bfine w0 k w" and d: "desc_ok (b_buffers w) d" "pi_filled d \<le> pi_length d" "buffer_at (b_buffers w) (pi_buffer d) = Some xs"
    "pi_buffer d \<notin> set (hidden (bpending w) (bqueue w))" "\<not> limbo w0 (pi_buffer d)"
  obtains v w' where "convert_pull_into d w = Some (Inr v, w')" "w' = w\<lparr>b_buffers := (b_buffers w)[pi_buffer d := None] @ [Some xs]\<rparr>"
    "bfine w0 k w'" "limbo w' (av_buffer v)" "\<not> limbo w0 (av_buffer v)" "av_buffer v = length (b_buffers w)"
    "view_into_js v (b_buffers w') = Inr (filled_view (length (b_buffers w)) (length xs) d)"
    "v = \<lparr>av_kind = pi_constructor d, av_buffer = length (b_buffers w), av_offset = pi_offset d,
          av_length = pi_filled d div pi_element_size d * pi_element_size d\<rparr>"
proof (rule with_transfer_fine [OF w d(4,5)])
  assume "\<not> attached (b_buffers w) (pi_buffer d)"
  then show thesis using d(3) by (simp add: attached_def)
next
  fix ys w'
  assume attached: "buffer_at (b_buffers w) (pi_buffer d) = Some ys" "with_transfer (pi_buffer d) w = Some (Inr (length (b_buffers w)), w')"
    "w' = w\<lparr>b_buffers := (b_buffers w)[pi_buffer d := None] @ [Some ys]\<rparr>" "bfine w0 k w'" "limbo w' (length (b_buffers w))"
  let ?v = "\<lparr>av_kind = pi_constructor d, av_buffer = length (b_buffers w), av_offset = pi_offset d,
          av_length = pi_filled d div pi_element_size d * pi_element_size d\<rparr>"
  have ys: "ys = xs" using attached(1) d(3) by simp
  have at: "buffer_at (b_buffers w') (length (b_buffers w)) = Some xs" using attached(3) ys by (simp add: buffer_at_def nth_append)
  have "pi_filled d div pi_element_size d * pi_element_size d \<le> pi_length d" using d(2) div_times_less_eq_dividend le_trans by blast
  then have "construct_view (pi_constructor d) (length (b_buffers w)) (pi_offset d) (pi_filled d div pi_element_size d) (b_buffers w') = Inr ?v"
    using at d(1,2,3) by (auto simp: construct_view_def desc_ok_def)
  then have "convert_pull_into d w = Some (Inr ?v, w')" using attached(2) by (simp add: convert_pull_into_def)
  moreover have "\<not> limbo w0 (length (b_buffers w))" using w by (intro limbo_new [of w0 w]) (auto simp: bfine_def)
  moreover have "view_into_js ?v (b_buffers w') = Inr (filled_view (length (b_buffers w)) (length xs) d)"
    using at d(1) by (auto simp: view_into_js_def filled_view_def construct_view_def desc_ok_def)
  ultimately show thesis using that attached(3,4,5) ys by simp
qed

lemma commit_fine:
  assumes w: "bfine w0 (Suc k) w" and d: "desc_ok (b_buffers w) d" "pi_filled d \<le> pi_length d" "buffer_at (b_buffers w) (pi_buffer d) = Some xs"
    "pi_buffer d \<notin> set (hidden (bpending w) (bqueue w))" "\<not> limbo w0 (pi_buffer d)" "pi_reader d = ReaderByob"
  obtains i rp rps w' where "rs_reader (b_stream w) = Some i" "br_byob (b_readers w i)" "br_requests (b_readers w i) = rp # rps"
    "bc_commit (rs_reader (b_stream w)) d w = Some (Inr (), w')" "bfine w0 k w'"
    "w' = b_give rp (filled_view (length (b_buffers w)) (length xs) d) (rs_state (b_stream w) = RsClosed)
       (upd_breader i (\<lambda>r. r\<lparr>br_requests := rps\<rparr>) (w\<lparr>b_buffers := (b_buffers w)[pi_buffer d := None] @ [Some xs]\<rparr>))"
proof -
  obtain v w1 where v: "convert_pull_into d w = Some (Inr v, w1)" "w1 = w\<lparr>b_buffers := (b_buffers w)[pi_buffer d := None] @ [Some xs]\<rparr>"
    "bfine w0 (Suc k) w1" "limbo w1 (length (b_buffers w))" "\<not> limbo w0 (length (b_buffers w))"
    "view_into_js v (b_buffers w1) = Inr (filled_view (length (b_buffers w)) (length xs) d)"
    using convert_fine [OF w d(1-5)] by metis
  have i1: "b_inv (Suc k) w1" using v(3) by (rule bfine_inv)
  then obtain i rp rps where i: "rs_reader (b_stream w) = Some i" "br_byob (b_readers w i)" "br_requests (b_readers w i) = rp # rps"
    using v(2) by (cases "rs_reader (b_stream w)"; cases "br_requests (b_readers w (the (rs_reader (b_stream w))))")
      (auto simp: b_inv_def n_into_def split: if_splits)
  let ?w2 = "upd_breader i (\<lambda>r. r\<lparr>br_requests := rps\<rparr>) w1"
  have "b_inv k ?w2" using i1 i v(2) by (auto simp: b_inv_def n_into_def breaders_ok_def)
  then have f2: "bfine w0 k ?w2" using v(3) by (simp add: bfine_def)
  let ?w3 = "b_give rp (filled_view (length (b_buffers w)) (length xs) d) (rs_state (b_stream w) = RsClosed) ?w2"
  have "bfine w0 k ?w3" using v(4,5) by (intro give_fine [OF f2]) (simp_all add: filled_view_def)
  moreover have "bc_commit (rs_reader (b_stream w)) d w = Some (Inr (), ?w3)"
    using v(1,6) i d(6) by (simp add: bc_commit_def v(2) b_fulfill_read_into_request_def Let_def)
  ultimately show thesis using that i v(2) by simp
qed

lemma shift_set_head:
  "bc_shift_pending (upd_bc (\<lambda>c. c\<lparr>bc_pending := d # ds\<rparr>) w) = Some (d, upd_bc (\<lambda>c. c\<lparr>bc_pending := ds\<rparr>) (bc_invalidate w))"
  by (simp add: bc_shift_pending_def bc_invalidate_def Let_def split: option.split)

definition ready_pending :: "bworld \<Rightarrow> bool" where
  "ready_pending w \<longleftrightarrow> (\<forall>d \<in> set (bpending w). attached (b_buffers w) (pi_buffer d) \<and> pi_reader d = ReaderByob)"

text \<open>One round of the loop over pending descriptors.  Either the queue is used up, or the first descriptor is
  answered: the view given has the buffer \<open>b\<close> with the bytes from the front of the queue.\<close>

lemma process_round:
  assumes w: "bfine w0 0 w" and ready: "ready_pending w" and p: "bpending w = d # ds" and t: "bc_total (b_controller w) \<noteq> 0"
  defines "bytes \<equiv> queue_bytes (b_buffers w) (bqueue w)"
  obtains (wait) w' where "bc_process_pull_intos (rs_reader (b_stream w)) w = Some (Inr (), w')" "bfine w0 0 w'"
      "bpending w' = d\<lparr>pi_filled := pi_filled d + length bytes\<rparr> # ds" "bc_total (b_controller w') = 0"
      "b_held w' = b_held w" "b_readers w' = b_readers w" "pi_filled d + length bytes < pi_minimum d" "b_stream w' = b_stream w"
      "\<forall>c. c \<noteq> pi_buffer d \<longrightarrow> buffer_at (b_buffers w') c = buffer_at (b_buffers w) c"
      "\<exists>xs. buffer_at (b_buffers w) (pi_buffer d) = Some xs
        \<and> buffer_at (b_buffers w') (pi_buffer d) = Some (overwrite (pi_offset d + pi_filled d) bytes xs)"
  | (serve) w' n b i xs where "bc_process_pull_intos (rs_reader (b_stream w)) w = bc_process_pull_intos (rs_reader (b_stream w')) w'"
      "bfine w0 0 w'" "ready_pending w'" "bpending w' = ds" "pi_minimum d \<le> pi_filled d + n" "n \<le> length bytes"
      "pi_filled d + n = whole_elements d (length bytes)" "b = length (b_buffers w)" "b_held w' = b # b_held w"
      "buffer_at (b_buffers w) (pi_buffer d) = Some xs" "buffer_at (b_buffers w') b = Some (overwrite (pi_offset d + pi_filled d) (take n bytes) xs)"
      "queue_bytes (b_buffers w') (bqueue w') = drop n bytes" "\<forall>c. c \<noteq> pi_buffer d \<and> c \<noteq> b \<longrightarrow> buffer_at (b_buffers w') c = buffer_at (b_buffers w) c"
      "b_stream w' = b_stream w" "rs_reader (b_stream w) = Some i" "br_requests (b_readers w' i) = tl (br_requests (b_readers w i))" "length (b_buffers w') = Suc b"
proof -
  have inv: "b_inv 0 w" using w by (rule bfine_inv)
  obtain xs where xs: "buffer_at (b_buffers w) (pi_buffer d) = Some xs" using ready p by (auto simp: ready_pending_def attached_def)
  have d: "desc_ok (b_buffers w) d" "pi_filled d < pi_minimum d" "pi_reader d = ReaderByob"
    using inv p ready by (auto simp: b_inv_def pending_ok_def ready_pending_def)
  have nl: "\<not> limbo w0 (pi_buffer d)" using w p by (intro limbo_old [of w0 w]) (auto simp: bfine_def limbo_def owned_def)
  have "distinct (pi_buffer d # map pi_buffer ds @ map qe_buffer (bqueue w))" using store_distinct [OF inv] p by (simp add: owned_def)
  then have nq: "pi_buffer d \<notin> set (map qe_buffer (bqueue w))" "\<forall>d' \<in> set ds. pi_buffer d' \<noteq> pi_buffer d"
    by (simp_all add: image_iff eq_commute)
  have re: "\<forall>e \<in> set (bqueue w). readable_entry (b_buffers w) (pi_buffer d) e"
    using inv nq(1) by (force simp: b_inv_def bqueue_ok_def store_ok_def hidden_def readable_entry_def)
  have lb: "length bytes = queue_size (bqueue w)" using length_queue_bytes [OF re] by (simp add: bytes_def)
  obtain n full q' l bs where f: "fill_from_queue d w = Some (Inr full, d\<lparr>pi_filled := pi_filled d + n\<rparr>,
      upd_bc (\<lambda>c. c\<lparr>bc_queue := q', bc_total := queue_size q'\<rparr>) (w\<lparr>b_buffers := bs\<rparr>))"
    "bfine w0 0 (upd_bc (\<lambda>c. c\<lparr>bc_queue := q', bc_total := queue_size q'\<rparr>) (w\<lparr>b_buffers := bs\<rparr>))"
    "map qe_buffer q' = drop l (map qe_buffer (bqueue w))"
    "bs = (b_buffers w)[pi_buffer d := Some (overwrite (pi_offset d + pi_filled d) (take n bytes) xs)]"
    "n \<le> queue_size (bqueue w)" "queue_size q' + n = queue_size (bqueue w)" "pi_filled d + n \<le> pi_length d"
    "queue_bytes (b_buffers w) q' = drop n bytes"
    "full \<longrightarrow> pi_minimum d \<le> pi_filled d + n \<and> pi_filled d + n = whole_elements d (queue_size (bqueue w))"
    "\<not> full \<longrightarrow> pi_filled d + n < pi_minimum d \<and> queue_size q' = 0"
    using fill_from_queue_fine [OF w d(1,2) xs nq(1) nl] unfolding bytes_def by metis
  define d1 where "d1 = d\<lparr>pi_filled := pi_filled d + n\<rparr>"
  define w1 where "w1 = upd_bc (\<lambda>c. c\<lparr>bc_pending := d1 # ds, bc_queue := q', bc_total := queue_size q'\<rparr>) (w\<lparr>b_buffers := bs\<rparr>)"
  have head: "fill_head_from_queue w = Some (Inr full, w1)" using f(1) p by (simp add: fill_head_from_queue_def index_def w1_def d1_def)
  have lt: "pi_buffer d < length (b_buffers w)" using xs by (simp add: buffer_at_def split: if_splits)
  show thesis
  proof (cases full)
    case False
    have "pending_ok (d1 # ds) bs" using bfine_inv [OF f(2)] p f(10) False by (auto simp: b_inv_def pending_ok_def d1_def desc_ok_def)
    then have "bfine w0 0 w1" using f(2) p
      by (simp add: bfine_def b_inv_def w1_def d1_def store_ok_def owned_def hidden_def n_byob_def brequest_ok_def bframe_def limbo_def)
    moreover have "bc_process_pull_intos (rs_reader (b_stream w)) w = Some (Inr (), w1)" using head False f(10) t p
      by (subst bc_process_pull_intos.simps, simp) (simp add: bc_process_pull_intos.simps w1_def)
    moreover have "n = length bytes" using f(6,10) False lb by simp
    ultimately show thesis using False f(10) lt xs by (intro wait [of w1]) (simp_all add: w1_def d1_def f(4) buffer_at_update)
  next
    case True
    define wf where "wf = upd_bc (\<lambda>c. c\<lparr>bc_queue := q', bc_total := queue_size q'\<rparr>) (w\<lparr>b_buffers := bs\<rparr>)"
    have "bfine w0 0 wf" "bpending wf = d # ds" using f(2) p by (simp_all add: wf_def)
    then obtain w2 where sh: "bc_shift_pending wf = Some (d, w2)" and w2: "bpending w2 = ds" "bqueue w2 = bqueue wf" "b_buffers w2 = b_buffers wf"
      "b_stream w2 = b_stream wf" "b_readers w2 = b_readers wf" "b_held w2 = b_held wf"
      "bfine w0 ((if pi_reader d = ReaderByob then 1 else 0) + 0) w2" "\<not> limbo w0 (pi_buffer d)"
      "pi_buffer d \<notin> set (hidden ds (bqueue wf))" "desc_ok (b_buffers w2) d"
      by (rule shift_fine)
    have w1: "w1 = upd_bc (\<lambda>c. c\<lparr>bc_pending := d1 # ds\<rparr>) wf" by (simp add: w1_def wf_def)
    have sh1: "bc_shift_pending w1 = Some (d1, w2)"
      using sh \<open>bpending wf = d # ds\<close> unfolding w1 shift_set_head by (simp add: bc_shift_pending_def Let_def)
    have d1: "desc_ok (b_buffers w2) d1" "pi_filled d1 \<le> pi_length d1" "pi_buffer d1 = pi_buffer d" "pi_reader d1 = ReaderByob"
      using w2(10) f(7) d(3) by (auto simp: d1_def desc_ok_def)
    let ?ys = "overwrite (pi_offset d + pi_filled d) (take n bytes) xs"
    have at: "buffer_at (b_buffers w2) (pi_buffer d1) = Some ?ys" using w2(3) lt d1(3) by (simp add: wf_def f(4) buffer_at_update)
    have f2: "bfine w0 (Suc 0) w2" using w2(7) d(3) by simp
    have hid: "pi_buffer d1 \<notin> set (hidden (bpending w2) (bqueue w2))" "\<not> limbo w0 (pi_buffer d1)" using w2(1,2,8,9) d1(3) by simp_all
    obtain i rp rps w3 where c: "rs_reader (b_stream w2) = Some i" "br_requests (b_readers w2 i) = rp # rps"
      "bc_commit (rs_reader (b_stream w2)) d1 w2 = Some (Inr (), w3)" "bfine w0 0 w3"
      "w3 = b_give rp (filled_view (length (b_buffers w2)) (length ?ys) d1) (rs_state (b_stream w2) = RsClosed)
         (upd_breader i (\<lambda>r. r\<lparr>br_requests := rps\<rparr>) (w2\<lparr>b_buffers := (b_buffers w2)[pi_buffer d1 := None] @ [Some ?ys]\<rparr>))"
      by (rule commit_fine [OF f2 d1(1,2) at hid d1(4)])
    have p3: "bpending w3 = ds" "b_stream w3 = b_stream w" "b_held w3 = length (b_buffers w) # b_held w" "bqueue w3 = q'"
      "b_buffers w3 = (b_buffers w)[pi_buffer d := None] @ [Some ?ys]"
      using c(5) w2(1-4,6) d1(3) by (simp_all add: b_give_def wf_def filled_view_def f(4))
    have rdy: "ready_pending w3" using ready p nq(2) p3(1,5) by (auto simp: ready_pending_def dest: attached_less)
    have round_eq: "bc_process_pull_intos (rs_reader (b_stream w)) w = bc_process_pull_intos (rs_reader (b_stream w3)) w3"
      using head True sh1 c(3) t p w2(4) p3(2) by (subst bc_process_pull_intos.simps) (simp add: wf_def)
    have sub: "set (map qe_buffer q') \<subseteq> set (map qe_buffer (bqueue w))" using f(3) set_drop_subset by metis
    have qlt: "c < length (b_buffers w) \<and> c \<noteq> pi_buffer d" if "c \<in> set (map qe_buffer q')" for c
    proof -
      have c: "c \<in> set (map qe_buffer (bqueue w))" using sub that by blast
      then have "c \<in> set (owned (bpending w) (bqueue w))" by (simp add: owned_def)
      then show ?thesis using nq(1) c owned_less [OF inv] by blast
    qed
    have "queue_bytes (b_buffers w3) q' = queue_bytes (b_buffers w) q'"
      using qlt by (intro queue_bytes_cong) (auto simp: p3(5) buffer_at_append buffer_at_update)
    then have qb: "queue_bytes (b_buffers w3) (bqueue w3) = drop n bytes" using f(8) p3(4) by simp
    show thesis
      by (rule serve [OF round_eq c(4) rdy p3(1) _ _ _ refl p3(3) xs _ qb])
        (use True f(5,9) lb lt c(1,2,5) w2(4,5) p3(2,5) in \<open>auto simp: buffer_at_append buffer_at_update buffer_at_def nth_append b_give_def wf_def\<close>)
  qed
qed

lemma process_pull_intos_fine:
  assumes "bfine w0 0 w" "ready_pending w"
  shows "\<exists>w'. bc_process_pull_intos (rs_reader (b_stream w)) w = Some (Inr (), w') \<and> bfine w0 0 w'"
  using assms
proof (induction "length (bpending w)" arbitrary: w rule: less_induct)
  case less
  show ?case
  proof (cases "bpending w = [] \<or> bc_total (b_controller w) = 0")
    case True
    then show ?thesis using less.prems(1) by (auto simp: bc_process_pull_intos.simps)
  next
    case False
    then obtain d ds where p: "bpending w = d # ds" by (cases "bpending w") auto
    show ?thesis
    proof (rule process_round [OF less.prems p])
      fix w'
      assume "bc_process_pull_intos (rs_reader (b_stream w)) w = bc_process_pull_intos (rs_reader (b_stream w')) w'"
        "bfine w0 0 w'" "ready_pending w'" "bpending w' = ds"
      then show ?thesis using less.hyps [of w'] p by simp
    qed (use False in auto)
  qed
qed

text \<open>Answering all requests of a closed stream.\<close>

lemma commit_all_fine:
  assumes "bfine w0 0 w" "ready_pending w" "rs_reader (b_stream w) = Some i" "br_byob (b_readers w i)"
  shows "\<exists>w'. bc_commit_all i w = Some (Inr (), w') \<and> bfine w0 0 w'"
  using assms
proof (induction "length (bpending w)" arbitrary: w rule: less_induct)
  case less
  note w = less.prems(1)
  have inv: "b_inv 0 w" using w by (rule bfine_inv)
  have all: "n_byob (bpending w) = length (bpending w)" using less.prems(2) by (simp add: n_byob_def ready_pending_def)
  show ?case
  proof (cases "bpending w")
    case Nil
    then have "b_num_requests (Some i) w = 0" using inv less.prems(3,4) by (simp add: b_inv_def n_into_def n_byob_def b_num_requests_def)
    then show ?thesis using w by (simp add: bc_commit_all.simps)
  next
    case (Cons d ds)
    have r: "b_num_requests (Some i) w \<noteq> 0" using inv less.prems(3,4) all Cons by (simp add: b_inv_def n_into_def b_num_requests_def)
    obtain w1 where sh: "bc_shift_pending w = Some (d, w1)" and w1: "bpending w1 = ds" "bqueue w1 = bqueue w" "b_buffers w1 = b_buffers w"
      "b_stream w1 = b_stream w" "b_readers w1 = b_readers w" "bfine w0 ((if pi_reader d = ReaderByob then 1 else 0) + 0) w1" "\<not> limbo w0 (pi_buffer d)"
      "pi_buffer d \<notin> set (hidden ds (bqueue w))" "desc_ok (b_buffers w1) d"
      by (rule shift_fine [OF w Cons])
    have d: "pi_reader d = ReaderByob" "pi_filled d \<le> pi_length d" "buffer_at (b_buffers w1) (pi_buffer d) \<noteq> None"
      using inv Cons less.prems(2) w1(3) by (auto simp: b_inv_def pending_ok_def desc_ok_def ready_pending_def attached_def)
    then obtain xs where xs: "buffer_at (b_buffers w1) (pi_buffer d) = Some xs" by blast
    have f1: "bfine w0 (Suc 0) w1" using w1(6) d(1) by simp
    obtain j rp rps w2 where c: "bc_commit (rs_reader (b_stream w1)) d w1 = Some (Inr (), w2)" "bfine w0 0 w2"
      "w2 = b_give rp (filled_view (length (b_buffers w1)) (length xs) d) (rs_state (b_stream w1) = RsClosed)
         (upd_breader j (\<lambda>r. r\<lparr>br_requests := rps\<rparr>) (w1\<lparr>b_buffers := (b_buffers w1)[pi_buffer d := None] @ [Some xs]\<rparr>))"
      using commit_fine [OF f1 w1(9) d(2) xs _ w1(7) d(1)] w1(1,2,8) by metis
    have "distinct (pi_buffer d # map pi_buffer ds @ map qe_buffer (bqueue w))" using store_distinct [OF inv] Cons by (simp add: owned_def)
    then have "\<forall>d' \<in> set ds. pi_buffer d' \<noteq> pi_buffer d" by (simp add: image_iff eq_commute)
    then have "ready_pending w2" using less.prems(2) Cons w1(1,3)
      by (auto simp: ready_pending_def c(3) b_give_def dest: attached_less)
    moreover have "rs_reader (b_stream w2) = Some i" "br_byob (b_readers w2 i)" "length (bpending w2) < length (bpending w)"
      using less.prems(3,4) w1(1,4,5) Cons by (auto simp: c(3) b_give_def)
    ultimately obtain w3 where "bc_commit_all i w2 = Some (Inr (), w3)" "bfine w0 0 w3" using less.hyps [OF _ c(2)] by blast
    then show ?thesis using r sh c(1) less.prems(3) w1(4) by (subst bc_commit_all.simps) simp
  qed
qed

text \<open>A new buffer for the first pending descriptor: afterwards all pending buffers are attached.\<close>

lemma set_first_buffer_fine:
  assumes w: "bfine w0 k w" and p: "bpending w = d # ds" and b: "limbo w b" "\<not> limbo w0 b"
    "buffer_at (b_buffers w) b = Some xs" "length xs = pi_buffer_length d"
  shows "bfine w0 k (upd_bc (\<lambda>c. c\<lparr>bc_pending := d\<lparr>pi_buffer := b\<rparr> # ds\<rparr>) w)"
proof -
  let ?d = "d\<lparr>pi_buffer := b\<rparr>"
  have inv: "b_inv k w" using w by (rule bfine_inv)
  have "pending_ok (?d # ds) (b_buffers w)" using inv p b by (auto simp: b_inv_def pending_ok_def desc_ok_def limbo_def)
  moreover have "store_ok (?d # ds) (bqueue w) (b_buffers w) (b_held w)" using inv p b
    by (auto simp: b_inv_def store_ok_def owned_def hidden_def limbo_def)
  moreover have "bframe w0 (upd_bc (\<lambda>c. c\<lparr>bc_pending := ?d # ds\<rparr>) w)" using w b(2) p
    by (auto simp: bfine_def bframe_def limbo_def owned_def)
  ultimately show ?thesis using inv p by (simp add: bfine_def b_inv_def n_byob_def brequest_ok_def)
qed

lemma ready_pendingI:
  assumes "b_inv k w" "bpending w = d # ds" "attached (b_buffers w) (pi_buffer d)" "pi_reader d = ReaderByob"
  shows "ready_pending w"
  using assms by (auto simp: ready_pending_def b_inv_def pending_ok_def store_ok_def hidden_def)

lemma enqueue_detached_fine:
  assumes w: "bfine w0 k w" and p: "bpending w = d # ds" and d: "pi_reader d = ReaderNone" "buffer_at (b_buffers w) (pi_buffer d) = Some xs"
    and f: "pi_offset d + f \<le> length xs"
  obtains w' where "bc_enqueue_detached_pull_into (upd_bc (\<lambda>c. c\<lparr>bc_pending := d\<lparr>pi_filled := f\<rparr> # ds\<rparr>) w) = Some w'"
    "bfine w0 k w'" "bpending w' = ds" "b_stream w' = b_stream w" "ready_pending w'"
proof -
  let ?h = "upd_bc (\<lambda>c. c\<lparr>bc_pending := d\<lparr>pi_filled := f\<rparr> # ds\<rparr>)"
  obtain wc where wc: "bc_enqueue_cloned_chunk (pi_buffer d) (pi_offset d) f w = Some wc" "bfine w0 k wc"
    "wc = bc_enqueue_chunk (length (b_buffers w)) 0 f (w\<lparr>b_buffers := b_buffers w @ [Some (take f (drop (pi_offset d) xs))]\<rparr>)"
    by (rule clone_fine [OF w d(2) f])
  have "bc_enqueue_cloned_chunk (pi_buffer d) (pi_offset d) f (?h w) = Some (?h wc)"
    using d(2) f by (simp add: bc_enqueue_cloned_chunk_def slice_in wc(3) bc_enqueue_chunk_def)
  then obtain w1 where w1: "(if f > 0 then bc_enqueue_cloned_chunk (pi_buffer d) (pi_offset d) f (?h w) else Some (?h w)) = Some (?h w1)"
    "bfine w0 k w1" "bpending w1 = d # ds" "b_stream w1 = b_stream w"
  proof (cases "f > 0")
    case True
    then show thesis using that [of wc] \<open>bc_enqueue_cloned_chunk _ _ _ (?h w) = _\<close> wc(2) p by (simp add: wc(3) bc_enqueue_chunk_def)
  qed (use that [of w] w p in simp)
  obtain w2 where w2: "bc_shift_pending w1 = Some (d, w2)" "bpending w2 = ds" "b_stream w2 = b_stream w1"
    "bfine w0 ((if pi_reader d = ReaderByob then 1 else 0) + k) w2" "b_buffers w2 = b_buffers w1"
    using shift_fine [OF w1(2,3)] by metis
  have sh: "bc_shift_pending (?h w1) = Some (d\<lparr>pi_filled := f\<rparr>, w2)"
    using w2(1) w1(3) unfolding shift_set_head by (simp add: bc_shift_pending_def Let_def)
  have f2: "bfine w0 k w2" using w2(4) d(1) by simp
  have "attached (b_buffers w2) (pi_buffer d') \<and> pi_reader d' = ReaderByob" if "d' \<in> set (bpending w2)" for d'
    using that bfine_inv [OF w1(2)] w2(2,5) w1(3) by (auto simp: b_inv_def pending_ok_def store_ok_def hidden_def)
  then have "ready_pending w2" by (simp add: ready_pending_def)
  then show thesis using that w1(1,4) w2 f2 sh by (simp add: bc_enqueue_detached_pull_into_def index_def cong: if_cong)
qed

lemma detach_first_fine:
  assumes w: "b_inv 0 w"
  obtains r w' where "detach_first_pending w = Some (r, w')" "bfine w 0 w'" "b_stream w' = b_stream w" "r = Inr () \<longrightarrow> ready_pending w'"
proof (cases "bpending w")
  case Nil
  then show thesis using that [of "Inr ()" w] w by (simp add: detach_first_pending_def ready_pending_def)
next
  case (Cons d ds)
  show thesis
  proof (cases "buffer_at (b_buffers w) (pi_buffer d)")
    case None
    then show thesis using that [of "Inl _" w] w Cons by (simp add: detach_first_pending_def)
  next
    case (Some xs)
    let ?w1 = "bc_invalidate w"
    have f1: "bfine w 0 ?w1" "bpending ?w1 = d # ds" "buffer_at (b_buffers ?w1) (pi_buffer d) = Some xs"
      using invalidate_fine [of w 0 w] w Cons Some by simp_all
    have "pi_buffer d \<notin> set (hidden (bpending ?w1) (bqueue ?w1))" "\<not> limbo w (pi_buffer d)"
      using store_distinct [OF w] Cons by (auto simp: owned_def hidden_def limbo_def)
    then show thesis
    proof (rule with_transfer_fine [OF f1(1)])
      assume "\<not> attached (b_buffers ?w1) (pi_buffer d)"
      then show thesis using f1(3) by (simp add: attached_def)
    next
      fix ys w2
      assume a: "buffer_at (b_buffers ?w1) (pi_buffer d) = Some ys" "with_transfer (pi_buffer d) ?w1 = Some (Inr (length (b_buffers ?w1)), w2)"
        "w2 = ?w1\<lparr>b_buffers := (b_buffers ?w1)[pi_buffer d := None] @ [Some ys]\<rparr>" "bfine w 0 w2" "limbo w2 (length (b_buffers ?w1))"
      let ?b = "length (b_buffers w)" and ?d = "d\<lparr>pi_buffer := length (b_buffers w)\<rparr>"
      let ?w3 = "upd_bc (\<lambda>c. c\<lparr>bc_pending := ?d # ds\<rparr>) w2"
      have p2: "bpending w2 = d # ds" "buffer_at (b_buffers w2) ?b = Some xs" "b_stream w2 = b_stream w"
        using a(1,3) f1(2,3) Some by (auto simp: buffer_at_def nth_append)
      have "length xs = pi_buffer_length d" using w Cons Some by (simp add: b_inv_def pending_ok_def desc_ok_def)
      then have f3: "bfine w 0 ?w3" using a(4,5) p2 by (intro set_first_buffer_fine) (auto simp: limbo_def)
      have eq: "detach_first_pending w = (if pi_reader d = ReaderNone
          then do { w3 \<leftarrow> bc_enqueue_detached_pull_into ?w3; Some (Inr (), w3) } else Some (Inr (), ?w3))"
        using Cons Some a(2) p2(1) by (simp add: detach_first_pending_def)
      show thesis
      proof (cases "pi_reader d = ReaderNone")
        case True
        obtain w4 where "bc_enqueue_detached_pull_into ?w3 = Some w4" "bfine w 0 w4" "b_stream w4 = b_stream ?w3" "ready_pending w4"
        proof (rule enqueue_detached_fine [OF f3, of ?d ds xs "pi_filled d"])
          show "pi_offset ?d + pi_filled d \<le> length xs" using w Cons Some by (auto simp: b_inv_def pending_ok_def desc_ok_def)
        qed (use True p2(2) that in auto)
        then show thesis using that [of "Inr ()" w4] eq True p2(3) by simp
      next
        case False
        then have "pi_reader d = ReaderByob" using w Cons by (cases "pi_reader d") (auto simp: b_inv_def pending_ok_def)
        then have "ready_pending ?w3" using p2(2) by (intro ready_pendingI [OF bfine_inv [OF f3], of ?d ds]) (auto simp: attached_def)
        then show thesis using that [of "Inr ()" ?w3] eq False f3 p2(3) by simp
      qed
    qed
  qed
qed

subsection \<open>The end of a stream\<close>

lemma fold_b_error_steps: "fold (b_error_steps e) rps w = upd_bpromises (fold (\<lambda>rp. rp_do_reject rp e) rps) w"
  by (induction rps arbitrary: w) (simp_all add: b_error_steps_def)

lemma fold_b_close_steps: "fold (b_close_steps v) rps w = upd_bpromises (fold (\<lambda>rp. rp_do_resolve rp (ReadResult v True)) rps) w"
  by (induction rps arbitrary: w) (simp_all add: b_close_steps_def)

definition drop_requests :: "nat option \<Rightarrow> (nat \<Rightarrow> breader) \<Rightarrow> nat \<Rightarrow> breader" where
  "drop_requests rd rs = (case rd of None \<Rightarrow> rs | Some i \<Rightarrow> rs(i := (rs i)\<lparr>br_requests := []\<rparr>))"

lemma drop_requests_simps [simp]:
  "br_byob (drop_requests rd rs j) = br_byob (rs j)" "br_attached (drop_requests rd rs j) = br_attached (rs j)"
  "n_into rd (drop_requests rd rs) = 0" "breaders_ok rd' rs next \<Longrightarrow> breaders_ok rd' (drop_requests rd rs) next"
  by (auto simp: drop_requests_def n_into_def breaders_ok_def split: option.splits)

lemma b_stream_error_eq:
  "\<exists>ps. b_stream_error rd e w = w\<lparr>b_stream := (b_stream w)\<lparr>rs_state := RsErrored e\<rparr>, b_readers := drop_requests rd (b_readers w), b_promises := ps\<rparr>"
  by (cases rd) (auto simp: b_stream_error_def b_error_requests_def drop_requests_def fold_b_error_steps Let_def intro: exI [of _ "b_promises w"])

lemma b_stream_close_eq:
  "\<exists>ps. b_stream_close rd w = w\<lparr>b_stream := (b_stream w)\<lparr>rs_state := RsClosed\<rparr>,
     b_readers := (case rd of None \<Rightarrow> b_readers w | Some i \<Rightarrow> if br_byob (b_readers w i) then b_readers w else drop_requests rd (b_readers w)),
     b_promises := ps\<rparr>"
  by (cases rd) (auto simp: b_stream_close_def drop_requests_def fold_b_close_steps Let_def intro: exI [of _ "b_promises w"])

lemma bc_error_fine:
  assumes w: "b_inv 0 w" and rd: "rd = rs_reader (b_stream w)"
  shows "bfine w 0 (bc_error rd e w)"
proof (cases "rs_state (b_stream w) = RsReadable")
  case True
  let ?w1 = "upd_bc (\<lambda>c. bc_clear_algorithms (bc_reset_queue c)) (bc_clear_pending w)"
  obtain ps where ps: "b_stream_error rd e ?w1 = ?w1\<lparr>b_stream := (b_stream ?w1)\<lparr>rs_state := RsErrored e\<rparr>,
      b_readers := drop_requests rd (b_readers ?w1), b_promises := ps\<rparr>" using b_stream_error_eq by blast
  have "bfine w 0 (b_stream_error rd e ?w1)" unfolding ps using w rd brequest_invalidate [of w "[]"]
    by (auto simp: bfine_def b_inv_def bc_clear_pending_def bc_clear_algorithms_def bc_reset_queue_def balgs_ok_def bqueue_ok_def
        pending_ok_def store_ok_def owned_def hidden_def n_byob_def bframe_def limbo_def)
  then show ?thesis using True by (simp add: bc_error_def)
qed (use w in \<open>simp add: bc_error_def\<close>)

lemma b_stream_close_fine:
  assumes w: "b_inv k w"
  shows "bfine w k (b_stream_close rd (upd_bc bc_clear_algorithms w))"
proof -
  let ?w1 = "upd_bc bc_clear_algorithms w"
  obtain ps where ps: "b_stream_close rd ?w1 = ?w1\<lparr>b_stream := (b_stream ?w1)\<lparr>rs_state := RsClosed\<rparr>,
     b_readers := (case rd of None \<Rightarrow> b_readers ?w1 | Some i \<Rightarrow> if br_byob (b_readers ?w1 i) then b_readers ?w1 else drop_requests rd (b_readers ?w1)),
     b_promises := ps\<rparr>" using b_stream_close_eq by blast
  have "n_into (rs_reader (b_stream w)) (drop_requests (Some i) (b_readers w)) = n_into (rs_reader (b_stream w)) (b_readers w)"
    if "\<not> br_byob (b_readers w i)" for i
    using that by (auto simp: n_into_def drop_requests_def split: option.split)
  then show ?thesis unfolding ps using w
    by (cases rd) (auto simp: bfine_def b_inv_def bc_clear_algorithms_def balgs_ok_def bframe_def limbo_def)
qed

lemma bc_close_fine:
  assumes w: "b_inv 0 w" and rd: "rd = rs_reader (b_stream w)"
  shows "bfine w 0 (snd (bc_close rd w))"
  using w b_stream_close_fine [OF w] bc_error_fine [OF w rd] by (auto simp: bc_close_def split: list.split)

lemma before_cancel_fine:
  assumes w: "b_inv 0 w" and rd: "rd = rs_reader (b_stream w)"
    and w2: "w2 = upd_bc bc_reset_queue (bc_clear_pending (b_close_read_into_requests rd (b_stream_close rd w)))"
  shows "bfine w 0 w2" "rs_state (b_stream w2) = RsClosed" "bc_cancel_algorithm (b_controller w2) = bc_cancel_algorithm (b_controller w)"
proof -
  obtain ps where ps: "b_stream_close rd w = w\<lparr>b_stream := (b_stream w)\<lparr>rs_state := RsClosed\<rparr>,
     b_readers := (case rd of None \<Rightarrow> b_readers w | Some i \<Rightarrow> if br_byob (b_readers w i) then b_readers w else drop_requests rd (b_readers w)),
     b_promises := ps\<rparr>" using b_stream_close_eq by blast
  have "\<exists>ps'. b_close_read_into_requests rd (b_stream_close rd w) = w\<lparr>b_stream := (b_stream w)\<lparr>rs_state := RsClosed\<rparr>,
     b_readers := drop_requests rd (b_readers w), b_promises := ps'\<rparr>"
    unfolding ps by (cases rd) (auto simp: b_close_read_into_requests_def drop_requests_def fold_b_close_steps)
  then obtain ps' where ps': "b_close_read_into_requests rd (b_stream_close rd w) = w\<lparr>b_stream := (b_stream w)\<lparr>rs_state := RsClosed\<rparr>,
     b_readers := drop_requests rd (b_readers w), b_promises := ps'\<rparr>" by blast
  let ?w1 = "w\<lparr>b_stream := (b_stream w)\<lparr>rs_state := RsClosed\<rparr>, b_readers := drop_requests rd (b_readers w), b_promises := ps'\<rparr>"
  have "bfine w 0 (upd_bc bc_reset_queue (bc_clear_pending ?w1))" using w rd brequest_invalidate [of ?w1 "[]"]
    by (auto simp: bfine_def b_inv_def bc_clear_pending_def bc_reset_queue_def balgs_ok_def bqueue_ok_def
        pending_ok_def store_ok_def owned_def hidden_def n_byob_def bframe_def limbo_def)
  then show "bfine w 0 w2" "rs_state (b_stream w2) = RsClosed" "bc_cancel_algorithm (b_controller w2) = bc_cancel_algorithm (b_controller w)"
    unfolding w2 ps' by (simp_all add: bc_clear_pending_def bc_reset_queue_def)
qed

subsection \<open>Readers and requests\<close>

lemma b_set_up_reader_fine:
  assumes w: "b_inv 0 w"
  shows "bfine w 0 (snd (b_set_up_reader byob w))"
proof -
  obtain rp w1 where rp: "b_with_promises (generic_initialize (b_stream w)) w = (rp, w1)" by fastforce
  then obtain ps where w1: "w1 = w\<lparr>b_promises := ps\<rparr>" by (auto simp: b_with_promises_def split: prod.splits)
  show ?thesis
  proof (cases "is_readable_stream_locked (b_stream w)")
    case False
    let ?r = "\<lparr>br_byob = byob, br_closed = rp, br_attached = True, br_requests = []\<rparr>"
    have none: "rs_reader (b_stream w) = None" using False by (simp add: is_readable_stream_locked_def)
    have "breaders_ok (Some (b_next_reader w)) ((b_readers w)(b_next_reader w := ?r)) (Suc (b_next_reader w))"
      "n_into (Some (b_next_reader w)) ((b_readers w)(b_next_reader w := ?r)) = n_byob (bpending w)"
      using w none by (auto simp: b_inv_def breaders_ok_def n_into_def)
    then have "bfine w 0 (upd_bstream (\<lambda>s. s\<lparr>rs_reader := Some (b_next_reader w)\<rparr>)
        (w1\<lparr>b_readers := (b_readers w1)(b_next_reader w := ?r), b_next_reader := Suc (b_next_reader w)\<rparr>))"
      using w by (auto simp: bfine_def b_inv_def bframe_def limbo_def w1)
    then show ?thesis using False rp by (simp add: b_set_up_reader_def Let_def w1)
  qed (use w in \<open>simp add: b_set_up_reader_def\<close>)
qed

lemma release_steps_eq:
  "bc_release_steps c = c\<lparr>bc_pending := (case bc_pending c of [] \<Rightarrow> [] | d # ds \<Rightarrow> [d\<lparr>pi_reader := ReaderNone\<rparr>])\<rparr>"
  by (simp add: bc_release_steps_def split: list.split)

lemma b_release_fine:
  assumes w: "b_inv 0 w"
  shows "bfine w 0 (b_reader_release_lock i w)"
proof (cases "br_attached (b_readers w i)")
  case True
  then have rd: "rs_reader (b_stream w) = Some i" using w by (simp add: b_inv_def breaders_ok_def)
  let ?ds = "case bpending w of [] \<Rightarrow> [] | d # ds \<Rightarrow> [d\<lparr>pi_reader := ReaderNone\<rparr>]"
  obtain rp ps where "(if rs_state (b_stream w) = RsReadable
      then (br_closed (b_readers w i), rp_do_reject (br_closed (b_readers w i)) reader_released_error (b_promises w))
      else rp_rejected_with reader_released_error (b_promises w)) = (rp, ps)" by fastforce
  then obtain ps' where eq: "b_reader_release i w = w\<lparr>b_controller := (b_controller w)\<lparr>bc_pending := ?ds\<rparr>,
      b_stream := (b_stream w)\<lparr>rs_reader := None\<rparr>,
      b_readers := (b_readers w)(i := (b_readers w i)\<lparr>br_closed := rp, br_attached := False, br_requests := []\<rparr>), b_promises := ps'\<rparr>"
    by (auto simp: b_reader_release_def b_generic_release_def b_error_requests_def fold_b_error_steps release_steps_eq Let_def)
  have "pending_ok ?ds (b_buffers w) \<and> store_ok ?ds (bqueue w) (b_buffers w) (b_held w) \<and> n_byob ?ds = 0
    \<and> brequest_ok (bc_byob_request (b_controller w)) ?ds (b_byob_requests w)
    \<and> set (owned ?ds (bqueue w)) \<subseteq> set (owned (bpending w) (bqueue w))"
  proof (cases "bpending w")
    case Nil
    then show ?thesis using w by (simp add: b_inv_def n_byob_def)
  next
    case (Cons d ds)
    have "pending_ok [d\<lparr>pi_reader := ReaderNone\<rparr>] (b_buffers w)" using w Cons by (auto simp: b_inv_def pending_ok_def desc_ok_def)
    moreover have "store_ok [d\<lparr>pi_reader := ReaderNone\<rparr>] (bqueue w) (b_buffers w) (b_held w)"
      using w Cons by (auto simp: b_inv_def store_ok_def owned_def hidden_def)
    moreover have "brequest_ok (bc_byob_request (b_controller w)) [d\<lparr>pi_reader := ReaderNone\<rparr>] (b_byob_requests w)"
      using w by (simp add: b_inv_def brequest_ok_def)
    ultimately show ?thesis using Cons by (auto simp: n_byob_def owned_def)
  qed
  moreover have "breaders_ok None ((b_readers w)(i := (b_readers w i)\<lparr>br_closed := rp, br_attached := False, br_requests := []\<rparr>)) (b_next_reader w)"
    using w rd by (auto simp: b_inv_def breaders_ok_def)
  ultimately have "bfine w 0 (b_reader_release i w)" unfolding eq using w
    by (auto simp: bfine_def b_inv_def n_into_def bframe_def limbo_def)
  then show ?thesis using True by (simp add: b_reader_release_lock_def)
qed (use w in \<open>simp add: b_reader_release_lock_def\<close>)

lemma get_byob_request_fine:
  assumes w: "b_inv 0 w"
  shows "bgood_result w (bc_get_byob_request w)"
proof (cases "bc_byob_request (b_controller w) = None \<and> bpending w \<noteq> []")
  case True
  then obtain d ds where p: "bpending w = d # ds" by (cases "bpending w") auto
  have u: "pi_filled d \<le> pi_length d" using w p by (simp add: b_inv_def pending_ok_def desc_ok_def)
  show ?thesis
  proof (cases "construct_view U8Array (pi_buffer d) (pi_offset d + pi_filled d) (pi_length d - pi_filled d) (b_buffers w)")
    case (Inl e)
    then show ?thesis using True p u w by (simp add: bc_get_byob_request_def usub_le)
  next
    case (Inr v)
    then have v: "av_buffer v = pi_buffer d" by (auto simp: construct_view_def split: option.splits if_splits)
    let ?q = "length (b_byob_requests w)"
    have "brequest_ok (Some ?q) (bpending w) (b_byob_requests w @ [\<lparr>bq_view = Some v, bq_controller = True\<rparr>])"
      using w True by (auto simp: b_inv_def brequest_ok_def nth_append)
    moreover have "store_ok (bpending w) (bqueue w) (b_buffers w) (av_buffer v # b_held w)"
      using w p v store_distinct [OF w] by (auto simp: b_inv_def pending_ok_def desc_ok_def store_ok_def owned_def hidden_def)
    ultimately have "bfine w 0 (upd_bc (\<lambda>c. c\<lparr>bc_byob_request := Some ?q\<rparr>)
        (w\<lparr>b_byob_requests := b_byob_requests w @ [\<lparr>bq_view = Some v, bq_controller = True\<rparr>], b_held := av_buffer v # b_held w\<rparr>))"
      using w p v by (auto simp: bfine_def b_inv_def bframe_def limbo_def owned_def)
    then show ?thesis using True p u Inr by (simp add: bc_get_byob_request_def usub_le Let_def)
  qed
qed (use w in \<open>auto simp: bc_get_byob_request_def split: option.split list.split\<close>)

end
