(* ===== verification/ByteOps.thy ===== *)
theory ByteOps
  imports ByteInv
begin

text \<open>
  The operations of a byte stream that run code of the user, or that a user starts: under the contract of
  user code, the locale \<open>buser_code\<close>, each of them returns and keeps the invariant of \<open>ByteInv\<close>.
\<close>

subsection \<open>Answers to BYOB requests\<close>

text \<open>The first pending descriptor with another number of filled bytes.\<close>

abbreviation with_filled :: "pull_into \<Rightarrow> pull_into list \<Rightarrow> nat \<Rightarrow> bworld \<Rightarrow> bworld" where
  "with_filled d ds f w \<equiv> upd_bc (\<lambda>c. c\<lparr>bc_pending := d\<lparr>pi_filled := f\<rparr> # ds\<rparr>) w"

lemma with_filled_fine:
  assumes w: "bfine w0 k w" and p: "bpending w = d # ds" and f: "f < pi_minimum d"
  shows "bfine w0 k (with_filled d ds f w)"
proof -
  have "pending_ok (d\<lparr>pi_filled := f\<rparr> # ds) (b_buffers w)"
    using bfine_inv [OF w] p f by (auto simp: b_inv_def pending_ok_def desc_ok_def)
  then show ?thesis using w p
    by (simp add: bfine_def b_inv_def store_ok_def owned_def hidden_def n_byob_def brequest_ok_def bframe_def limbo_def)
qed

lemma shift_filled:
  assumes "bc_shift_pending w = Some (d, w')" "bpending w = d # ds"
  shows "bc_shift_pending (with_filled d ds f w) = Some (d\<lparr>pi_filled := f\<rparr>, w')"
  using assms unfolding shift_set_head by (simp add: bc_shift_pending_def Let_def)

lemma rest_attached:
  assumes "b_inv k w" "bpending w = d # ds"
  shows "\<forall>d' \<in> set ds. attached (b_buffers w) (pi_buffer d') \<and> pi_reader d' = ReaderByob \<and> pi_buffer d' \<noteq> pi_buffer d"
proof -
  have "distinct (pi_buffer d # map pi_buffer ds)" using store_distinct [OF assms(1)] assms(2) by (simp add: owned_def)
  then show ?thesis using assms by (auto simp: b_inv_def pending_ok_def store_ok_def hidden_def image_iff)
qed

lemma respond_readable_fine:
  assumes w: "bfine w0 0 w" and p: "bpending w = d # ds" and at: "buffer_at (b_buffers w) (pi_buffer d) = Some xs"
    and n: "pi_filled d + n \<le> pi_length d"
  shows "bgood_result w0 (bc_respond_readable (rs_reader (b_stream w)) n w)"
proof -
  let ?f = "pi_filled d + n"
  let ?w1 = "with_filled d ds ?f w"
  have inv: "b_inv 0 w" using w by (rule bfine_inv)
  have dok: "desc_ok (b_buffers w) d" "pi_reader d \<noteq> ReaderDefault" using inv p by (auto simp: b_inv_def pending_ok_def)
  have len: "pi_offset d + ?f \<le> length xs" using dok(1) at n by (auto simp: desc_ok_def)
  have w1: "bc_fill_head n w = Some ?w1" using p by (simp add: bc_fill_head_def index_def)
  show ?thesis
  proof (cases "pi_reader d = ReaderNone")
    case True
    obtain w2 where w2: "bc_enqueue_detached_pull_into ?w1 = Some w2" "bfine w0 0 w2" "b_stream w2 = b_stream w" "ready_pending w2"
      using enqueue_detached_fine [OF w p True at len] by blast
    obtain w3 where "bc_process_pull_intos (rs_reader (b_stream w2)) w2 = Some (Inr (), w3)" "bfine w0 0 w3"
      using process_pull_intos_fine [OF w2(2,4)] by blast
    then show ?thesis using w1 w2(1,3) True by (simp add: bc_respond_readable_def index_def)
  next
    case False
    then have byob: "pi_reader d = ReaderByob" using dok(2) by (cases "pi_reader d") auto
    show ?thesis
    proof (cases "?f < pi_minimum d")
      case True
      then show ?thesis using w1 False with_filled_fine [OF w p True] by (simp add: bc_respond_readable_def index_def)
    next
      case full: False
      obtain w2 where sh: "bc_shift_pending w = Some (d, w2)" and w2: "bpending w2 = ds" "bqueue w2 = bqueue w" "b_buffers w2 = b_buffers w"
        "b_stream w2 = b_stream w" "bfine w0 ((if pi_reader d = ReaderByob then 1 else 0) + 0) w2" "\<not> limbo w0 (pi_buffer d)"
        "pi_buffer d \<notin> set (hidden ds (bqueue w))"
        by (rule shift_fine [OF w p])
      have f2: "bfine w0 (Suc 0) w2" using w2(5) byob by simp
      define r where "r = ?f mod pi_element_size d"
      define d' where "d' = d\<lparr>pi_filled := ?f - r\<rparr>"
      have r: "r \<le> ?f" by (simp add: r_def)
      have rng: "(pi_offset d + ?f - r) + r \<le> length xs" using len r by simp
      obtain w3 where w3: "(if r > 0 then bc_enqueue_cloned_chunk (pi_buffer d) (pi_offset d + ?f - r) r w2 else Some w2) = Some w3"
        "bfine w0 (Suc 0) w3" "bpending w3 = ds" "b_stream w3 = b_stream w"
        "buffer_at (b_buffers w3) (pi_buffer d) = Some xs" "pi_buffer d \<notin> set (hidden (bpending w3) (bqueue w3))"
        "desc_ok (b_buffers w3) d" "\<forall>d'' \<in> set ds. attached (b_buffers w3) (pi_buffer d'')"
      proof (cases "r > 0")
        case True
        have at2: "buffer_at (b_buffers w2) (pi_buffer d) = Some xs" using w2(3) at by simp
        obtain wc where wc: "bc_enqueue_cloned_chunk (pi_buffer d) (pi_offset d + ?f - r) r w2 = Some wc" "bfine w0 (Suc 0) wc"
          "wc = bc_enqueue_chunk (length (b_buffers w2)) 0 r (w2\<lparr>b_buffers := b_buffers w2 @ [Some (take r (drop (pi_offset d + ?f - r) xs))]\<rparr>)"
          by (rule clone_fine [OF f2 at2 rng])
        have lt: "pi_buffer d < length (b_buffers w)" using at by (simp add: buffer_at_def split: if_splits)
        have "buffer_at (b_buffers wc) (pi_buffer d) = Some xs" "pi_buffer d \<notin> set (hidden ds (bqueue wc))" "bpending wc = ds" "b_stream wc = b_stream w"
          using w2(1,2,3,4,7) at lt by (simp_all add: wc(3) bc_enqueue_chunk_def buffer_at_append hidden_def)
        moreover have "desc_ok (b_buffers wc) d" using dok(1) w2(3) by (auto simp: wc(3) bc_enqueue_chunk_def intro: desc_ok_shrinks)
        moreover have "\<forall>d'' \<in> set ds. attached (b_buffers wc) (pi_buffer d'')"
          using rest_attached [OF inv p] w2(3) by (auto simp: wc(3) bc_enqueue_chunk_def)
        ultimately show thesis using that [of wc] wc(1,2) True by simp
      next
        case no: False
        show thesis using that [of w2] no f2 w2(1-4,7) at dok(1) rest_attached [OF inv p] by simp
      qed
      have d': "desc_ok (b_buffers w3) d'" "pi_filled d' \<le> pi_length d'" "buffer_at (b_buffers w3) (pi_buffer d') = Some xs"
        "pi_buffer d' \<notin> set (hidden (bpending w3) (bqueue w3))" "\<not> limbo w0 (pi_buffer d')" "pi_reader d' = ReaderByob"
        using w3(5,6,7) n w2(6) byob by (auto simp: d'_def desc_ok_def)
      obtain i rp rps w4 where w4: "bc_commit (rs_reader (b_stream w3)) d' w3 = Some (Inr (), w4)" "bfine w0 0 w4"
        "w4 = b_give rp (filled_view (length (b_buffers w3)) (length xs) d') (rs_state (b_stream w3) = RsClosed)
           (upd_breader i (\<lambda>r. r\<lparr>br_requests := rps\<rparr>) (w3\<lparr>b_buffers := (b_buffers w3)[pi_buffer d' := None] @ [Some xs]\<rparr>))"
        by (rule commit_fine [OF w3(2) d'])
      have "ready_pending w4" using rest_attached [OF inv p] w3(3,8) by (auto simp: ready_pending_def w4(3) b_give_def d'_def dest: attached_less)
      from process_pull_intos_fine [OF w4(2) this] obtain w5
        where "bc_process_pull_intos (rs_reader (b_stream w4)) w4 = Some (Inr (), w5)" "bfine w0 0 w5" by blast
      moreover have "b_stream w4 = b_stream w" using w3(4) by (simp add: w4(3) b_give_def)
      ultimately show ?thesis using w1 full byob shift_filled [OF sh p, of ?f] w3(1) [unfolded r_def] w3(4) w4(1) [unfolded d'_def r_def]
        by (simp add: bc_respond_readable_def index_def Let_def split: if_splits)
    qed
  qed
qed

lemma respond_closed_fine:
  assumes w: "bfine w0 0 w" and p: "bpending w = d # ds" and at: "buffer_at (b_buffers w) (pi_buffer d) = Some xs"
  shows "bgood_result w0 (bc_respond_closed (rs_reader (b_stream w)) w)"
proof -
  have inv: "b_inv 0 w" using w by (rule bfine_inv)
  obtain w1 where w1: "(if pi_reader d = ReaderNone then map_option snd (bc_shift_pending w) else Some w) = Some w1"
    "bfine w0 0 w1" "ready_pending w1" "b_stream w1 = b_stream w"
  proof (cases "pi_reader d = ReaderNone")
    case True
    obtain w1 where "bc_shift_pending w = Some (d, w1)" "bpending w1 = ds" "b_buffers w1 = b_buffers w" "b_stream w1 = b_stream w"
      "bfine w0 ((if pi_reader d = ReaderByob then 1 else 0) + 0) w1" by (rule shift_fine [OF w p])
    then show thesis using that [of w1] True rest_attached [OF inv p] by (simp add: ready_pending_def)
  next
    case False
    then have "pi_reader d = ReaderByob" using inv p by (cases "pi_reader d") (auto simp: b_inv_def pending_ok_def)
    then show thesis using that [of w] False w ready_pendingI [OF inv p] at by (simp add: attached_def)
  qed
  show ?thesis
  proof (cases "\<exists>i. rs_reader (b_stream w) = Some i \<and> br_byob (b_readers w1 i)")
    case True
    then obtain i where i: "rs_reader (b_stream w) = Some i" "br_byob (b_readers w1 i)" by blast
    then obtain w2 where "bc_commit_all i w1 = Some (Inr (), w2)" "bfine w0 0 w2" using commit_all_fine [OF w1(2,3)] w1(4) by auto
    then show ?thesis using p w1(1) i by (simp add: bc_respond_closed_def index_def)
  next
    case False
    then show ?thesis using p w1(1,2) by (auto simp: bc_respond_closed_def index_def split: option.split)
  qed
qed

subsection \<open>What an operation needs of a view\<close>

definition view_ok :: "buffers \<Rightarrow> array_view \<Rightarrow> bool" where
  "view_ok bs v \<longleftrightarrow> av_offset v mod element_size (av_kind v) = 0 \<and> av_length v mod element_size (av_kind v) = 0
     \<and> (\<forall>xs. buffer_at bs (av_buffer v) = Some xs \<longrightarrow> av_offset v + av_length v \<le> length xs)"

lemma get_array_buffer_attached:
  "buffer_at bs (av_buffer v) = Some xs \<Longrightarrow> get_array_buffer v bs = (av_buffer v, av_length v, av_offset v)"
  by (simp add: get_array_buffer_def)

lemma get_array_buffer_detached: "buffer_at bs (av_buffer v) = None \<Longrightarrow> get_array_buffer v bs = (av_buffer v, 0, 0)"
  by (simp add: get_array_buffer_def)

lemma held_free:
  assumes "b_inv k w" "b \<in> set (b_held w)"
  shows "b \<notin> set (hidden (bpending w) (bqueue w))" "\<not> limbo w b"
  using assms by (auto simp: b_inv_def store_ok_def limbo_def)

lemma frame_limbo:
  assumes "bfine w 0 w'" "limbo w b"
  shows "limbo w' b" "buffer_at (b_buffers w') b = buffer_at (b_buffers w) b"
  using assms by (auto simp: bfine_def bframe_def)

subsection \<open>User code\<close>

text \<open>User code returns or throws, keeps the invariant and leaves alone the buffers it does not hold.\<close>

locale buser_code =
  fixes u :: buser
  assumes user_fine: "b_inv 0 w \<Longrightarrow> bgood_result w (u c w)"
begin

lemma source_call_fine:
  assumes "b_inv 0 w"
  shows "bgood_result w (b_source_call u c alg w)"
proof (cases alg)
  case SourceFunction
  obtain out w' where "u c w = Some (out, w')" "bfine w 0 w'" using user_fine [OF assms] by (rule bgood_resultE)
  then show ?thesis using SourceFunction by (simp add: b_with_promises_def split: prod.split)
qed (use assms in simp)

text \<open>Asking for more: user code runs only when no pull is under way, and one is under way afterwards.\<close>

lemma call_pull_fine:
  assumes w: "b_inv 0 w"
  obtains w' where "bc_call_pull_if_needed u rd w = Some w'" "bfine w 0 w'"
    "\<not> bc_pulling (b_controller w) \<and> bc_pulling (b_controller w') \<or> b_readers w' = b_readers w"
proof -
  have "\<exists>b. bc_should_call_pull rd w = Some b \<and> (b \<longrightarrow> rs_state (b_stream w) = RsReadable)"
    by (cases "rs_state (b_stream w)") (auto simp: bc_should_call_pull_def bc_get_desired_size_def)
  then obtain b where b: "bc_should_call_pull rd w = Some b" "b \<longrightarrow> rs_state (b_stream w) = RsReadable" by blast
  show thesis
  proof (cases "b \<and> \<not> bc_pulling (b_controller w)")
    case True
    then obtain alg where alg: "bc_pull_algorithm (b_controller w) = Some alg" using w b(2) by (auto simp: b_inv_def balgs_ok_def)
    let ?w1 = "upd_bc (\<lambda>c. c\<lparr>bc_pulling := True\<rparr>) w"
    have f: "bfine w 0 ?w1" using w by (simp add: bfine_def bframe_def limbo_def)
    obtain p w2 where w2: "b_source_call u BCallPull alg ?w1 = Some (p, w2)" "bfine ?w1 0 w2"
      using source_call_fine [of ?w1 BCallPull alg] w by (auto elim: bgood_resultE)
    have "bc_pulling (b_controller w2)" using w2(2) by (simp add: bfine_def bframe_def)
    then show thesis using that [of "b_upon_promise p ROnPull w2"] True b(1) alg w2 bfine_trans [OF f w2(2)]
      by (simp add: bc_call_pull_if_needed_def bc_pull_def b_upon_promise_def)
  next
    case False
    then show thesis using that [of "if b then upd_bc (\<lambda>c. c\<lparr>bc_pull_again := True\<rparr>) w else w"] b(1) w
      by (simp add: bc_call_pull_if_needed_def)
  qed
qed

lemma then_pull_fine:
  assumes "bfine w0 0 w"
  shows "bgood_result w0 (do { w' \<leftarrow> bc_call_pull_if_needed u rd w; Some (r, w') })"
proof -
  obtain w' where "bc_call_pull_if_needed u rd w = Some w'" "bfine w 0 w'" by (rule call_pull_fine [OF bfine_inv [OF assms]])
  then show ?thesis using bfine_trans [OF assms] by simp
qed

lemma handle_queue_drain_fine:
  assumes w: "b_inv 0 w"
  obtains w' where "bc_handle_queue_drain u rd w = Some w'" "bfine w 0 w'"
    "\<not> bc_pulling (b_controller w) \<and> bc_pulling (b_controller w')
      \<or> length (br_requests (b_readers w' i)) \<le> length (br_requests (b_readers w i))"
proof (cases "bc_total (b_controller w) = 0 \<and> bc_close_requested (b_controller w)")
  case True
  obtain ps where "b_stream_close rd (upd_bc bc_clear_algorithms w) = (upd_bc bc_clear_algorithms w)\<lparr>b_stream := (b_stream (upd_bc bc_clear_algorithms w))\<lparr>rs_state := RsClosed\<rparr>,
     b_readers := (case rd of None \<Rightarrow> b_readers (upd_bc bc_clear_algorithms w) | Some i \<Rightarrow>
       if br_byob (b_readers (upd_bc bc_clear_algorithms w) i) then b_readers (upd_bc bc_clear_algorithms w) else drop_requests rd (b_readers (upd_bc bc_clear_algorithms w))),
     b_promises := ps\<rparr>" using b_stream_close_eq by blast
  then have "length (br_requests (b_readers (b_stream_close rd (upd_bc bc_clear_algorithms w)) i)) \<le> length (br_requests (b_readers w i))"
    by (simp add: drop_requests_def split: option.split)
  then show thesis using that [OF _ b_stream_close_fine [OF w, of rd]] True by (simp add: bc_handle_queue_drain_def)
next
  case False
  obtain w' where "bc_call_pull_if_needed u rd w = Some w'" "bfine w 0 w'"
    "\<not> bc_pulling (b_controller w) \<and> bc_pulling (b_controller w') \<or> b_readers w' = b_readers w" by (rule call_pull_fine [OF w])
  then show thesis using that [of w'] False by (auto simp: bc_handle_queue_drain_def)
qed

subsection \<open>Serving default readers\<close>

lemma fill_read_request_fine:
  assumes w: "b_inv 0 w" and t: "bc_total (b_controller w) \<noteq> 0"
  obtains w' where "bc_fill_read_request u i rp w = Some (Inr (), w')" "bfine w 0 w'"
    "\<not> bc_pulling (b_controller w) \<and> bc_pulling (b_controller w')
      \<or> length (br_requests (b_readers w' i)) \<le> length (br_requests (b_readers w i))"
proof -
  obtain e q where q: "bqueue w = e # q" using w t by (cases "bqueue w") (auto simp: b_inv_def bqueue_ok_def)
  have tot: "bc_total (b_controller w) = qe_length e + queue_size q" using w q by (simp add: b_inv_def bqueue_ok_def)
  let ?w1 = "upd_bc (\<lambda>c. c\<lparr>bc_queue := q, bc_total := queue_size q\<rparr>) w"
  have f1: "bfine w 0 ?w1" using w q
    by (auto simp: bfine_def b_inv_def bqueue_ok_def store_ok_def owned_def hidden_def bframe_def limbo_def)
  obtain xs where xs: "buffer_at (b_buffers w) (qe_buffer e) = Some xs" "qe_offset e + qe_length e \<le> length xs" "limbo ?w1 (qe_buffer e)" "\<not> limbo w (qe_buffer e)"
    using w q by (auto simp: b_inv_def bqueue_ok_def qentry_ok_def store_ok_def owned_def hidden_def attached_def limbo_def)
  obtain w2 where w2: "bc_handle_queue_drain u (Some i) ?w1 = Some w2" "bfine ?w1 0 w2"
    "\<not> bc_pulling (b_controller ?w1) \<and> bc_pulling (b_controller w2) \<or> length (br_requests (b_readers w2 i)) \<le> length (br_requests (b_readers ?w1 i))"
    by (rule handle_queue_drain_fine [OF bfine_inv [OF f1]])
  let ?v = "\<lparr>av_kind = U8Array, av_buffer = qe_buffer e, av_offset = qe_offset e, av_length = qe_length e\<rparr>"
  have l2: "limbo w2 (qe_buffer e)" "buffer_at (b_buffers w2) (qe_buffer e) = Some xs" using frame_limbo [OF w2(2) xs(3)] xs(1) by simp_all
  have "bfine w 0 (b_give rp ?v False w2)" using l2(1) xs(4) by (intro give_fine [OF bfine_trans [OF f1 w2(2)]]) simp_all
  moreover have "bc_fill_read_request u i rp w = Some (Inr (), b_give rp ?v False w2)"
    using q tot w2(1) l2(2) xs(2) by (simp add: bc_fill_read_request_def usub_le construct_view_def)
  ultimately show thesis using that w2(3) by (simp add: b_give_def)
qed

lemma set_requests_fine:
  assumes w: "bfine w0 0 w" and i: "\<not> br_byob (b_readers w i)" and rs: "rs_reader (b_stream w) = Some i \<or> rps = []"
  shows "bfine w0 0 (upd_breader i (\<lambda>r. r\<lparr>br_requests := rps\<rparr>) w)"
  using assms by (auto simp: bfine_def b_inv_def n_into_def breaders_ok_def split: option.splits)

lemma requests_attached:
  assumes "b_inv k w" "br_requests (b_readers w i) \<noteq> []"
  shows "rs_reader (b_stream w) = Some i"
  using assms by (auto simp: b_inv_def breaders_ok_def)

lemma process_read_requests_fine:
  assumes "bfine w0 0 w" "i < b_next_reader w" "\<not> br_byob (b_readers w i)"
  shows "\<exists>w'. bc_process_read_requests u i w = Some (Inr (), w') \<and> bfine w0 0 w' \<and> bframe w w'"
  using assms
proof (induction "(if bc_pulling (b_controller w) then 0 else 1 :: nat, length (br_requests (b_readers w i)))" arbitrary: w
    rule: wf_induct_rule [OF wf_lex_prod [OF wf_less_than wf_less_than]])
  case less: (1 w)
  note w = less.prems
  show ?case
  proof (cases "br_requests (b_readers w i) = [] \<or> bc_total (b_controller w) = 0")
    case True
    then show ?thesis using w(1) by (auto simp: bc_process_read_requests.simps split: list.split)
  next
    case False
    then obtain rp rps where rps: "br_requests (b_readers w i) = rp # rps" by (cases "br_requests (b_readers w i)") auto
    let ?w1 = "upd_breader i (\<lambda>r. r\<lparr>br_requests := rps\<rparr>) w"
    have inv: "b_inv 0 w" using w(1) by (rule bfine_inv)
    have "rs_reader (b_stream w) = Some i" using requests_attached [OF inv] rps by simp
    then have f1: "bfine w0 0 ?w1" "bframe w ?w1" using set_requests_fine [OF w(1,3)] by simp_all
    obtain w2 where w2: "bc_fill_read_request u i rp ?w1 = Some (Inr (), w2)" "bfine ?w1 0 w2"
      "\<not> bc_pulling (b_controller ?w1) \<and> bc_pulling (b_controller w2) \<or> length (br_requests (b_readers w2 i)) \<le> length (br_requests (b_readers ?w1 i))"
      by (rule fill_read_request_fine [OF bfine_inv [OF f1(1)]]) (use False in simp)
    have fr: "bframe w w2" using bframe_trans [OF f1(2)] w2(2) by (simp add: bfine_def)
    then have i2: "i < b_next_reader w2" "\<not> br_byob (b_readers w2 i)" "bc_pulling (b_controller w) \<longrightarrow> bc_pulling (b_controller w2)"
      using w(2,3) by (auto simp: bframe_def)
    have "((if bc_pulling (b_controller w2) then 0 else 1, length (br_requests (b_readers w2 i))),
        if bc_pulling (b_controller w) then 0 else 1, length (br_requests (b_readers w i))) \<in> less_than <*lex*> less_than"
      using w2(3) i2(3) rps by auto
    from less.hyps [OF this bfine_trans [OF f1(1) w2(2)] i2(1,2)] obtain w3
      where "bc_process_read_requests u i w2 = Some (Inr (), w3)" "bfine w0 0 w3" "bframe w2 w3" by blast
    then show ?thesis using rps False w2(1) bframe_trans [OF fr] by (subst bc_process_read_requests.simps) simp
  qed
qed

text \<open>A new chunk when the reader is a default reader.\<close>

lemma enqueue_for_default_fine:
  assumes w: "bfine w0 0 w" and i: "i < b_next_reader w" "\<not> br_byob (b_readers w i)"
    and b: "limbo w b" "\<not> limbo w0 b" "buffer_at (b_buffers w) b = Some xs" "off + n \<le> length xs"
  shows "bgood_result w0 (enqueue_for_default_reader u i b off n w)"
proof -
  obtain w1 where w1: "bc_process_read_requests u i w = Some (Inr (), w1)" "bfine w0 0 w1" "bframe w w1"
    using process_read_requests_fine [OF w i] by blast
  have inv: "b_inv 0 w1" using w1(2) by (rule bfine_inv)
  have b1: "limbo w1 b" "buffer_at (b_buffers w1) b = Some xs" "\<not> br_byob (b_readers w1 i)" using w1(3) b(1,3) i by (auto simp: bframe_def)
  show ?thesis
  proof (cases "br_requests (b_readers w1 i)")
    case Nil
    then show ?thesis using w1(1) enqueue_chunk_fine [OF w1(2) b1(1) b(2) b1(2) b(4)] by (simp add: enqueue_for_default_reader_def b_num_requests_def)
  next
    case (Cons rp rps)
    have rd: "rs_reader (b_stream w1) = Some i" using requests_attached [OF inv] Cons by simp
    obtain w2 where w2: "(if bpending w1 \<noteq> [] then map_option snd (bc_shift_pending w1) else Some w1) = Some w2" "bfine w0 0 w2"
      "limbo w2 b" "buffer_at (b_buffers w2) b = Some xs" "b_readers w2 = b_readers w1" "b_stream w2 = b_stream w1"
    proof (cases "bpending w1")
      case Nil
      then show thesis using that [of w1] w1(2) b1 by simp
    next
      case (Cons d ds)
      have "n_byob (bpending w1) = 0" using inv rd b1(3) by (simp add: b_inv_def n_into_def)
      then have d: "pi_reader d \<noteq> ReaderByob" using Cons by (simp add: n_byob_def split: if_splits)
      obtain w2 where "bc_shift_pending w1 = Some (d, w2)" "bpending w2 = ds" "bqueue w2 = bqueue w1" "b_buffers w2 = b_buffers w1"
        "b_stream w2 = b_stream w1" "b_readers w2 = b_readers w1" "b_held w2 = b_held w1"
        "bfine w0 ((if pi_reader d = ReaderByob then 1 else 0) + 0) w2" by (rule shift_fine [OF w1(2) Cons])
      then show thesis using that [of w2] Cons b1(1,2) d by (auto simp: limbo_def owned_def)
    qed
    let ?v = "\<lparr>av_kind = U8Array, av_buffer = b, av_offset = off, av_length = n\<rparr>"
    have "bfine w0 0 (upd_breader i (\<lambda>r. r\<lparr>br_requests := rps\<rparr>) w2)" using set_requests_fine [OF w2(2)] w2(5,6) b1(3) rd by simp
    then have "bfine w0 0 (b_give rp ?v False (upd_breader i (\<lambda>r. r\<lparr>br_requests := rps\<rparr>) w2))"
      using w2(3) b(2) by (intro give_fine) simp_all
    moreover have "construct_view U8Array b off n (b_buffers w2) = Inr ?v" using w2(4) b(4) by (simp add: construct_view_def)
    moreover have "br_requests (b_readers w2 i) = rp # rps" using w2(5) Cons by simp
    ultimately show ?thesis using w1(1) Cons w2(1)
      by (simp add: enqueue_for_default_reader_def b_num_requests_def b_fulfill_read_request_def Let_def split: if_splits)
  qed
qed

lemma enqueue_impl_fine:
  assumes w: "bfine w0 0 w" and v: "view_ok (b_buffers w) v"
    and b: "\<not> limbo w0 (av_buffer v)" "av_buffer v \<notin> set (hidden (bpending w) (bqueue w))" "skip \<longrightarrow> limbo w (av_buffer v)"
  shows "bgood_result w0 (bc_enqueue_impl u (rs_reader (b_stream w)) v skip w)"
proof (cases "bc_close_requested (b_controller w) \<or> rs_state (b_stream w) \<noteq> RsReadable")
  case open_stream: False
  show ?thesis
  proof (cases "buffer_at (b_buffers w) (av_buffer v)")
    case None
    then show ?thesis using open_stream w by (simp add: bc_enqueue_impl_def get_array_buffer_detached)
  next
    case (Some xs)
    have rng: "av_offset v + av_length v \<le> length xs" using v Some by (simp add: view_ok_def)
    obtain b' w1 where w1: "(if skip then Some (Inr (av_buffer v), w) else with_transfer (av_buffer v) w) = Some (Inr b', w1)"
      "bfine w0 0 w1" "limbo w1 b'" "\<not> limbo w0 b'" "buffer_at (b_buffers w1) b' = Some xs" "b_stream w1 = b_stream w"
    proof (cases skip)
      case True
      then show thesis using that [of "av_buffer v" w] w b Some by simp
    next
      case False
      have new: "\<not> limbo w0 (length (b_buffers w))" using w by (intro limbo_new [of w0 w]) (auto simp: bfine_def)
      show thesis
        by (rule with_transfer_fine [OF w b(2,1)])
          (use that False Some new in \<open>auto simp: attached_def buffer_at_def nth_append split: if_splits\<close>)
    qed
    have i1: "b_inv 0 w1" using w1(2) by (rule bfine_inv)
    obtain r w2 where w2: "detach_first_pending w1 = Some (r, w2)" "bfine w1 0 w2" "b_stream w2 = b_stream w1" "r = Inr () \<longrightarrow> ready_pending w2"
      by (rule detach_first_fine [OF i1])
    have f2: "bfine w0 0 w2" using w1(2) w2(2) by (rule bfine_trans)
    have b2: "limbo w2 b'" "buffer_at (b_buffers w2) b' = Some xs" using frame_limbo [OF w2(2) w1(3)] w1(5) by simp_all
    have fc: "bfine w0 0 (bc_enqueue_chunk b' (av_offset v) (av_length v) w2)" by (rule enqueue_chunk_fine [OF f2 b2(1) w1(4) b2(2) rng])
    define body where "body = (case rs_reader (b_stream w) of
                    None \<Rightarrow> Some (Inr (), bc_enqueue_chunk b' (av_offset v) (av_length v) w2)
                  | Some i \<Rightarrow>
                      if br_byob (b_readers w2 i) then bc_process_pull_intos (rs_reader (b_stream w)) (bc_enqueue_chunk b' (av_offset v) (av_length v) w2)
                      else enqueue_for_default_reader u i b' (av_offset v) (av_length v) w2)"
    have body: "bgood_result w0 body" if r: "r = Inr ()"
    proof (cases "rs_reader (b_stream w)")
      case None
      then show ?thesis using fc by (simp add: body_def)
    next
      case (Some i)
      have st: "b_stream w2 = b_stream w" using w1(6) w2(3) by simp
      show ?thesis
      proof (cases "br_byob (b_readers w2 i)")
        case True
        have "ready_pending (bc_enqueue_chunk b' (av_offset v) (av_length v) w2)"
          using w2(4) r by (simp add: ready_pending_def bc_enqueue_chunk_def)
        from process_pull_intos_fine [OF fc this] st show ?thesis using True Some by (auto simp: body_def bc_enqueue_chunk_def)
      next
        case False
        have "i < b_next_reader w2" using bfine_inv [OF f2] Some st by (simp add: b_inv_def breaders_ok_def)
        then show ?thesis using enqueue_for_default_fine [OF f2 _ False b2(1) w1(4) b2(2) rng] Some False by (simp add: body_def)
      qed
    qed
    have "bc_enqueue_impl u (rs_reader (b_stream w)) v skip w = or_throw (Some (r, w2)) (\<lambda>_ w2'. or_throw
        (case rs_reader (b_stream w) of
                    None \<Rightarrow> Some (Inr (), bc_enqueue_chunk b' (av_offset v) (av_length v) w2')
                  | Some i \<Rightarrow>
                      if br_byob (b_readers w2' i) then bc_process_pull_intos (rs_reader (b_stream w)) (bc_enqueue_chunk b' (av_offset v) (av_length v) w2')
                      else enqueue_for_default_reader u i b' (av_offset v) (av_length v) w2')
        (\<lambda>_ w3. do { w4 \<leftarrow> bc_call_pull_if_needed u (rs_reader (b_stream w)) w3; Some (Inr (), w4) }))"
      using open_stream Some w1(1) w2(1) by (simp add: bc_enqueue_impl_def get_array_buffer_attached)
    then show ?thesis using f2 body by (cases r) (auto simp: body_def intro!: bgood_or_throw then_pull_fine)
  qed
qed (use w in \<open>simp add: bc_enqueue_impl_def\<close>)

subsection \<open>Responding\<close>

lemma respond_internal_fine:
  assumes w: "bfine w0 0 w" and p: "bpending w = d # ds" and at: "buffer_at (b_buffers w) (pi_buffer d) = Some xs"
    and n: "rs_state (b_stream w) \<noteq> RsClosed \<longrightarrow> pi_filled d + n \<le> pi_length d"
  shows "bgood_result w0 (bc_respond_internal u (rs_reader (b_stream w)) n w)"
proof -
  have f: "bfine w0 0 (bc_invalidate w)" "bpending (bc_invalidate w) = d # ds" "buffer_at (b_buffers (bc_invalidate w)) (pi_buffer d) = Some xs"
    using invalidate_fine [OF w] p at by simp_all
  have "bgood_result w0 (if rs_state (b_stream (bc_invalidate w)) = RsClosed then bc_respond_closed (rs_reader (b_stream w)) (bc_invalidate w)
      else bc_respond_readable (rs_reader (b_stream w)) n (bc_invalidate w))"
    using respond_closed_fine [OF f] respond_readable_fine [OF f] n by simp
  then show ?thesis unfolding bc_respond_internal_def Let_def by (intro bgood_or_throw then_pull_fine)
qed

text \<open>Both ways to respond transfer a buffer, which becomes that of the first pending descriptor.\<close>

lemma transfer_and_respond_fine:
  assumes w: "b_inv 0 w" and p: "bpending w = d # ds" and b: "b \<notin> set (hidden (bpending w) (bqueue w))" "\<not> limbo w b"
    and len: "\<And>xs. buffer_at (b_buffers w) b = Some xs \<Longrightarrow> length xs = pi_buffer_length d"
    and n: "rs_state (b_stream w) \<noteq> RsClosed \<longrightarrow> pi_filled d + n \<le> pi_length d"
  shows "bgood_result w (or_throw (with_transfer b w) (\<lambda>b w1. bc_respond_internal u (rs_reader (b_stream w)) n (bc_set_first_buffer b w1)))"
proof -
  have fw: "bfine w 0 w" using w by simp
  show ?thesis
  proof (rule with_transfer_fine [OF fw b])
    fix xs w'
    assume a: "buffer_at (b_buffers w) b = Some xs" "with_transfer b w = Some (Inr (length (b_buffers w)), w')"
      "w' = w\<lparr>b_buffers := (b_buffers w)[b := None] @ [Some xs]\<rparr>" "bfine w 0 w'" "limbo w' (length (b_buffers w))"
    let ?b = "length (b_buffers w)"
    let ?w2 = "upd_bc (\<lambda>c. c\<lparr>bc_pending := d\<lparr>pi_buffer := ?b\<rparr> # ds\<rparr>) w'"
    have p': "bpending w' = d # ds" "buffer_at (b_buffers w') ?b = Some xs" "b_stream w' = b_stream w" using p by (simp_all add: a(3) buffer_at_def nth_append)
    have "\<not> limbo w ?b" by (simp add: limbo_def)
    then have f2: "bfine w 0 ?w2" using set_first_buffer_fine [OF a(4) p'(1) a(5)] p'(2) len [OF a(1)] by simp
    have "bgood_result w (bc_respond_internal u (rs_reader (b_stream ?w2)) n ?w2)"
      by (rule respond_internal_fine [OF f2, of "d\<lparr>pi_buffer := ?b\<rparr>" ds xs]) (use p'(2,3) n in simp_all)
    moreover have "bc_set_first_buffer ?b w' = ?w2" using p'(1) by (simp add: bc_set_first_buffer_def)
    ultimately show ?thesis using a(2) p'(3) by simp
  qed (use w in simp)
qed

lemma respond_fine:
  assumes w: "b_inv 0 w" and p: "bpending w \<noteq> []"
  shows "bgood_result w (bc_respond u (rs_reader (b_stream w)) n w)"
proof -
  obtain d ds where p: "bpending w = d # ds" using p by (cases "bpending w") auto
  have "pi_buffer d \<notin> set (hidden (bpending w) (bqueue w))" "\<not> limbo w (pi_buffer d)"
    using store_distinct [OF w] p by (auto simp: owned_def hidden_def limbo_def)
  moreover have "length xs = pi_buffer_length d" if "buffer_at (b_buffers w) (pi_buffer d) = Some xs" for xs
    using w p that by (simp add: b_inv_def pending_ok_def desc_ok_def)
  ultimately show ?thesis using transfer_and_respond_fine [OF w p, of "pi_buffer d" n] w p by (auto simp: bc_respond_def index_def)
qed

lemma respond_with_new_view_fine:
  assumes w: "b_inv 0 w" and p: "bpending w \<noteq> []" and v: "av_buffer v \<in> set (b_held w)" "buffer_at (b_buffers w) (av_buffer v) = Some xs"
  shows "bgood_result w (bc_respond_with_new_view u (rs_reader (b_stream w)) v w)"
proof -
  obtain d ds where p: "bpending w = d # ds" using p by (cases "bpending w") auto
  show ?thesis using transfer_and_respond_fine [OF w p held_free [OF w v(1)], of "av_length v"] w p v(2)
    by (auto simp: bc_respond_with_new_view_def get_array_buffer_attached index_def)
qed

lemma request_pending:
  assumes "b_inv k w" "q < length (b_byob_requests w)" "bq_controller (b_byob_requests w ! q)"
  shows "bpending w \<noteq> []"
  using assms by (auto simp: b_inv_def brequest_ok_def)

lemma byob_request_respond_fine:
  assumes w: "b_inv 0 w" and q: "q < length (b_byob_requests w)"
  shows "bgood_result w (byob_request_respond u q n w)"
  using w respond_fine [OF w request_pending [OF w q], of n]
  by (auto simp: byob_request_respond_def b_refresh_reader_def split: bool.split option.split)

lemma byob_request_respond_with_new_view_fine:
  assumes w: "b_inv 0 w" and q: "q < length (b_byob_requests w)" and v: "\<And>v. view = Some (ArrayView v) \<Longrightarrow> av_buffer v \<in> set (b_held w)"
  shows "bgood_result w (byob_request_respond_with_new_view u q view w)"
proof (cases "view_from_value view")
  case (Inr v')
  then have "view = Some (ArrayView v')" by (cases view rule: view_from_value.cases) auto
  then show ?thesis using w respond_with_new_view_fine [OF w request_pending [OF w q]] v Inr
    by (auto simp: byob_request_respond_with_new_view_def b_refresh_reader_def)
qed (use w in \<open>simp add: byob_request_respond_with_new_view_def\<close>)

subsection \<open>Reading\<close>

lemma add_pending_fine:
  assumes w: "bfine w0 0 w" and i: "rs_reader (b_stream w) = Some i" "br_byob (b_readers w i)"
    and d: "desc_ok (b_buffers w) d" "pi_filled d < pi_minimum d" "pi_reader d = ReaderByob"
    and b: "limbo w (pi_buffer d)" "\<not> limbo w0 (pi_buffer d)" "attached (b_buffers w) (pi_buffer d)"
  shows "bfine w0 0 (b_add_request i rp (upd_bc (\<lambda>c. c\<lparr>bc_pending := bc_pending c @ [d]\<rparr>) w))"
proof -
  have inv: "b_inv 0 w" using w by (rule bfine_inv)
  have "pending_ok (bpending w @ [d]) (b_buffers w)" using inv d by (cases "bpending w") (auto simp: b_inv_def pending_ok_def)
  moreover have "store_ok (bpending w @ [d]) (bqueue w) (b_buffers w) (b_held w)" using inv b
    by (cases "bpending w") (auto simp: b_inv_def store_ok_def owned_def hidden_def limbo_def)
  moreover have "bframe w0 (b_add_request i rp (upd_bc (\<lambda>c. c\<lparr>bc_pending := bc_pending c @ [d]\<rparr>) w))"
    using w b(2) by (auto simp: b_add_request_def bfine_def bframe_def limbo_def owned_def)
  ultimately show ?thesis using inv i d(3)
    by (auto simp: bfine_def b_inv_def b_add_request_def n_into_def n_byob_def breaders_ok_def brequest_ok_def)
qed

lemma error_steps_fine [simp]: "bfine w0 k (b_error_steps e rp w) = bfine w0 k w" "bfine w0 k (b_close_steps v rp w) = bfine w0 k w"
  by (simp_all add: b_error_steps_def b_close_steps_def)

lemma pull_into_fine:
  assumes w: "b_inv 0 w" and i: "rs_reader (b_stream w) = Some i" "br_byob (b_readers w i)"
    and v: "av_buffer v \<in> set (b_held w)" "view_ok (b_buffers w) v" and m: "0 < m" "m * element_size (av_kind v) \<le> av_length v"
  shows "bgood_result w (bc_pull_into u i v m rp w)"
proof (cases "buffer_at (b_buffers w) (av_buffer v)")
  case None
  then show ?thesis using w by (simp add: bc_pull_into_def get_array_buffer_detached transfer_array_buffer_def)
next
  case (Some xs)
  let ?b = "length (b_buffers w)" and ?es = "element_size (av_kind v)"
  have fw: "bfine w 0 w" using w by simp
  obtain w1 where tr: "with_transfer (av_buffer v) w = Some (Inr ?b, w1)" and w1: "w1 = w\<lparr>b_buffers := (b_buffers w)[av_buffer v := None] @ [Some xs]\<rparr>"
    "bfine w 0 w1" "limbo w1 ?b"
    by (rule with_transfer_fine [OF fw held_free [OF w v(1)]]) (use Some in \<open>auto simp: attached_def\<close>)
  have tra: "transfer_array_buffer (av_buffer v) (b_buffers w) = (Inr ?b, b_buffers w1)" using Some by (simp add: transfer_array_buffer_def w1(1))
  define d where "d = \<lparr>pi_buffer = ?b, pi_buffer_length = length xs, pi_offset = av_offset v, pi_length = av_length v,
     pi_filled = 0, pi_minimum = m * ?es, pi_element_size = ?es, pi_constructor = av_kind v, pi_reader = ReaderByob\<rparr>"
  define wait where "wait = (\<lambda>d w. b_add_request i rp (upd_bc (\<lambda>c. c\<lparr>bc_pending := bc_pending c @ [d]\<rparr>) w))"
  have at: "buffer_at (b_buffers w1) ?b = Some xs" by (simp add: w1(1) buffer_at_def nth_append)
  have w1': "w\<lparr>b_buffers := b_buffers w1\<rparr> = w1" "b_controller w1 = b_controller w" "b_stream w1 = b_stream w" by (simp_all add: w1(1))
  have d: "desc_ok (b_buffers w1) d" "pi_filled d < pi_minimum d" "pi_reader d = ReaderByob" "pi_buffer d = ?b" "\<not> limbo w ?b"
    using v(2) Some m at by (auto simp: d_def desc_ok_def view_ok_def w1(1) limbo_def)
  have i1: "rs_reader (b_stream w1) = Some i" "br_byob (b_readers w1 i)" using i by (simp_all add: w1(1))
  have wait: "bfine w 0 (wait d' w')" if "bfine w 0 w'" "desc_ok (b_buffers w') d'" "pi_filled d' < pi_minimum d'" "pi_reader d' = ReaderByob"
     "pi_buffer d' = ?b" "limbo w' ?b" "attached (b_buffers w') ?b" "b_stream w' = b_stream w1" "b_readers w' = b_readers w1" for d' w'
    unfolding wait_def using that d(5) i1 by (intro add_pending_fine) simp_all
  have eq: "bc_pull_into u i v m rp w = (if bpending w1 \<noteq> [] then Some (Inr (), wait d w1)
      else if rs_state (b_stream w1) = RsClosed then
        (case construct_view (av_kind v) ?b (av_offset v) 0 (b_buffers w1) of Inl e \<Rightarrow> Some (Inl e, w1) | Inr v \<Rightarrow> Some (Inr (), b_give rp v True w1))
      else if bc_total (b_controller w1) > 0 then
        do { (r1, d1, w2) \<leftarrow> fill_from_queue d w1;
             (case r1 of
                Inl e \<Rightarrow> Some (Inl e, w2)
              | Inr True \<Rightarrow> or_throw (convert_pull_into d1 w2)
                    (\<lambda>v w2. do { w3 \<leftarrow> bc_handle_queue_drain u (Some i) w2; Some (Inr (), b_give rp v False w3) })
              | Inr False \<Rightarrow>
                  if bc_close_requested (b_controller w2)
                  then Some (Inr (), b_error_steps insufficient_bytes rp (bc_error (Some i) insufficient_bytes w2))
                  else do { w' \<leftarrow> bc_call_pull_if_needed u (Some i) (wait d1 w2); Some (Inr (), w') }) }
      else do { w' \<leftarrow> bc_call_pull_if_needed u (Some i) (wait d w1); Some (Inr (), w') })"
    unfolding bc_pull_into_def get_array_buffer_attached [OF Some] Let_def prod.case tra sum.case w1'(1) at option.sel d_def wait_def by (rule refl)
  have wt: "bfine w 0 (wait d w1)" using wait [OF w1(2) d(1-4) w1(3)] at by (simp add: attached_def)
  consider "bpending w1 \<noteq> []" | "bpending w1 = []" "rs_state (b_stream w1) = RsClosed"
    | "bpending w1 = []" "rs_state (b_stream w1) \<noteq> RsClosed" "bc_total (b_controller w1) = 0"
    | "bpending w1 = []" "rs_state (b_stream w1) \<noteq> RsClosed" "bc_total (b_controller w1) > 0" by auto
  then show ?thesis
  proof cases
    case 2
    let ?v = "\<lparr>av_kind = av_kind v, av_buffer = ?b, av_offset = av_offset v, av_length = 0\<rparr>"
    have "construct_view (av_kind v) ?b (av_offset v) 0 (b_buffers w1) = Inr ?v" using v(2) Some at by (simp add: construct_view_def view_ok_def)
    moreover have "bfine w 0 (b_give rp ?v True w1)" using w1(3) d(5) by (intro give_fine [OF w1(2)]) simp_all
    ultimately show ?thesis using eq 2 by simp
  next
    case 4
    have nq: "pi_buffer d \<notin> set (map qe_buffer (bqueue w1))" "\<not> limbo w (pi_buffer d)" "buffer_at (b_buffers w1) (pi_buffer d) = Some xs"
      using w1(3) d(4,5) at by (auto simp: limbo_def owned_def)
    obtain n ready q' l bs where f: "fill_from_queue d w1 = Some (Inr ready, d\<lparr>pi_filled := pi_filled d + n\<rparr>,
        upd_bc (\<lambda>c. c\<lparr>bc_queue := q', bc_total := queue_size q'\<rparr>) (w1\<lparr>b_buffers := bs\<rparr>))"
      "bfine w 0 (upd_bc (\<lambda>c. c\<lparr>bc_queue := q', bc_total := queue_size q'\<rparr>) (w1\<lparr>b_buffers := bs\<rparr>))"
      "map qe_buffer q' = drop l (map qe_buffer (bqueue w1))"
      "bs = (b_buffers w1)[pi_buffer d := Some (overwrite (pi_offset d + pi_filled d) (take n (queue_bytes (b_buffers w1) (bqueue w1))) xs)]"
      "pi_filled d + n \<le> pi_length d" "\<not> ready \<longrightarrow> pi_filled d + n < pi_minimum d \<and> queue_size q' = 0" "shrinks (b_buffers w1) bs"
      using fill_from_queue_fine [OF w1(2) d(1,2) nq(3,1,2)] by metis
    define w2 where "w2 = upd_bc (\<lambda>c. c\<lparr>bc_queue := q', bc_total := queue_size q'\<rparr>) (w1\<lparr>b_buffers := bs\<rparr>)"
    define d1 where "d1 = d\<lparr>pi_filled := pi_filled d + n\<rparr>"
    have f2: "bfine w 0 w2" using f(2) by (simp add: w2_def)
    have sub: "set (map qe_buffer q') \<subseteq> set (map qe_buffer (bqueue w1))" using f(3) set_drop_subset by metis
    have lt: "?b < length (b_buffers w1)" using at by (simp add: buffer_at_def split: if_splits)
    have l2: "limbo w2 ?b" using w1(3) sub by (auto simp: limbo_def w2_def f(4) owned_def)
    obtain ys where ys: "buffer_at (b_buffers w2) ?b = Some ys" using d(4) lt by (simp add: w2_def f(4) buffer_at_update)
    have "desc_ok (b_buffers w2) d" using d(1) f(7) by (auto simp: w2_def intro: desc_ok_shrinks)
    then have d1: "desc_ok (b_buffers w2) d1" "pi_filled d1 \<le> pi_length d1" "pi_buffer d1 = ?b" "pi_reader d1 = ReaderByob"
      using d(3,4) f(5) by (auto simp: d1_def desc_ok_def)
    show ?thesis
    proof (cases ready)
      case True
      have h: "pi_buffer d1 \<notin> set (hidden (bpending w2) (bqueue w2))" using l2 d1(3) by (cases "bpending w2") (auto simp: limbo_def owned_def hidden_def)
      obtain v2 w3 where c: "convert_pull_into d1 w2 = Some (Inr v2, w3)" "bfine w 0 w3" "limbo w3 (av_buffer v2)" "\<not> limbo w (av_buffer v2)"
        using convert_fine [OF f2 d1(1,2) _ h] d1(3) ys d(5) by metis
      obtain w4 where w4: "bc_handle_queue_drain u (Some i) w3 = Some w4" "bfine w3 0 w4" by (rule handle_queue_drain_fine [OF bfine_inv [OF c(2)]])
      have "bfine w 0 (b_give rp v2 False w4)" using frame_limbo [OF w4(2) c(3)] c(4) by (intro give_fine [OF bfine_trans [OF c(2) w4(2)]]) simp_all
      then show ?thesis using eq 4 f(1) True c(1) w4(1) by (simp add: w2_def d1_def)
    next
      case False
      have "bfine w 0 (wait d1 w2)" using wait [OF f2 d1(1) _ d1(4,3) l2] f(6) False ys by (auto simp: d1_def attached_def w2_def)
      moreover have "bfine w 0 (bc_error (Some i) insufficient_bytes w2)"
        using bfine_trans [OF f2] bc_error_fine [OF bfine_inv [OF f2]] i1(1) by (simp add: w2_def)
      ultimately show ?thesis using eq 4 f(1) False by (simp add: w2_def d1_def then_pull_fine)
    qed
  qed (use eq wt in \<open>simp_all add: then_pull_fine\<close>)
qed

lemma reject_fine: "b_inv 0 w \<Longrightarrow> bgood_result w (b_reject e w)"
  by (simp add: b_reject_def b_with_promises_def split: prod.split)

lemma b_add_request_fine:
  assumes "bfine w0 0 w" "rs_reader (b_stream w) = Some i" "\<not> br_byob (b_readers w i)"
  shows "bfine w0 0 (b_add_request i rp w)"
  using set_requests_fine [OF assms(1,3)] assms(2) by (simp add: b_add_request_def)

lemma reader_read_fine:
  assumes w: "b_inv 0 w" and i: "\<not> br_byob (b_readers w i)"
  shows "bgood_result w (b_reader_read u i w)"
proof (cases "br_attached (b_readers w i)")
  case True
  then have rd: "rs_reader (b_stream w) = Some i" using w by (simp add: b_inv_def breaders_ok_def)
  obtain rp ps where rp: "b_with_promises rp_new w = (rp, w\<lparr>b_promises := ps\<rparr>)" by (cases "rp_new (b_promises w)") (simp add: b_with_promises_def)
  let ?w1 = "upd_bstream (\<lambda>s. s\<lparr>rs_disturbed := True\<rparr>) (w\<lparr>b_promises := ps\<rparr>)"
  have "b_inv 0 ?w1 = b_inv 0 (w\<lparr>b_promises := ps\<rparr>)" by (rule binv_frame)
  then have i1: "b_inv 0 ?w1" using w by simp
  have f1: "bfine w 0 ?w1" using i1 by (simp add: bfine_def)
  have "bgood_result w (bc_pull_steps u i rp ?w1)"
  proof (cases "bc_total (b_controller ?w1) = 0")
    case True
    have "bc_auto_allocate (b_controller ?w1) = None" using i1 by (simp add: b_inv_def balgs_ok_def)
    moreover have "bfine w 0 (b_add_request i rp ?w1)" using i rd by (intro b_add_request_fine [OF f1]) simp_all
    ultimately show ?thesis using True then_pull_fine by (simp add: bc_pull_steps_def)
  next
    case False
    obtain w2 where "bc_fill_read_request u i rp ?w1 = Some (Inr (), w2)" "bfine ?w1 0 w2" by (rule fill_read_request_fine [OF i1 False])
    then show ?thesis using False bfine_trans [OF f1] by (simp add: bc_pull_steps_def)
  qed
  then have "bgood_result w (b_default_reader_read u i rp (w\<lparr>b_promises := ps\<rparr>))" using f1
    by (auto simp: b_default_reader_read_def Let_def split: rs_state.split)
  then show ?thesis using True rp by (auto simp: b_reader_read_def intro!: bgood_or_throw)
qed (use reject_fine [OF w] in \<open>simp add: b_reader_read_def\<close>)

text \<open>A read into a view.  The test of the option \<open>min\<close> bounds the number of elements by the length of the view for
  every class but that of half-precision floats, where it allows twice as many: there the option must be missing.\<close>

lemma reader_read_into_fine:
  assumes w: "b_inv 0 w" and i: "br_byob (b_readers w i)"
    and v: "\<And>v. view = Some (ArrayView v) \<Longrightarrow> av_buffer v \<in> set (b_held w) \<and> view_ok (b_buffers w) v \<and> (av_kind v = F16Array \<longrightarrow> opt = None)"
  shows "bgood_result w (b_reader_read_into u i view opt w)"
proof (cases "read_min opt")
  case (Inl e)
  then show ?thesis using reject_fine [OF w] by (simp add: b_reader_read_into_def)
next
  case m: (Inr m)
  show ?thesis
  proof (cases "view_from_value view")
    case (Inl e)
    then show ?thesis using m reject_fine [OF w] by (simp add: b_reader_read_into_def)
  next
    case (Inr v')
    then have vv: "view = Some (ArrayView v')" by (cases view rule: view_from_value.cases) auto
    note v = v [OF vv]
    obtain b n off where g: "get_array_buffer v' (b_buffers w) = (b, n, off)" by (cases "get_array_buffer v' (b_buffers w)")
    obtain rp ps where rp: "b_with_promises rp_new w = (rp, w\<lparr>b_promises := ps\<rparr>)" by (cases "rp_new (b_promises w)") (simp add: b_with_promises_def)
    let ?bad = "n = 0 \<or> buffer_at (b_buffers w) b = Some [] \<or> buffer_at (b_buffers w) b = None \<or> m = 0
      \<or> has_array_length (av_kind v') \<and> n div element_size (av_kind v') < m \<or> \<not> has_array_length (av_kind v') \<and> n < m
      \<or> \<not> br_attached (b_readers w i)"
    show ?thesis
    proof (cases ?bad)
      case True
      then show ?thesis using m Inr g reject_fine [OF w] by (auto simp: b_reader_read_into_def)
    next
      case False
      then have rd: "rs_reader (b_stream w) = Some i" using w by (simp add: b_inv_def breaders_ok_def)
      have n: "n = av_length v'" using g False by (auto simp: get_array_buffer_def split: if_splits)
      have "m * element_size (av_kind v') \<le> av_length v'"
      proof (cases "has_array_length (av_kind v')")
        case True
        then have "m \<le> n div element_size (av_kind v')" using False by auto
        then show ?thesis using n by (meson div_times_less_eq_dividend le_trans mult_le_mono1)
      next
        case no: False
        show ?thesis
        proof (cases "av_kind v' = F16Array")
          case True
          have "m = 1" using m v True by (simp add: read_min_def)
          moreover have "n mod 2 = 0" "n \<noteq> 0" using v True n False by (auto simp: view_ok_def)
          ultimately show ?thesis using True n by auto
        next
          case other: False
          then have "element_size (av_kind v') = 1" using no by (auto simp: has_array_length_def)
          then show ?thesis using no False n by simp
        qed
      qed
      moreover define w1 where "w1 = upd_bstream (\<lambda>s. s\<lparr>rs_disturbed := True\<rparr>) (w\<lparr>b_promises := ps\<rparr>)"
      have "b_inv 0 w1 = b_inv 0 (w\<lparr>b_promises := ps\<rparr>)" unfolding w1_def by (rule binv_frame)
      then have i1: "b_inv 0 w1" "bfine w 0 w1" using w by (simp_all add: bfine_def w1_def)
      ultimately have "bgood_result w1 (bc_pull_into u i v' m rp w1)"
        using v i rd False by (intro pull_into_fine) (auto simp: w1_def)
      then have "bgood_result w (b_byob_reader_read u i v' m rp (w\<lparr>b_promises := ps\<rparr>))"
        using bgood_result_trans [OF i1(2)] i1(2) by (auto simp: b_byob_reader_read_def Let_def w1_def split: rs_state.split)
      then obtain r w2 where r: "b_byob_reader_read u i v' m rp (w\<lparr>b_promises := ps\<rparr>) = Some (r, w2)" "bfine w 0 w2" by (rule bgood_resultE)
      have "bgood_result w (b_reject e w2)" for e using bgood_result_trans [OF r(2) reject_fine [OF bfine_inv [OF r(2)]]] .
      then show ?thesis using m Inr g False rp r by (auto simp: b_reader_read_into_def split: sum.split)
    qed
  qed
qed

subsection \<open>Cancelling\<close>

lemma stream_cancel_fine:
  assumes w: "b_inv 0 w"
  shows "bgood_result w (b_stream_cancel u (rs_reader (b_stream w)) reason w)"
proof -
  let ?rd = "rs_reader (b_stream w)"
  define w1 where "w1 = upd_bstream (\<lambda>s. s\<lparr>rs_disturbed := True\<rparr>) w"
  have i1: "b_inv 0 w1" "bfine w 0 w1" using w by (simp_all add: bfine_def w1_def)
  show ?thesis
  proof (cases "rs_state (b_stream w)")
    case RsReadable
    define w2 where "w2 = upd_bc bc_reset_queue (bc_clear_pending (b_close_read_into_requests ?rd (b_stream_close ?rd w1)))"
    have rd: "?rd = rs_reader (b_stream w1)" by (simp add: w1_def)
    note f2 = before_cancel_fine [OF i1(1) rd w2_def]
    obtain alg where "bc_cancel_algorithm (b_controller w2) = Some alg" using f2(3) w RsReadable by (auto simp: w1_def b_inv_def balgs_ok_def)
    moreover obtain p w3 where w3: "b_source_call u (BCallCancel reason) alg w2 = Some (p, w3)" "bfine w2 0 w3"
      by (rule bgood_resultE [OF source_call_fine [OF bfine_inv [OF f2(1)]]])
    ultimately have "bc_cancel_steps u reason (b_close_read_into_requests ?rd (b_stream_close ?rd w1)) = Some (p, upd_bc bc_clear_algorithms w3)"
      by (simp add: bc_cancel_steps_def bc_cancel_def w2_def [symmetric])
    moreover have "rs_state (b_stream w3) \<noteq> RsReadable" using w3(2) f2(2) by (auto simp: bfine_def bframe_def)
    then have "bfine w3 0 (upd_bc bc_clear_algorithms w3)" using bfine_inv [OF w3(2)]
      by (simp add: bfine_def b_inv_def bc_clear_algorithms_def balgs_ok_def)
    then have "bfine w 0 (upd_bc bc_clear_algorithms w3)" using bfine_trans [OF i1(2)] bfine_trans [OF f2(1)] bfine_trans [OF w3(2)] by blast
    ultimately show ?thesis using RsReadable
      by (simp add: b_stream_cancel_def w1_def b_upon_fulfilment_def b_upon_promise_def b_with_promises_def split: prod.split)
  qed (use i1(2) in \<open>simp_all add: b_stream_cancel_def w1_def b_with_promises_def split: prod.split\<close>)
qed

lemma then_result_fine: "bgood_result w0 x \<Longrightarrow> bgood_result w0 (do { (p, w') \<leftarrow> x; Some (f p, w') })"
  by (auto simp: bgood_result_def)

lemma cancel_fine: "b_inv 0 w \<Longrightarrow> bgood_result w (b_cancel u reason w)"
  using stream_cancel_fine [of w] reject_fine [of w] by (auto simp: b_cancel_def b_refresh_reader_def intro: then_result_fine)

lemma reader_cancel_fine:
  assumes "b_inv 0 w"
  shows "bgood_result w (b_reader_cancel u i reason w)"
proof (cases "br_attached (b_readers w i)")
  case True
  then have "rs_reader (b_stream w) = Some i" using assms by (simp add: b_inv_def breaders_ok_def)
  then show ?thesis using stream_cancel_fine [OF assms] True by (auto simp: b_reader_cancel_def intro: then_result_fine)
qed (use reject_fine [OF assms] in \<open>simp add: b_reader_cancel_def\<close>)

subsection \<open>Methods of the controller and reactions\<close>

lemma enqueue_method_fine:
  assumes w: "b_inv 0 w" and v: "\<And>v. chunk = ArrayView v \<Longrightarrow> av_buffer v \<in> set (b_held w) \<and> view_ok (b_buffers w) v"
  shows "bgood_result w (bc_enqueue_method u chunk w)"
proof (cases "view_from_value (Some chunk)")
  case (Inr v')
  then have "chunk = ArrayView v'" by (cases "Some chunk" rule: view_from_value.cases) auto
  note v' = v [OF this]
  have "bgood_result w (bc_enqueue_impl u (rs_reader (b_stream w)) v' False w)"
    using w v' held_free [OF w] by (intro enqueue_impl_fine) simp_all
  then show ?thesis using Inr w by (auto simp: bc_enqueue_method_def b_refresh_reader_def split: prod.split)
qed (use w in \<open>simp add: bc_enqueue_method_def\<close>)

text \<open>Bytes from Rust come in a new buffer.\<close>

lemma enqueue_bytes_fine:
  assumes w: "b_inv 0 w"
  shows "bgood_result w (bc_enqueue_bytes u (length (b_buffers w)) skip (w\<lparr>b_buffers := b_buffers w @ [Some xs]\<rparr>))"
proof -
  let ?b = "length (b_buffers w)" and ?w = "w\<lparr>b_buffers := b_buffers w @ [Some xs]\<rparr>"
  let ?v = "\<lparr>av_kind = U8Array, av_buffer = ?b, av_offset = 0, av_length = length xs\<rparr>"
  have fw: "bfine w 0 w" using w by simp
  note a = alloc_buffer_fine [OF fw, of xs]
  have at: "buffer_at (b_buffers ?w) ?b = Some xs" by (simp add: buffer_at_def)
  have "?b \<notin> set (hidden (bpending w) (bqueue w))"
    using a(2) by (cases "bpending w") (auto simp: limbo_def owned_def hidden_def)
  then have "bgood_result w (bc_enqueue_impl u (rs_reader (b_stream ?w)) ?v skip ?w)" using a at
    by (intro enqueue_impl_fine [OF a(1)]) (auto simp: view_ok_def limbo_def)
  then show ?thesis using at a(1) by (auto simp: bc_enqueue_bytes_def b_refresh_reader_def)
qed

lemma close_method_fine: "b_inv 0 w \<Longrightarrow> bfine w 0 (snd (bc_close_method w))"
  using bc_close_fine [of w] by (simp add: bc_close_method_def b_refresh_reader_def)

lemma reaction_fine:
  assumes w: "b_inv 0 w"
  obtains w' where "b_run_reaction u r result w = Some w'" "b_inv 0 w'"
proof -
  have pull: "\<exists>w''. bc_call_pull_if_needed u rd w' = Some w'' \<and> b_inv 0 w''" if "b_inv 0 w'" for rd w'
    using call_pull_fine [OF that] bfine_inv by metis
  have err: "b_inv 0 (bc_error (rs_reader (b_stream w)) e w)" for e using bc_error_fine [OF w refl] by (rule bfine_inv)
  define w1 where "w1 = upd_bc (\<lambda>c. c\<lparr>bc_pulling := False\<rparr>) w"
  have i1: "b_inv 0 w1" "b_inv 0 (upd_bc (\<lambda>c. c\<lparr>bc_pull_again := False\<rparr>) w1)" using w by (simp_all add: w1_def b_inv_def)
  have "\<exists>w'. b_run_reaction u r result w = Some w' \<and> b_inv 0 w'"
  proof (cases r)
    case ROnStart
    then show ?thesis using w pull [of "upd_bc (\<lambda>c. c\<lparr>bc_started := True\<rparr>) w"] err by (cases result) (simp_all add: b_on_start_def b_refresh_reader_def)
  next
    case ROnPull
    then show ?thesis using i1 pull [OF i1(2)] err by (cases result) (simp_all add: b_on_pull_def b_refresh_reader_def w1_def [symmetric] Let_def)
  next
    case (ROnCancel rp)
    then show ?thesis using w by (simp add: b_on_cancel_def)
  qed
  then show thesis using that by blast
qed

lemma set_up_fine:
  assumes "b_inv 0 w"
  shows "bgood_result w (set_up_byte_controller u start w)"
proof -
  have "bgood_result w (case start of SourceReturnUndefined \<Rightarrow> Some (Ret Undefined, w) | SourceFunction \<Rightarrow> u BCallStart w)"
    using user_fine assms by (cases start) simp_all
  then obtain out w1 where "(case start of SourceReturnUndefined \<Rightarrow> Some (Ret Undefined, w) | SourceFunction \<Rightarrow> u BCallStart w) = Some (out, w1)" "bfine w 0 w1"
    by (rule bgood_resultE)
  then show ?thesis by (cases out) (simp_all add: set_up_byte_controller_def b_with_promises_def b_upon_promise_def split: prod.split)
qed

end

end
