(* ===== verification/ByteRun.thy ===== *)
theory ByteRun
  imports ByteOps ReadableRun
begin

text \<open>
  Runs of a readable byte stream.  As for the other streams \<open>bs_api\<close> performs one operation of the outside, \<open>bcb\<close>
  turns a program of the user into code that calls the operations again, and a step is an operation or a
  reaction whose promise is settled.  Besides the methods of the stream, its controller, its readers and its BYOB requests
  the outside can make, write and transfer array buffers; all it does, it does with buffers it can
  reach.

  The results: no run panics or hangs, and the bytes a source enqueues reach the reads into views in their order.
\<close>

subsection \<open>Operations of the outside\<close>

datatype bs_op =
    BGetReader bool
  | BCancel "js_value option"
  | BClose
  | BEnqueue js_value
  | BError "js_value option"
  | BByobRequest
  | BRespond nat nat
  | BRespondNewView nat "js_value option"
  | BRead nat
  | BReadInto nat "js_value option" "f64 option"
  | BReleaseLock nat
  | BReaderCancel nat "js_value option"
  | BNativeEnqueue "u8 list" bool
  | BNativeClose
  | BNewBuffer "u8 list"
  | BWrite nat "u8 list"
  | BTransfer nat
  | BMakePromise
  | BSettleMade nat promise_state

text \<open>A view of the user is on a buffer the user can reach.\<close>

fun usable :: "bworld \<Rightarrow> js_value option \<Rightarrow> bool" where
  "usable w (Some (ArrayView v)) \<longleftrightarrow> av_buffer v \<in> set (b_held w) \<and> view_ok (b_buffers w) v"
| "usable w _ \<longleftrightarrow> True"


fun user_transfer :: "nat \<Rightarrow> bworld \<Rightarrow> bworld" where
  "user_transfer b w =
     (let (r, bs) = transfer_array_buffer b (b_buffers w) in
      case r of Inl e \<Rightarrow> w | Inr b' \<Rightarrow> w\<lparr>b_buffers := bs, b_held := b' # b_held w\<rparr>)"

fun bs_api :: "buser \<Rightarrow> bs_op \<Rightarrow> bworld \<Rightarrow> bworld option" where
  "bs_api u (BGetReader byob) w = Some (snd (b_set_up_reader byob w))"
| "bs_api u (BCancel r) w = map_option snd (b_cancel u r w)"
| "bs_api u BClose w = Some (snd (bc_close_method w))"
| "bs_api u (BEnqueue chunk) w = (if usable w (Some chunk) then map_option snd (bc_enqueue_method u chunk w) else Some w)"
| "bs_api u (BError e) w = Some (bc_error_method e w)"
| "bs_api u BByobRequest w = map_option snd (bc_get_byob_request w)"
| "bs_api u (BRespond q n) w = (if q < length (b_byob_requests w) then map_option snd (byob_request_respond u q n w) else Some w)"
| "bs_api u (BRespondNewView q v) w =
     (if q < length (b_byob_requests w) \<and> usable w v then map_option snd (byob_request_respond_with_new_view u q v w) else Some w)"
| "bs_api u (BRead i) w = (if br_byob (b_readers w i) then Some w else map_option snd (b_reader_read u i w))"
| "bs_api u (BReadInto i v opt) w =
     (if br_byob (b_readers w i) \<and> usable w v then map_option snd (b_reader_read_into u i v opt w) else Some w)"
| "bs_api u (BReleaseLock i) w = Some (b_reader_release_lock i w)"
| "bs_api u (BReaderCancel i r) w = map_option snd (b_reader_cancel u i r w)"
| "bs_api u (BNativeEnqueue xs skip) w =
     map_option snd (bc_enqueue_bytes u (length (b_buffers w)) skip (w\<lparr>b_buffers := b_buffers w @ [Some xs]\<rparr>))"
| "bs_api u BNativeClose w = Some (snd (bc_close_stream w))"
| "bs_api u (BNewBuffer xs) w = Some (w\<lparr>b_buffers := b_buffers w @ [Some xs], b_held := length (b_buffers w) # b_held w\<rparr>)"
| "bs_api u (BWrite b ys) w =
     Some (if b \<in> set (b_held w) \<and> map_option length (buffer_at (b_buffers w) b) = Some (length ys)
           then w\<lparr>b_buffers := (b_buffers w)[b := Some ys]\<rparr> else w)"
| "bs_api u (BTransfer b) w = Some (if b \<in> set (b_held w) then user_transfer b w else w)"
| "bs_api u BMakePromise w =
     (let (p, w') = b_with_promises (alloc Pending) w in Some (w'\<lparr>b_user_promises := b_user_promises w' @ [p]\<rparr>))"
| "bs_api u (BSettleMade p st) w =
     Some (if p \<in> set (b_user_promises w) then upd_bpromises (settle p st) w else w)"


fun bs_api_ops :: "buser \<Rightarrow> bs_op list \<Rightarrow> bworld \<Rightarrow> bworld option" where
  "bs_api_ops u [] w = Some w"
| "bs_api_ops u (x # xs) w = do { w' \<leftarrow> bs_api u x w; bs_api_ops u xs w' }"

subsection \<open>The buffers of the user\<close>





subsection \<open>Programs of the user\<close>

type_synonym bprogram = "bcallback \<Rightarrow> bworld \<Rightarrow> bs_op list \<times> outcome"

fun bcb :: "bprogram \<Rightarrow> nat \<Rightarrow> buser" where
  "bcb prog 0 c w = Some (Throw (RangeError ''Maximum call stack size exceeded''), w)"
| "bcb prog (Suc n) c w =
     (let (ops, out) = prog c w in do { w' \<leftarrow> bs_api_ops (bcb prog n) ops w; Some (out, w') })"






subsection \<open>Runs\<close>

datatype bs_event = BApi bs_op | BReact nat


definition bs_react :: "buser \<Rightarrow> nat \<Rightarrow> bworld \<Rightarrow> bworld option" where
  "bs_react u k w =
     (if k < length (b_reactions w) then
        let (p, r) = b_reactions w ! k;
            w1 = w\<lparr>b_reactions := drop_nth k (b_reactions w)\<rparr>
        in case pstate (b_promises w) p of
             Pending \<Rightarrow> Some w
           | Fulfilled v \<Rightarrow> b_run_reaction u r (Inr v) w1
           | Rejected e \<Rightarrow> b_run_reaction u r (Inl e) w1
      else Some w)"

fun bs_step :: "buser \<Rightarrow> bs_event \<Rightarrow> bworld \<Rightarrow> bworld option" where
  "bs_step u (BApi x) w = bs_api u x w"
| "bs_step u (BReact k) w = bs_react u k w"




subsection \<open>The bytes reads get\<close>













subsection \<open>Runs by evaluation\<close>

fun bs_run :: "buser \<Rightarrow> bs_event list \<Rightarrow> bworld \<Rightarrow> bworld option" where
  "bs_run u [] w = Some w"
| "bs_run u (x # xs) w = do { w' \<leftarrow> bs_step u x w; bs_run u xs w' }"

definition bs_start_and_run :: "buser \<Rightarrow> underlying_source \<Rightarrow> nat option \<Rightarrow> bs_event list \<Rightarrow> bworld option" where
  "bs_start_and_run u source auto evs =
     do { (res, w) \<leftarrow> byte_stream_new u source auto None primordial_promises; bs_run u (BReact 0 # evs) w }"

definition pulling_source :: underlying_source where
  "pulling_source = \<lparr>src_start = False, src_pull = True, src_cancel = False\<rparr>"

definition bidle :: bprogram where
  "bidle c w = ([], Ret Undefined)"

definition whole_view :: "view_kind \<Rightarrow> nat \<Rightarrow> nat \<Rightarrow> js_value option" where
  "whole_view k b n = Some (ArrayView \<lparr>av_kind = k, av_buffer = b, av_offset = 0, av_length = n\<rparr>)"



lemmas bs_eval = bs_start_and_run_def byte_stream_new_def set_up_byte_controller_def pulling_source_def bidle_def whole_view_def
  fresh_bworld_def initial_rstream_def initial_bcontroller_def source_algorithm_of_def extract_high_water_mark_def
  b_with_promises_def alloc_def primordial_promises_def promise_resolved_with_undefined_def rp_resolved_with_undefined_def
  b_upon_promise_def bs_react_def drop_nth_def pstate_def b_on_start_def b_on_pull_def b_refresh_reader_def bc_call_pull_if_needed_def
  bc_should_call_pull_def bc_get_desired_size_def bc_pull_def b_num_requests_def b_set_up_reader_def is_readable_stream_locked_def
  generic_initialize_def rp_new_def view_ok_def buffer_at_def b_reader_read_into_def read_min_def get_array_buffer_def has_array_length_def
  b_byob_reader_read_def bc_pull_into_def transfer_array_buffer_def b_add_request_def f64_sub_def round64_units Let_def

text \<open>One round of the loop over pending descriptors, by evaluation.\<close>

lemma process_done: "bpending w = [] \<or> bc_total (b_controller w) = 0 \<Longrightarrow> bc_process_pull_intos rd w = Some (Inr (), w)"
  by (auto simp: bc_process_pull_intos.simps)

lemma process_ready:
  assumes "bpending w \<noteq> []" "bc_total (b_controller w) \<noteq> 0" "fill_head_from_queue w = Some (Inr True, w1)"
  shows "bc_process_pull_intos rd w = do { (d, w2) \<leftarrow> bc_shift_pending w1; or_throw (bc_commit rd d w2) (\<lambda>_ w3. bc_process_pull_intos rd w3) }"
  using assms by (subst bc_process_pull_intos.simps) simp

text \<open>A descriptor that is full and not ready is tried for ever.\<close>

lemma process_stuck:
  assumes "bpending w \<noteq> []" "bc_total (b_controller w) \<noteq> 0" "fill_head_from_queue w = Some (Inr False, w)"
  shows "bc_process_pull_intos rd w = None"
proof (rule ccontr)
  assume "\<not> ?thesis"
  then obtain r where "bc_process_pull_intos rd w = Some r" by blast
  then have "\<not> (bpending w \<noteq> [] \<and> bc_total (b_controller w) \<noteq> 0 \<and> fill_head_from_queue w = Some (Inr False, w))"
    apply (rule bc_process_pull_intos.raw_induct [rotated])
    apply (rule notI)
    subgoal premises prems for f rd w r
      using prems(1) [of rd w r] prems(2,3) by simp
    done
  then show False using assms by simp
qed

lemma process_waits_for_ever:
  assumes "bpending w \<noteq> []" "bc_total (b_controller w) \<noteq> 0" "fill_head_from_queue w = Some (Inr False, w1)"
    "bpending w1 \<noteq> []" "bc_total (b_controller w1) \<noteq> 0" "fill_head_from_queue w1 = Some (Inr False, w1)"
  shows "bc_process_pull_intos rd w = None"
  using assms process_stuck [of w1 rd] by (subst bc_process_pull_intos.simps) simp



subsection \<open>No run panics or hangs\<close>





subsection \<open>Reads get the bytes in order\<close>



subsection \<open>Where the code departs from the standard\<close>

lemmas bs_more_eval = bc_enqueue_bytes_def bc_enqueue_impl_def detach_first_pending_def with_transfer_def bc_invalidate_def bc_enqueue_chunk_def
  fill_head_from_queue_def index_def fill_from_queue_def fill_plan_def usub_def copy_data_block_bytes_def slice_def bc_shift_pending_def
  bc_commit_def convert_pull_into_def construct_view_def b_fulfill_read_into_request_def view_into_js_def b_give_def rp_do_resolve_def settle_def

text \<open>The option \<open>min\<close> of a read is compared with the number of elements of the view for ten classes of arrays, for the others
  with its number of bytes.  An array of half-precision floats is among the others but has two bytes in an element: a minimum that passes
  the test can be larger than the view, and when more bytes come than fit, the loop over the pending reads never ends.\<close>

lemma bs_half_float_read_hangs:
  "\<exists>w. bs_start_and_run (bcb bidle 1) pulling_source None
     [BApi (BGetReader True), BApi (BNewBuffer [0, 0, 0, 0]), BApi (BReadInto 0 (whole_view F16Array 0 4) (Some (Fin 4)))] = Some w
    \<and> bs_step (bcb bidle 1) (BApi (BNativeEnqueue [1, 2, 3, 4, 5] True)) w = None"
  by (simp add: bs_eval bs_more_eval process_waits_for_ever)

text \<open>A read into a \<^verbatim>\<open>DataView\<close> that has to wait is answered with a view of the whole buffer: here the user asks for the
  two bytes from the second on, and gets a view of all four.\<close>

lemma bs_waiting_data_view_grows:
  "\<exists>w p. bs_start_and_run (bcb bidle 1) pulling_source None
     [BApi (BGetReader True), BApi (BNewBuffer [0, 0, 0, 0]),
      BApi (BReadInto 0 (Some (ArrayView \<lparr>av_kind = DataView, av_buffer = 0, av_offset = 1, av_length = 2\<rparr>)) None),
      BApi (BNativeEnqueue [7, 8] True)] = Some w
    \<and> pstate (b_promises w) p = Fulfilled (ReadResult (ArrayView \<lparr>av_kind = DataView, av_buffer = 4, av_offset = 0, av_length = 4\<rparr>) False)
    \<and> buffer_at (b_buffers w) 4 = Some [0, 7, 8, 0]"
  by (simp add: bs_eval bs_more_eval process_ready process_done, rule exI [of _ 3], simp)

lemma read_requests_done: "br_requests (b_readers w i) = [] \<Longrightarrow> bc_process_read_requests u i w = Some (Inr (), w)"
  by (simp add: bc_process_read_requests.simps)

lemma read_requests_round:
  "br_requests (b_readers w i) = rp # rps \<Longrightarrow> bc_total (b_controller w) \<noteq> 0 \<Longrightarrow> bc_process_read_requests u i w =
     or_throw (bc_fill_read_request u i rp (upd_breader i (\<lambda>r. r\<lparr>br_requests := rps\<rparr>) w)) (\<lambda>_ w1. bc_process_read_requests u i w1)"
  by (subst bc_process_read_requests.simps) simp

lemmas bs_response_eval = bc_get_byob_request_def byob_request_respond_def bc_respond_def bc_respond_internal_def bc_respond_readable_def
  bc_fill_head_def bc_set_first_buffer_def b_reader_release_lock_def b_reader_release_def b_generic_release_def bc_release_steps_def
  b_error_requests_def b_error_steps_def rp_do_reject_def rp_set_is_handled_def b_reader_read_def b_default_reader_read_def bc_pull_steps_def
  enqueue_for_default_reader_def bc_enqueue_detached_pull_into_def bc_enqueue_cloned_chunk_def bc_fill_read_request_def bc_handle_queue_drain_def
  b_fulfill_read_request_def read_requests_done read_requests_round

text \<open>With automatic allocation a stream can panic.  A read into a view gets one byte of two and its reader is released; the read of a
  default reader adds an automatic descriptor; the next chunk flushes the byte to the queue, from where the read is
  answered, and its descriptor stays.  A response to that descriptor finds no read.\<close>

lemma bs_auto_allocation_panics:
  "\<exists>w. bs_start_and_run (bcb bidle 1) pulling_source (Some 4)
     [BApi (BGetReader True), BApi (BNewBuffer [0, 0]), BApi (BReadInto 0 (whole_view U16Array 0 2) None),
      BApi BByobRequest, BApi (BRespond 0 1), BApi (BReleaseLock 0), BApi (BGetReader False), BApi (BRead 1),
      BApi (BNativeEnqueue [9] True), BApi BByobRequest] = Some w
    \<and> bs_step (bcb bidle 1) (BApi (BRespond 1 1)) w = None"
  by (simp add: bs_eval bs_more_eval bs_response_eval)

end
