(* ===== verification/Encoding.thy ===== *)
theory Encoding
  imports Prelude
begin

text \<open>
  \<^verbatim>\<open>libs/llrt_encoding/src/lib.rs\<close>: the encodings by which the runtime turns bytes into strings and back.
  A string is the list of its code points; the UTF-8 and UTF-16 conversions of Rust's standard
  library are written out.  The hexadecimal and Base64 codecs are third-party code: they are the
  functions of a record \<open>codecs\<close>, from bytes to ASCII bytes and back, that is passed as an argument.
\<close>

record codecs =
  hex_encode :: "u8 list \<Rightarrow> u8 list"
  hex_decode :: "u8 list \<Rightarrow> ustring + u8 list"
  b64_encode :: "u8 list \<Rightarrow> u8 list"
  b64_forgiving_decode :: "u8 list \<Rightarrow> ustring + u8 list"
  b64_decode :: "u8 list \<Rightarrow> ustring + u8 list"
  b64_url_encode :: "u8 list \<Rightarrow> u8 list"
  b64_url_decode :: "u8 list \<Rightarrow> ustring + u8 list"

datatype encoder = Hex | Base64 | Windows1252 | Utf8 | Utf16le | Utf16be

datatype endian = Little | Big

definition REPLACEMENT :: nat where
  "REPLACEMENT = 0xFFFD"

subsection \<open>UTF-8 and UTF-16 of the standard library\<close>

definition is_scalar :: "nat \<Rightarrow> bool" where
  "is_scalar c \<longleftrightarrow> c < 0xD800 \<or> 0xE000 \<le> c \<and> c < 0x110000"

text \<open>\<^verbatim>\<open>String::into_bytes\<close>: a string is stored in UTF-8.\<close>

definition utf8_char :: "nat \<Rightarrow> u8 list" where
  "utf8_char c =
     (if c < 0x80 then [of_nat c]
      else if c < 0x800 then [of_nat (0xC0 + c div 64), of_nat (0x80 + c mod 64)]
      else if c < 0x10000 then
        [of_nat (0xE0 + c div 4096), of_nat (0x80 + c div 64 mod 64), of_nat (0x80 + c mod 64)]
      else [of_nat (0xF0 + c div 262144), of_nat (0x80 + c div 4096 mod 64),
            of_nat (0x80 + c div 64 mod 64), of_nat (0x80 + c mod 64)])"

definition into_bytes :: "ustring \<Rightarrow> u8 list" where
  "into_bytes s = concat (map utf8_char s)"

text \<open>
  \<^verbatim>\<open>Utf8Chunks\<close>: what stands at the start of the bytes, a character or an ill-formed sequence, and
  its length.  A sequence is given up at the first byte that cannot continue it.
\<close>

definition byte_at :: "u8 list \<Rightarrow> nat \<Rightarrow> u8" where
  "byte_at bs i = (if i < length bs then bs ! i else 0)"

definition is_cont :: "u8 \<Rightarrow> bool" where
  "is_cont b \<longleftrightarrow> b AND 0xC0 = 0x80"

definition second3 :: "u8 \<Rightarrow> u8 \<Rightarrow> bool" where
  "second3 b c \<longleftrightarrow> is_cont c \<and> (b = 0xE0 \<longrightarrow> 0xA0 \<le> c) \<and> (b = 0xED \<longrightarrow> c \<le> 0x9F)"

definition second4 :: "u8 \<Rightarrow> u8 \<Rightarrow> bool" where
  "second4 b c \<longleftrightarrow> is_cont c \<and> (b = 0xF0 \<longrightarrow> 0x90 \<le> c) \<and> (b = 0xF4 \<longrightarrow> c \<le> 0x8F)"

definition low6 :: "u8 \<Rightarrow> nat" where
  "low6 b = unat b mod 64"

definition utf8_next :: "u8 list \<Rightarrow> nat option \<times> nat" where
  "utf8_next bs =
     (let b = byte_at bs 0; b1 = byte_at bs 1; b2 = byte_at bs 2; b3 = byte_at bs 3 in
      if b < 0x80 then (Some (unat b), 1)
      else if 0xC2 \<le> b \<and> b \<le> 0xDF then
        (if is_cont b1 then (Some (unat b mod 32 * 64 + low6 b1), 2) else (None, 1))
      else if 0xE0 \<le> b \<and> b \<le> 0xEF then
        (if \<not> second3 b b1 then (None, 1)
         else if \<not> is_cont b2 then (None, 2)
         else (Some (unat b mod 16 * 4096 + low6 b1 * 64 + low6 b2), 3))
      else if 0xF0 \<le> b \<and> b \<le> 0xF4 then
        (if \<not> second4 b b1 then (None, 1)
         else if \<not> is_cont b2 then (None, 2)
         else if \<not> is_cont b3 then (None, 3)
         else (Some (unat b mod 8 * 262144 + low6 b1 * 4096 + low6 b2 * 64 + low6 b3), 4))
      else (None, 1))"

lemma utf8_next_bounds:
  "utf8_next bs = (c, n) \<Longrightarrow> 1 \<le> n \<and> n \<le> 4"
  by (auto simp: utf8_next_def Let_def split: if_splits)

function from_utf8_lossy :: "u8 list \<Rightarrow> ustring" where
  "from_utf8_lossy bs =
     (if bs = [] then []
      else (case utf8_next bs of (c, n) \<Rightarrow>
        (case c of Some c \<Rightarrow> c | None \<Rightarrow> REPLACEMENT) # from_utf8_lossy (drop n bs)))"
  by pat_completeness auto
termination
  by (relation "measure length") (auto dest: utf8_next_bounds [OF sym])

declare from_utf8_lossy.simps [simp del]

function from_utf8 :: "u8 list \<Rightarrow> ustring option" where
  "from_utf8 bs =
     (if bs = [] then Some []
      else (case utf8_next bs of (c, n) \<Rightarrow>
        (case c of None \<Rightarrow> None | Some c \<Rightarrow> map_option ((#) c) (from_utf8 (drop n bs)))))"
  by pat_completeness auto
termination
  by (relation "measure length") (auto dest: utf8_next_bounds [OF sym])

declare from_utf8.simps [simp del]

text \<open>\<^verbatim>\<open>str::encode_utf16\<close> and \<^verbatim>\<open>char::decode_utf16\<close>.\<close>

definition utf16_char :: "nat \<Rightarrow> u16 list" where
  "utf16_char c =
     (if c < 0x10000 then [of_nat c]
      else [of_nat (0xD800 + (c - 0x10000) div 1024), of_nat (0xDC00 + (c - 0x10000) mod 1024)])"

definition encode_utf16 :: "ustring \<Rightarrow> u16 list" where
  "encode_utf16 s = concat (map utf16_char s)"

fun decode_utf16 :: "u16 list \<Rightarrow> nat option list" where
  "decode_utf16 [] = []"
| "decode_utf16 (u # us) =
     (if u < 0xD800 \<or> 0xE000 \<le> u then Some (unat u) # decode_utf16 us
      else if 0xDC00 \<le> u then None # decode_utf16 us
      else (case us of
          [] \<Rightarrow> [None]
        | v # vs \<Rightarrow>
            if v < 0xDC00 \<or> 0xE000 \<le> v then None # decode_utf16 (v # vs)
            else Some (0x10000 + unat u mod 1024 * 1024 + unat v mod 1024) # decode_utf16 vs))"

definition from_utf16_lossy :: "u16 list \<Rightarrow> ustring" where
  "from_utf16_lossy us = map (\<lambda>c. case c of Some c \<Rightarrow> c | None \<Rightarrow> REPLACEMENT) (decode_utf16 us)"

definition from_utf16 :: "u16 list \<Rightarrow> ustring option" where
  "from_utf16 us = (if None \<in> set (decode_utf16 us) then None else Some (from_utf16_lossy us))"

definition u16_from_le_bytes :: "u8 \<Rightarrow> u8 \<Rightarrow> u16" where
  "u16_from_le_bytes a b = of_nat (unat a + 256 * unat b)"

definition u16_from_be_bytes :: "u8 \<Rightarrow> u8 \<Rightarrow> u16" where
  "u16_from_be_bytes a b = of_nat (256 * unat a + unat b)"

definition u16_to_le_bytes :: "u16 \<Rightarrow> u8 list" where
  "u16_to_le_bytes u = [of_nat (unat u mod 256), of_nat (unat u div 256)]"

definition u16_to_be_bytes :: "u16 \<Rightarrow> u8 list" where
  "u16_to_be_bytes u = [of_nat (unat u div 256), of_nat (unat u mod 256)]"

text \<open>\<^verbatim>\<open>as_chunks::<2>().0\<close>: the pairs; an odd last byte is left out.\<close>

fun pairs :: "(u8 \<Rightarrow> u8 \<Rightarrow> u16) \<Rightarrow> u8 list \<Rightarrow> u16 list" where
  "pairs f (a # b # bs) = f a b # pairs f bs"
| "pairs f bs = []"

subsection \<open>From bytes\<close>

definition bytes_to_hex :: "codecs \<Rightarrow> u8 list \<Rightarrow> u8 list" where
  "bytes_to_hex k bytes = hex_encode k bytes"

definition bytes_from_hex :: "codecs \<Rightarrow> u8 list \<Rightarrow> ustring + u8 list" where
  "bytes_from_hex k hex_bytes = hex_decode k hex_bytes"

text \<open>\<^verbatim>\<open>memchr2_iter\<close>: the positions of the two characters in which the URL-safe alphabet differs.\<close>

definition url_safe_byte_positions :: "u8 list \<Rightarrow> nat list" where
  "url_safe_byte_positions bytes = filter (\<lambda>i. bytes ! i = 0x2D \<or> bytes ! i = 0x5F) [0..<length bytes]"

fun replace_positions :: "nat list \<Rightarrow> u8 list \<Rightarrow> u8 list option" where
  "replace_positions [] bytes = Some bytes"
| "replace_positions (pos # ps) bytes =
     do { b \<leftarrow> index bytes pos;
          c \<leftarrow> (if b = 0x2D then Some 0x2B else if b = 0x5F then Some 0x2F else None);
          bytes \<leftarrow> store bytes pos c;
          replace_positions ps bytes }"

definition bytes_from_b64 :: "codecs \<Rightarrow> u8 list \<Rightarrow> (ustring + u8 list) option" where
  "bytes_from_b64 k bytes =
     (if url_safe_byte_positions bytes = [] then Some (b64_forgiving_decode k bytes)
      else map_option (b64_forgiving_decode k) (replace_positions (url_safe_byte_positions bytes) bytes))"

definition bytes_from_b64_strict :: "codecs \<Rightarrow> u8 list \<Rightarrow> ustring + u8 list" where
  "bytes_from_b64_strict k bytes = b64_decode k bytes"

definition bytes_to_b64_string :: "codecs \<Rightarrow> u8 list \<Rightarrow> ustring" where
  "bytes_to_b64_string k bytes = map unat (b64_encode k bytes)"

definition bytes_to_b64_url_safe_string :: "codecs \<Rightarrow> u8 list \<Rightarrow> ustring" where
  "bytes_to_b64_url_safe_string k bytes = map unat (b64_url_encode k bytes)"

definition bytes_from_b64_url_safe :: "codecs \<Rightarrow> u8 list \<Rightarrow> ustring + u8 list" where
  "bytes_from_b64_url_safe k bytes = b64_url_decode k bytes"

definition bytes_to_b64 :: "codecs \<Rightarrow> u8 list \<Rightarrow> u8 list" where
  "bytes_to_b64 k bytes = b64_encode k bytes"

definition bytes_to_hex_string :: "codecs \<Rightarrow> u8 list \<Rightarrow> ustring" where
  "bytes_to_hex_string k bytes = map unat (hex_encode k bytes)"

text \<open>The text of the errors of \<^verbatim>\<open>from_utf8\<close> and \<^verbatim>\<open>from_utf16\<close> belongs to the standard library; no code reads it.\<close>

definition bytes_to_utf8_string :: "u8 list \<Rightarrow> bool \<Rightarrow> ustring + ustring" where
  "bytes_to_utf8_string bytes lossy =
     (if lossy then Inr (from_utf8_lossy bytes)
      else (case from_utf8 bytes of Some s \<Rightarrow> Inr s | None \<Rightarrow> Inl (str ''invalid utf-8'')))"

definition index_windows_1252 :: "u8 \<Rightarrow> nat" where
  "index_windows_1252 byte =
     (case map_of
        [(0x80, 0x20AC), (0x82, 0x201A), (0x83, 0x0192), (0x84, 0x201E), (0x85, 0x2026), (0x86, 0x2020),
         (0x87, 0x2021), (0x88, 0x02C6), (0x89, 0x2030), (0x8A, 0x0160), (0x8B, 0x2039), (0x8C, 0x0152),
         (0x8E, 0x017D), (0x91, 0x2018), (0x92, 0x2019), (0x93, 0x201C), (0x94, 0x201D), (0x95, 0x2022),
         (0x96, 0x2013), (0x97, 0x2014), (0x98, 0x02DC), (0x99, 0x2122), (0x9A, 0x0161), (0x9B, 0x203A),
         (0x9C, 0x0153), (0x9E, 0x017E), (0x9F, 0x0178)] byte of
        Some c \<Rightarrow> c
      | None \<Rightarrow> unat byte)"

definition bytes_to_windows1252_string :: "u8 list \<Rightarrow> ustring" where
  "bytes_to_windows1252_string bytes = map index_windows_1252 bytes"

definition bytes_to_utf16_string :: "u8 list \<Rightarrow> endian \<Rightarrow> bool \<Rightarrow> ustring + ustring" where
  "bytes_to_utf16_string bytes endian lossy =
     (if \<not> lossy \<and> length bytes mod 2 \<noteq> 0 then Inl (str ''Input byte slice length must be even'')
      else
        let data16 = (case endian of Little \<Rightarrow> pairs u16_from_le_bytes bytes | Big \<Rightarrow> pairs u16_from_be_bytes bytes) in
        (case (if lossy then Some (from_utf16_lossy data16) else from_utf16 data16) of
           None \<Rightarrow> Inl (str ''invalid utf-16'')
         | Some result \<Rightarrow>
             if lossy \<and> length bytes mod 2 \<noteq> 0 \<and> (data16 = [] \<or> \<not> (0xD800 \<le> last data16 \<and> last data16 \<le> 0xDBFF))
             then Inr (result @ [REPLACEMENT])
             else Inr result))"

subsection \<open>Encoders\<close>

definition ENCODING_MAP :: "(ustring \<times> encoder) list" where
  "ENCODING_MAP = map (\<lambda>(s, e). (str s, e))
     [(''buffer'', Utf8), (''hex'', Hex), (''base64'', Base64),
      (''unicode-1-1-utf-8'', Utf8), (''unicode11utf8'', Utf8), (''unicode20utf8'', Utf8), (''utf-8'', Utf8),
      (''utf8'', Utf8), (''x-unicode20utf8'', Utf8),
      (''csunicode'', Utf16le), (''iso-10646-ucs-2'', Utf16le), (''ucs-2'', Utf16le), (''ucs2'', Utf16le),
      (''unicode'', Utf16le), (''unicodefeff'', Utf16le), (''utf-16'', Utf16le), (''utf-16le'', Utf16le),
      (''utf16le'', Utf16le), (''unicodefffe'', Utf16be), (''utf-16be'', Utf16be),
      (''ansi_x3.4-1968'', Windows1252), (''ascii'', Windows1252), (''cp1252'', Windows1252),
      (''cp819'', Windows1252), (''csisolatin1'', Windows1252), (''ibm819'', Windows1252),
      (''iso-8859-1'', Windows1252), (''iso-ir-100'', Windows1252), (''iso8859-1'', Windows1252),
      (''iso88591'', Windows1252), (''iso_8859-1'', Windows1252), (''iso_8859-1:1987'', Windows1252),
      (''l1'', Windows1252), (''latin1'', Windows1252), (''us-ascii'', Windows1252),
      (''windows-1252'', Windows1252), (''x-cp1252'', Windows1252)]"

definition encoder_from_str :: "ustring \<Rightarrow> ustring + encoder" where
  "encoder_from_str encoding =
     (case map_of ENCODING_MAP (map ascii_lower (trim_matches is_ascii_whitespace encoding)) of
        Some e \<Rightarrow> Inr e
      | None \<Rightarrow> Inl (str ''The \"'' @ encoding @ str ''\" encoding is not supported''))"

definition encoder_from_optional_str :: "ustring option \<Rightarrow> ustring + encoder" where
  "encoder_from_optional_str encoding =
     (case encoding of None \<Rightarrow> Inr Utf8 | Some s \<Rightarrow> encoder_from_str s)"

definition encode_to_string :: "codecs \<Rightarrow> encoder \<Rightarrow> u8 list \<Rightarrow> bool \<Rightarrow> ustring + ustring" where
  "encode_to_string k e bytes lossy =
     (case e of
        Hex \<Rightarrow> Inr (bytes_to_hex_string k bytes)
      | Base64 \<Rightarrow> Inr (bytes_to_b64_string k bytes)
      | Utf8 \<Rightarrow> bytes_to_utf8_string bytes lossy
      | Windows1252 \<Rightarrow> Inr (bytes_to_windows1252_string bytes)
      | Utf16le \<Rightarrow> bytes_to_utf16_string bytes Little lossy
      | Utf16be \<Rightarrow> bytes_to_utf16_string bytes Big lossy)"

definition encode_bytes :: "codecs \<Rightarrow> encoder \<Rightarrow> u8 list \<Rightarrow> u8 list" where
  "encode_bytes k e bytes =
     (case e of Hex \<Rightarrow> bytes_to_hex k bytes | Base64 \<Rightarrow> bytes_to_b64 k bytes | _ \<Rightarrow> bytes)"

definition decode_bytes :: "codecs \<Rightarrow> encoder \<Rightarrow> u8 list \<Rightarrow> (ustring + u8 list) option" where
  "decode_bytes k e bytes =
     (case e of Hex \<Rightarrow> Some (bytes_from_hex k bytes) | Base64 \<Rightarrow> bytes_from_b64 k bytes | _ \<Rightarrow> Some (Inr bytes))"

definition decode_from_string :: "codecs \<Rightarrow> encoder \<Rightarrow> ustring \<Rightarrow> (ustring + u8 list) option" where
  "decode_from_string k e s =
     (case e of
        Hex \<Rightarrow> Some (bytes_from_hex k (into_bytes s))
      | Base64 \<Rightarrow> bytes_from_b64 k (into_bytes s)
      | Utf8 \<Rightarrow> Some (Inr (into_bytes s))
      | Windows1252 \<Rightarrow> Some (Inr (into_bytes s))
      | Utf16le \<Rightarrow> Some (Inr (concat (map u16_to_le_bytes (encode_utf16 s))))
      | Utf16be \<Rightarrow> Some (Inr (concat (map u16_to_be_bytes (encode_utf16 s)))))"

definition as_label :: "encoder \<Rightarrow> ustring" where
  "as_label e =
     (case e of
        Hex \<Rightarrow> str ''hex'' | Base64 \<Rightarrow> str ''base64'' | Windows1252 \<Rightarrow> str ''windows-1252''
      | Utf8 \<Rightarrow> str ''utf-8'' | Utf16le \<Rightarrow> str ''utf-16le'' | Utf16be \<Rightarrow> str ''utf-16be'')"

subsection \<open>Bytes of UTF-8\<close>

lemma all_bytes:
  assumes "\<And>n. n \<in> set [0..<256] \<Longrightarrow> P (of_nat n :: u8)"
  shows "P b"
proof -
  have "P (of_nat (unat b))" using unat_u8 [of b] by (intro assms) simp
  then show ?thesis by simp
qed

lemma is_cont_range: "is_cont b \<longleftrightarrow> 0x80 \<le> b \<and> b \<le> 0xBF"
proof -
  have "\<forall>n \<in> set [0..<256]. is_cont (of_nat n :: u8) = (0x80 \<le> (of_nat n :: u8) \<and> (of_nat n :: u8) \<le> 0xBF)"
    by code_simp
  then show ?thesis using all_bytes [of "\<lambda>b. is_cont b = (0x80 \<le> b \<and> b \<le> 0xBF)" b] by blast
qed

lemma is_cont_zero [simp]: "\<not> is_cont 0" "\<not> second3 b 0" "\<not> second4 b 0"
  by (simp_all add: is_cont_def second3_def second4_def)

lemma second_is_cont: "second3 b c \<Longrightarrow> is_cont c" "second4 b c \<Longrightarrow> is_cont c"
  by (simp_all add: second3_def second4_def)

lemma byte_at_Cons [simp]: "byte_at (b # bs) 0 = b" "byte_at (b # bs) (Suc i) = byte_at bs i" "byte_at [] i = 0"
  by (simp_all add: byte_at_def)

lemma byte_at_numeral [simp]: "byte_at (b # bs) 1 = byte_at bs 0" "byte_at (b # bs) (numeral k) = byte_at bs (pred_numeral k)"
  by (simp_all add: byte_at_def numeral_eq_Suc)

lemma lossy_Nil [simp]: "from_utf8_lossy [] = []"
  by (simp add: from_utf8_lossy.simps)

lemma lossy_step:
  "bs \<noteq> [] \<Longrightarrow> utf8_next bs = (c, n) \<Longrightarrow>
   from_utf8_lossy bs = (case c of Some c \<Rightarrow> c | None \<Rightarrow> REPLACEMENT) # from_utf8_lossy (drop n bs)"
  by (subst from_utf8_lossy.simps) simp

lemma unat_of_small: "n < 256 \<Longrightarrow> unat (of_nat n :: u8) = n"
  by (simp add: unat_of_nat)

lemma of_small_le: "n < 256 \<Longrightarrow> m < 256 \<Longrightarrow> ((of_nat n :: u8) \<le> of_nat m) = (n \<le> m)"
  by (simp add: word_le_nat_alt unat_of_small)

lemma mod_shift: "(n :: nat) < m \<Longrightarrow> (m * k + n) mod m = n"
  by simp

lemma digits64: "c div 4096 * 4096 + c div 64 mod 64 * 64 + c mod 64 = (c :: nat)"
proof -
  have "c div 4096 = c div 64 div 64" by (simp flip: div_mult2_eq)
  then show ?thesis using div_mult_mod_eq [of c 64] div_mult_mod_eq [of "c div 64" 64] by linarith
qed

lemma cont_of_low: "n < 64 \<Longrightarrow> is_cont (of_nat (0x80 + n)) \<and> low6 (of_nat (0x80 + n)) = n"
  using mod_shift [of n 64 2] by (simp add: is_cont_range low6_def word_le_nat_alt unat_of_small del: of_nat_add)

text \<open>The UTF-8 form of a character is read back as this character, whatever follows.\<close>

lemma utf8_next_char:
  assumes "is_scalar c"
  shows "utf8_next (utf8_char c @ bs) = (Some c, length (utf8_char c))"
proof -
  note nat_bytes [simp] = word_le_nat_alt word_less_nat_alt word_unat_eq_iff unat_of_small
  note [simp del] = of_nat_add
  consider "c < 0x80" | "0x80 \<le> c" "c < 0x800" | "0x800 \<le> c" "c < 0x10000" | "0x10000 \<le> c" "c < 0x110000"
    using assms unfolding is_scalar_def by linarith
  then show ?thesis
  proof cases
    case 1
    then show ?thesis by (simp add: utf8_char_def utf8_next_def)
  next
    case 2
    have l: "c div 64 < 32" "2 \<le> c div 64" using 2 by auto
    show ?thesis using 2 l cont_of_low [of "c mod 64"] mod_shift [of "c div 64" 32 6]
      by (simp add: utf8_char_def utf8_next_def Let_def)
  next
    case 3
    define a b d where "a = c div 4096" "b = c div 64 mod 64" "d = c mod 64"
    have l: "a < 16" "b < 64" "d < 64" using 3 by (auto simp: a_b_d_def)
    have c: "a * 4096 + b * 64 + d = c" 
      using digits64 [of c] by (simp add: a_b_d_def)
    have s: "second3 (of_nat (0xE0 + a)) (of_nat (0x80 + b))"
      using cont_of_low [OF l(2)] l 3 c assms by (simp add: second3_def is_scalar_def) linarith
    show ?thesis using 3 l s c cont_of_low [OF l(2)] cont_of_low [OF l(3)] mod_shift [OF l(1), of 14]
      by (simp add: utf8_char_def utf8_next_def Let_def a_b_d_def [symmetric])
  next
    case 4
    define a b d e where "a = c div 262144" "b = c div 4096 mod 64" "d = c div 64 mod 64" "e = c mod 64"
    have l: "a \<le> 4" "b < 64" "d < 64" "e < 64" using 4 by (auto simp: a_b_d_e_def)
    have c: "a * 262144 + b * 4096 + d * 64 + e = c"
      using digits64 [of c] div_mult_mod_eq [of "c div 4096" 64] by (simp add: a_b_d_e_def flip: div_mult2_eq)
    have s: "second4 (of_nat (0xF0 + a)) (of_nat (0x80 + b))"
      using cont_of_low [OF l(2)] l 4 c by (simp add: second4_def)
    show ?thesis using 4 l s c cont_of_low [OF l(2)] cont_of_low [OF l(3)] cont_of_low [OF l(4)] mod_shift [of a 8 30]
      by (simp add: utf8_char_def utf8_next_def Let_def a_b_d_e_def [symmetric])
  qed
qed

lemma utf8_char_nonempty [simp]: "utf8_char c \<noteq> []" "length (utf8_char c) \<noteq> 0"
  by (simp_all add: utf8_char_def)

lemma lossy_into_bytes:
  "\<forall>c \<in> set s. is_scalar c \<Longrightarrow> from_utf8_lossy (into_bytes s @ bs) = s @ from_utf8_lossy bs"
  by (induction s) (simp_all add: into_bytes_def lossy_step [OF _ utf8_next_char])

lemma from_utf8_into_bytes: "\<forall>c \<in> set s. is_scalar c \<Longrightarrow> from_utf8 (into_bytes s) = Some s"
proof (induction s)
  case (Cons c s)
  then show ?case
    using utf8_next_char [of c "concat (map utf8_char s)"] by (subst from_utf8.simps) (simp add: into_bytes_def)
qed (simp add: into_bytes_def from_utf8.simps)

subsection \<open>Cutting bytes where a character may start\<close>

text \<open>
  Decoding distributes over a cut before a byte that is not a continuation, and over a cut after a
  lead byte with as many continuation bytes as it asks for.
\<close>

lemma second_not_cont: "\<not> is_cont c \<Longrightarrow> \<not> second3 b c \<and> \<not> second4 b c"
  by (simp add: second3_def second4_def)

lemma utf8_next_cut:
  assumes "xs \<noteq> []" "\<not> is_cont (byte_at ys 0)"
  shows "utf8_next (xs @ ys) = utf8_next xs \<and> snd (utf8_next xs) \<le> length xs"
proof -
  consider a where "xs = [a]" | a b where "xs = [a, b]" | a b c where "xs = [a, b, c]" | a b c d zs where "xs = a # b # c # d # zs"
    using assms(1) by (metis neq_Nil_conv)
  then show ?thesis
    using assms(2) by cases (simp_all add: utf8_next_def Let_def second_not_cont)
qed

lemma lossy_cut:
  "\<not> is_cont (byte_at ys 0) \<Longrightarrow> from_utf8_lossy (xs @ ys) = from_utf8_lossy xs @ from_utf8_lossy ys"
proof (induction xs rule: from_utf8_lossy.induct)
  case (1 xs)
  show ?case
  proof (cases "xs = []")
    case False
    obtain c n where n: "utf8_next xs = (c, n)" by fastforce
    then have "utf8_next (xs @ ys) = (c, n)" "n \<le> length xs" using utf8_next_cut [OF False 1(2)] by auto
    with 1 False n show ?thesis by (simp add: lossy_step)
  qed simp
qed

lemma utf8_next_cont: "is_cont b \<Longrightarrow> utf8_next (b # bs) = (None, 1)"
  by (simp add: utf8_next_def Let_def is_cont_range) (auto simp: word_le_nat_alt word_less_nat_alt)

lemma lossy_conts: "list_all is_cont cs \<Longrightarrow> from_utf8_lossy (cs @ ys) = from_utf8_lossy cs @ from_utf8_lossy ys"
  by (induction cs) (simp_all add: lossy_step [OF _ utf8_next_cont])

text \<open>The number of bytes that a lead byte asks for, by its upper bits.\<close>

definition lead_len :: "u8 \<Rightarrow> nat" where
  "lead_len b =
     (if b AND 0xE0 = 0xC0 then 2 else if b AND 0xF0 = 0xE0 then 3 else if b AND 0xF8 = 0xF0 then 4 else 1)"

definition lead_ok :: "u8 \<Rightarrow> bool" where
  "lead_ok b \<longleftrightarrow>
     lead_len b = (if is_cont b then 1 else if b < 0xC0 then 1 else if b < 0xE0 then 2 else if b < 0xF0 then 3 else if b < 0xF8 then 4 else 1)"

lemma lead_len_ok: "lead_ok b"
proof (rule all_bytes [where P = lead_ok])
  have "\<forall>n \<in> set [0..<256]. lead_ok (of_nat n)" by code_simp
  then show "n \<in> set [0..<256] \<Longrightarrow> lead_ok (of_nat n)" for n by blast
qed

lemma lead_len_ranges:
  "0xC2 \<le> b \<and> b \<le> 0xDF \<Longrightarrow> lead_len b = 2" "0xE0 \<le> b \<and> b \<le> 0xEF \<Longrightarrow> lead_len b = 3" "0xF0 \<le> b \<and> b \<le> 0xF4 \<Longrightarrow> lead_len b = 4"
  "lead_len b \<noteq> 1 \<Longrightarrow> \<not> is_cont b"
  using lead_len_ok [of b] by (auto simp: lead_ok_def is_cont_range word_le_nat_alt word_less_nat_alt split: if_splits)

lemma utf8_next_within:
  assumes "lead_len b \<le> Suc (length cs)"
  shows "utf8_next (b # cs @ ys) = utf8_next (b # cs) \<and> snd (utf8_next (b # cs)) \<le> Suc (length cs)"
proof -
  consider "b < 0x80" | "0xC2 \<le> b \<and> b \<le> 0xDF" | "0xE0 \<le> b \<and> b \<le> 0xEF" | "0xF0 \<le> b \<and> b \<le> 0xF4"
    | "\<not> b < 0x80" "\<not> (0xC2 \<le> b \<and> b \<le> 0xDF)" "\<not> (0xE0 \<le> b \<and> b \<le> 0xEF)" "\<not> (0xF0 \<le> b \<and> b \<le> 0xF4)" by blast
  then show ?thesis
  proof cases
    case 2
    then obtain x xs where "cs = x # xs" using assms lead_len_ranges(1) [of b] by (cases cs) auto
    with 2 show ?thesis by (simp add: utf8_next_def Let_def)
  next
    case 3
    then have "2 \<le> length cs" using assms lead_len_ranges(2) [of b] by simp
    then obtain x y xs where "cs = x # y # xs" by (metis Suc_le_length_iff numeral_2_eq_2)
    with 3 show ?thesis by (simp add: utf8_next_def Let_def)
  next
    case 4
    then have "3 \<le> length cs" using assms lead_len_ranges(3) [of b] by simp
    then obtain x y z xs where "cs = x # y # z # xs" by (metis Suc_le_length_iff numeral_3_eq_3)
    with 4 show ?thesis by (simp add: utf8_next_def Let_def)
  next
    case 5
    then show ?thesis by (simp only: utf8_next_def Let_def byte_at_Cons if_False) simp
  qed (simp add: utf8_next_def Let_def)
qed

lemma lossy_complete:
  assumes "list_all is_cont cs" "lead_len b \<le> Suc (length cs)"
  shows "from_utf8_lossy (b # cs @ ys) = from_utf8_lossy (b # cs) @ from_utf8_lossy ys"
proof -
  obtain c n where n: "utf8_next (b # cs) = (c, n)" by fastforce
  then have n': "utf8_next (b # cs @ ys) = (c, n)" "n \<le> Suc (length cs)" using utf8_next_within [OF assms(2)] by auto
  obtain m where m: "n = Suc m" using utf8_next_bounds [OF n] by (cases n) auto
  have "list_all is_cont (drop m cs)" using assms(1) by (auto simp: list_all_iff dest: in_set_dropD)
  then show ?thesis using n' m lossy_conts [of "drop m cs" ys] lossy_step [OF _ n] lossy_step [OF _ n'(1)] by simp
qed

subsection \<open>UTF-16\<close>

lemma unat_u16: "unat (u :: u16) < 65536"
  using unsigned_less [of u, where 'a = nat] by simp

lemma u16_bytes_inverse:
  "u16_from_le_bytes (of_nat (unat u mod 256)) (of_nat (unat u div 256)) = u"
  "u16_from_be_bytes (of_nat (unat u div 256)) (of_nat (unat u mod 256)) = u"
proof -
  have "unat u div 256 < 256" using unat_u16 [of u] by (simp add: less_mult_imp_div_less)
  then have "u16_from_le_bytes (of_nat (unat u mod 256)) (of_nat (unat u div 256)) = of_nat (unat u mod 256 + 256 * (unat u div 256))"
    "u16_from_be_bytes (of_nat (unat u div 256)) (of_nat (unat u mod 256)) = of_nat (256 * (unat u div 256) + unat u mod 256)"
    by (simp_all only: u16_from_le_bytes_def u16_from_be_bytes_def unat_of_small mod_less_divisor zero_less_numeral)
  then show "u16_from_le_bytes (of_nat (unat u mod 256)) (of_nat (unat u div 256)) = u"
    "u16_from_be_bytes (of_nat (unat u div 256)) (of_nat (unat u mod 256)) = u"
    by (simp_all del: of_nat_add of_nat_mult)
qed

lemma pairs_concat:
  "pairs u16_from_le_bytes (concat (map u16_to_le_bytes us)) = us"
  "pairs u16_from_be_bytes (concat (map u16_to_be_bytes us)) = us"
  by (induction us) (simp_all add: u16_to_le_bytes_def u16_to_be_bytes_def u16_bytes_inverse)

lemma length_concat_bytes [simp]:
  "length (concat (map u16_to_le_bytes us)) = 2 * length us"
  "length (concat (map u16_to_be_bytes us)) = 2 * length us"
  by (induction us) (simp_all add: u16_to_le_bytes_def u16_to_be_bytes_def)

lemma unat_of_u16: "n < 65536 \<Longrightarrow> unat (of_nat n :: u16) = n"
  by (simp add: unat_of_nat)

lemma decode_utf16_char:
  assumes "is_scalar c"
  shows "decode_utf16 (utf16_char c @ us) = Some c # decode_utf16 us"
proof (cases "c < 0x10000")
  case True
  with assms show ?thesis by (auto simp: utf16_char_def is_scalar_def word_le_nat_alt word_less_nat_alt unat_of_u16)
next
  case False
  define a b where "a = (c - 0x10000) div 1024" "b = (c - 0x10000) mod 1024"
  have l: "a < 1024" "b < 1024" using False assms by (auto simp: a_b_def is_scalar_def)
  have c: "0x10000 + a * 1024 + b = c" using False div_mult_mod_eq [of "c - 0x10000" 1024] by (simp add: a_b_def)
  have "(0xD800 + a) mod 1024 = a" "(0xDC00 + b) mod 1024 = b"
    using mod_shift [OF l(1), of 54] mod_shift [OF l(2), of 55] by simp_all
  with False c l show ?thesis
    by (simp add: utf16_char_def a_b_def [symmetric] word_le_nat_alt word_less_nat_alt unat_of_u16 del: of_nat_add)
qed

lemma decode_encode_utf16:
  "\<forall>c \<in> set s. is_scalar c \<Longrightarrow> decode_utf16 (encode_utf16 s) = map Some s"
  by (induction s) (simp_all add: encode_utf16_def decode_utf16_char)

lemma from_encode_utf16:
  assumes "\<forall>c \<in> set s. is_scalar c"
  shows "from_utf16_lossy (encode_utf16 s) = s" "from_utf16 (encode_utf16 s) = Some s"
  using decode_encode_utf16 [OF assms] by (auto simp: from_utf16_lossy_def from_utf16_def comp_def)

subsection \<open>Round trips\<close>

text \<open>
  (C18) Text survives a round trip through every Unicode encoding: the bytes that a string is decoded
  into are turned back into this string, with and without replacement of ill-formed input.
\<close>

theorem encoder_text_round_trip:
  assumes "\<forall>c \<in> set s. is_scalar c" "e \<in> {Utf8, Utf16le, Utf16be}"
  shows "\<exists>bytes. decode_from_string k e s = Some (Inr bytes) \<and> encode_to_string k e bytes lossy = Inr s"
  using assms(2) lossy_into_bytes [OF assms(1), of "[]"] from_utf8_into_bytes [OF assms(1)] from_encode_utf16 [OF assms(1)]
  by (auto simp: decode_from_string_def encode_to_string_def bytes_to_utf8_string_def bytes_to_utf16_string_def pairs_concat
      Let_def)

theorem encoder_text_round_trip_witness:
  "\<forall>k. \<exists>bytes. decode_from_string k Utf16le [0x1F4D8, 0x61] = Some (Inr bytes) \<and> encode_to_string k Utf16le bytes True = Inr [0x1F4D8, 0x61]"
  using encoder_text_round_trip [of "[0x1F4D8, 0x61]" Utf16le _ True] by (simp add: is_scalar_def)

text \<open>Every label names its own encoder.\<close>

lemma as_label_inverse: "encoder_from_str (as_label e) = Inr e"
proof (cases e)
qed (simp_all add: as_label_def, code_simp+)

definition std_alphabet :: "u8 \<Rightarrow> u8" where
  "std_alphabet b = (if b = 0x2D then 0x2B else if b = 0x5F then 0x2F else b)"

lemma replace_positions_eq:
  "distinct ps \<Longrightarrow> \<forall>p \<in> set ps. p < length bytes \<and> (bytes ! p = 0x2D \<or> bytes ! p = 0x5F) \<Longrightarrow>
   replace_positions ps bytes = Some (map (\<lambda>i. if i \<in> set ps then std_alphabet (bytes ! i) else bytes ! i) [0..<length bytes])"
proof (induction ps arbitrary: bytes)
  case Nil
  then show ?case by (simp add: map_nth)
next
  case (Cons p ps)
  let ?b = "bytes[p := std_alphabet (bytes ! p)]"
  have "replace_positions (p # ps) bytes = replace_positions ps ?b"
    using Cons.prems(2) by (auto simp: index_def store_def std_alphabet_def)
  also have "\<dots> = Some (map (\<lambda>i. if i \<in> set ps then std_alphabet (?b ! i) else ?b ! i) [0..<length ?b])"
    using Cons.prems by (intro Cons.IH) (auto simp: nth_update_if)
  also have "\<dots> = Some (map (\<lambda>i. if i \<in> set (p # ps) then std_alphabet (bytes ! i) else bytes ! i) [0..<length bytes])"
    using Cons.prems by (auto simp: nth_update_if)
  finally show ?case .
qed

text \<open>
  (C19) Decoding Base64 accepts both alphabets: collecting the positions of the URL-safe characters and
  overwriting them one by one never leaves the buffer and is the same as translating every byte.
\<close>

theorem bytes_from_b64_alphabets:
  "bytes_from_b64 k bytes = Some (b64_forgiving_decode k (map std_alphabet bytes))"
proof (cases "url_safe_byte_positions bytes = []")
  case True
  then have "\<forall>b \<in> set bytes. b \<noteq> 0x2D \<and> b \<noteq> 0x5F"
    by (auto simp: url_safe_byte_positions_def filter_empty_conv in_set_conv_nth)
  then have "map std_alphabet bytes = bytes" by (simp add: map_idI std_alphabet_def)
  with True show ?thesis by (simp add: bytes_from_b64_def)
next
  case False
  have "map (\<lambda>i. if i \<in> set (url_safe_byte_positions bytes) then std_alphabet (bytes ! i) else bytes ! i) [0..<length bytes]
      = map std_alphabet bytes"
    by (rule nth_equalityI) (auto simp: url_safe_byte_positions_def std_alphabet_def)
  moreover have "distinct (url_safe_byte_positions bytes)"
    "\<forall>p \<in> set (url_safe_byte_positions bytes). p < length bytes \<and> (bytes ! p = 0x2D \<or> bytes ! p = 0x5F)"
    by (auto simp: url_safe_byte_positions_def)
  ultimately have "replace_positions (url_safe_byte_positions bytes) bytes = Some (map std_alphabet bytes)"
    by (simp only: replace_positions_eq)
  with False show ?thesis by (simp add: bytes_from_b64_def)
qed

text \<open>
  The encoder for \<^verbatim>\<open>latin1\<close> and \<^verbatim>\<open>ascii\<close> is not a round trip beyond ASCII: a string becomes its UTF-8 bytes.
\<close>

lemma windows1252_decodes_utf8:
  "decode_from_string k Windows1252 [0xE9] = Some (Inr [0xC3, 0xA9]) \<and> encode_to_string k Windows1252 [0xE9] lossy = Inr [0xE9]"
  by (simp add: decode_from_string_def encode_to_string_def bytes_to_windows1252_string_def index_windows_1252_def
      into_bytes_def utf8_char_def)

end
