(* ===== verification/StringDecoder.thy ===== *)
theory StringDecoder
  imports Encoding
begin

text \<open>
  \<^verbatim>\<open>modules/llrt_string_decoder/src/string_decoder.rs\<close>: bytes arrive in chunks that may end inside a
  character; the decoder keeps the bytes of an incomplete character until the rest arrives.  A panic
  of the Rust code (an index out of range, a subtraction below zero) is \<^term>\<open>None\<close>; an error is \<^term>\<open>Inl\<close>.
\<close>

record string_decoder =
  sd_encoder :: encoder
  sd_buffer :: "u8 list"
  sd_buffered_bytes :: nat
  sd_missing_bytes :: nat

type_synonym sd_result = "((ustring + ustring) \<times> string_decoder) option"

definition decoder_new :: "ustring option \<Rightarrow> ustring + string_decoder" where
  "decoder_new encoding =
     (let encoding = (case encoding of Some e \<Rightarrow> e | None \<Rightarrow> str ''utf-8'') in
      case encoder_from_str encoding of
        Inl _ \<Rightarrow> Inl (str ''Unknown encoding: '' @ encoding)
      | Inr e \<Rightarrow> Inr \<lparr>sd_encoder = e, sd_buffer = [], sd_buffered_bytes = 0, sd_missing_bytes = 0\<rparr>)"

definition make_string :: "codecs \<Rightarrow> string_decoder \<Rightarrow> u8 list \<Rightarrow> ustring + ustring" where
  "make_string k d data =
     (case encode_to_string k (sd_encoder d) data True of
        Inl _ \<Rightarrow> Inl (str ''Encoding error'')
      | Inr s \<Rightarrow> Inr s)"

subsection \<open>Finishing the character of the previous chunk\<close>

text \<open>The index of the first byte that is not a continuation byte, among the bytes that are missing.\<close>

fun first_non_cont :: "u8 list \<Rightarrow> nat \<Rightarrow> nat \<Rightarrow> nat option" where
  "first_non_cont [] missing i = None"
| "first_non_cont (b # data) missing i =
     (if missing \<le> i then None
      else if b AND 0xC0 \<noteq> 0x80 then Some i
      else first_non_cont data missing (i + 1))"

definition align_utf8 :: "u8 list \<Rightarrow> string_decoder \<Rightarrow> (u8 list \<times> string_decoder) option" where
  "align_utf8 data d =
     (case first_non_cont data (sd_missing_bytes d) 0 of
        None \<Rightarrow> Some (data, d)
      | Some i \<Rightarrow>
          do { pre \<leftarrow> slice data 0 i;
               post \<leftarrow> slice data i (length data);
               Some (post, d\<lparr>sd_missing_bytes := 0, sd_buffer := sd_buffer d @ pre,
                             sd_buffered_bytes := sd_buffered_bytes d + i\<rparr>) })"

fun has_high_surrogate :: "u8 list \<Rightarrow> nat \<Rightarrow> nat \<Rightarrow> bool" where
  "has_high_surrogate [] missing i = False"
| "has_high_surrogate (b # data) missing i =
     (if missing \<le> i then False
      else if b AND 0xFC = 0xD8 then True
      else has_high_surrogate data missing (i + 1))"

definition align_utf16 :: "u8 list \<Rightarrow> string_decoder \<Rightarrow> string_decoder" where
  "align_utf16 data d =
     (if has_high_surrogate data (sd_missing_bytes d) 0 then d\<lparr>sd_missing_bytes := 3\<rparr> else d)"

definition finish_previous :: "codecs \<Rightarrow> u8 list \<Rightarrow> string_decoder \<Rightarrow> ((ustring + ustring) \<times> u8 list \<times> string_decoder) option" where
  "finish_previous k data d =
     do { (data, d) \<leftarrow> (if sd_encoder d = Utf8 then align_utf8 data d
                      else if sd_encoder d = Utf16le then Some (data, align_utf16 data d)
                      else Some (data, d));
          let found_bytes = min (length data) (sd_missing_bytes d);
          found \<leftarrow> slice data 0 found_bytes;
          rest \<leftarrow> slice data found_bytes (length data);
          missing \<leftarrow> usub (sd_missing_bytes d) found_bytes;
          let d = d\<lparr>sd_buffer := sd_buffer d @ found, sd_missing_bytes := missing,
                    sd_buffered_bytes := sd_buffered_bytes d + found_bytes\<rparr>;
          Some (if missing = 0 then
             (case make_string k d (sd_buffer d) of
                Inl e \<Rightarrow> (Inl e, rest, d)
              | Inr s \<Rightarrow> (Inr s, rest, d\<lparr>sd_buffer := [], sd_buffered_bytes := 0\<rparr>))
           else (Inr [], rest, d)) }"

subsection \<open>Keeping the incomplete character of this chunk\<close>

text \<open>The loop runs from the last byte back to the byte that starts a character.\<close>

fun tail_utf8 :: "u8 list \<Rightarrow> nat \<Rightarrow> string_decoder \<Rightarrow> string_decoder option" where
  "tail_utf8 data i d =
     do { b \<leftarrow> index data i;
          let d = d\<lparr>sd_buffered_bytes := sd_buffered_bytes d + 1\<rparr>;
          if b AND 0xC0 = 0x80 then
            (if sd_buffered_bytes d \<ge> 4 \<or> i = 0 then Some (d\<lparr>sd_buffer := [], sd_buffered_bytes := 0\<rparr>)
             else tail_utf8 data (i - 1) d)
          else
            (let lead = (\<lambda>n. let d = d\<lparr>sd_missing_bytes := n\<rparr>;
                                 d = (if sd_buffered_bytes d \<ge> sd_missing_bytes d
                                      then d\<lparr>sd_missing_bytes := 0, sd_buffered_bytes := 0\<rparr> else d) in
                             do { m \<leftarrow> usub (sd_missing_bytes d) (sd_buffered_bytes d);
                                  Some (d\<lparr>sd_missing_bytes := m\<rparr>) }) in
             if b AND 0xE0 = 0xC0 then lead 2
             else if b AND 0xF0 = 0xE0 then lead 3
             else if b AND 0xF8 = 0xF0 then lead 4
             else Some (d\<lparr>sd_buffered_bytes := 0\<rparr>)) }"

declare tail_utf8.simps [simp del]

definition tail_utf16 :: "u8 list \<Rightarrow> string_decoder \<Rightarrow> string_decoder option" where
  "tail_utf16 data d =
     (if length data mod 2 = 1 then
        do { surrogate \<leftarrow> (if length data \<ge> 3 then
                 do { b \<leftarrow> index data (length data - 2); Some (b AND 0xFC = 0xD8) } else Some False);
             Some (if surrogate then d\<lparr>sd_buffered_bytes := 3, sd_missing_bytes := 1\<rparr>
                   else d\<lparr>sd_buffered_bytes := 1, sd_missing_bytes := 1\<rparr>) }
      else do { i \<leftarrow> usub (length data) 1;
                b \<leftarrow> index data i;
                Some (if b AND 0xFC = 0xD8 then d\<lparr>sd_buffered_bytes := 2, sd_missing_bytes := 2\<rparr> else d) })"

definition tail_base64 :: "u8 list \<Rightarrow> string_decoder \<Rightarrow> string_decoder" where
  "tail_base64 data d =
     (let d = d\<lparr>sd_buffered_bytes := length data mod 3\<rparr> in
      if sd_buffered_bytes d > 0 then d\<lparr>sd_missing_bytes := 3 - sd_buffered_bytes d\<rparr> else d)"

definition find_tail :: "u8 list \<Rightarrow> string_decoder \<Rightarrow> string_decoder option" where
  "find_tail data d =
     do { i \<leftarrow> usub (length data) 1;
          b \<leftarrow> index data i;
          if sd_encoder d = Utf8 then (if b AND 0x80 \<noteq> 0 then tail_utf8 data i d else Some d)
          else if sd_encoder d = Utf16le then tail_utf16 data d
          else Some (tail_base64 data d) }"

definition decode_rest :: "codecs \<Rightarrow> ustring \<Rightarrow> u8 list \<Rightarrow> string_decoder \<Rightarrow> sd_result" where
  "decode_rest k result data d =
     do { d \<leftarrow> find_tail data d;
          cut \<leftarrow> usub (length data) (sd_buffered_bytes d);
          kept \<leftarrow> slice data cut (length data);
          body \<leftarrow> slice data 0 cut;
          let (data, d) = (if sd_buffered_bytes d > 0 then (body, d\<lparr>sd_buffer := sd_buffer d @ kept\<rparr>) else (data, d));
          Some (if data \<noteq> [] then
                  (case make_string k d data of
                     Inl e \<Rightarrow> (Inl e, d)
                   | Inr s \<Rightarrow> (Inr (result @ s), d))
                else (Inr result, d)) }"

definition decode_data :: "codecs \<Rightarrow> u8 list \<Rightarrow> string_decoder \<Rightarrow> sd_result" where
  "decode_data k data d =
     (if sd_encoder d \<in> {Utf8, Utf16le, Base64} then
        do { (result, data, d) \<leftarrow> (if sd_missing_bytes d > 0 then finish_previous k data d else Some (Inr [], data, d));
             (case result of
                Inl e \<Rightarrow> Some (Inl e, d)
              | Inr result \<Rightarrow> if data = [] then Some (Inr result, d) else decode_rest k result data d) }
      else Some (make_string k d data, d))"

subsection \<open>The end of the input\<close>

definition flush :: "codecs \<Rightarrow> string_decoder \<Rightarrow> sd_result" where
  "flush k d =
     (let odd_utf16_byte = (sd_encoder d = Utf16le \<and> sd_buffered_bytes d mod 2 = 1) in
      do { d \<leftarrow> (if odd_utf16_byte then
                 do { m \<leftarrow> usub (sd_missing_bytes d) 1;
                      n \<leftarrow> usub (sd_buffered_bytes d) 1;
                      Some (d\<lparr>sd_missing_bytes := m, sd_buffered_bytes := n\<rparr>) }
               else Some d);
           if sd_buffered_bytes d = 0 then Some (Inr [], d)
           else
             do { decode_len \<leftarrow> usub (length (sd_buffer d)) (if odd_utf16_byte then 1 else 0);
                  data \<leftarrow> slice (sd_buffer d) 0 decode_len;
                  (case make_string k d data of
                     Inl e \<Rightarrow> Some (Inl e, d)
                   | Inr res \<Rightarrow>
                       do { res \<leftarrow> (if odd_utf16_byte \<and> decode_len \<ge> 2 then
                                    do { a \<leftarrow> index (sd_buffer d) (decode_len - 2);
                                         b \<leftarrow> index (sd_buffer d) (decode_len - 1);
                                         let code_unit = u16_from_le_bytes a b;
                                         Some (if 0xD800 \<le> code_unit \<and> code_unit \<le> 0xDBFF then res @ [REPLACEMENT] else res) }
                                  else Some res);
                            Some (Inr res, d\<lparr>sd_missing_bytes := 0, sd_buffered_bytes := 0, sd_buffer := []\<rparr>) }) } })"

text \<open>\<^verbatim>\<open>write\<close> and \<^verbatim>\<open>end\<close>; the argument is the bytes of the view, which a detached buffer does not have.\<close>

definition decoder_write :: "codecs \<Rightarrow> u8 list option \<Rightarrow> string_decoder \<Rightarrow> sd_result" where
  "decoder_write k buffer d =
     (case buffer of
        None \<Rightarrow> Some (Inl (str ''Buffer has already been used''), d)
      | Some data \<Rightarrow> decode_data k data d)"

definition decoder_end :: "codecs \<Rightarrow> u8 list option \<Rightarrow> string_decoder \<Rightarrow> sd_result" where
  "decoder_end k buffer d =
     do { (output, d) \<leftarrow> (case buffer of Some data \<Rightarrow> decode_data k data d | None \<Rightarrow> Some (Inr [], d));
          (case output of
             Inl e \<Rightarrow> Some (Inl e, d)
           | Inr out \<Rightarrow>
               do { (flush, d) \<leftarrow> flush k d;
                    Some (case flush of Inl e \<Rightarrow> (Inl e, d) | Inr s \<Rightarrow> (Inr (out @ s), d)) }) }"

subsection \<open>Texts\<close>

text \<open>With replacement of ill-formed input no encoder fails.\<close>

definition text_of :: "codecs \<Rightarrow> encoder \<Rightarrow> u8 list \<Rightarrow> ustring" where
  "text_of k e data = (case encode_to_string k e data True of Inr s \<Rightarrow> s | Inl s \<Rightarrow> s)"

lemma make_string_Inr [simp]: "make_string k d data = Inr (text_of k (sd_encoder d) data)"
  by (cases "sd_encoder d")
    (simp_all add: make_string_def text_of_def encode_to_string_def bytes_to_utf8_string_def bytes_to_utf16_string_def Let_def)

lemma text_of_utf8 [simp]: "text_of k Utf8 data = from_utf8_lossy data"
  by (simp add: text_of_def encode_to_string_def bytes_to_utf8_string_def)

lemma slice_prefix [simp]: "n \<le> length xs \<Longrightarrow> slice xs 0 n = Some (take n xs)"
  by (simp add: slice_def)

lemma slice_suffix [simp]: "n \<le> length xs \<Longrightarrow> slice xs n (length xs) = Some (drop n xs)"
  by (simp add: slice_def)

lemma take_drop_append [simp]: "take n xs @ drop n xs @ ys = xs @ ys"
  by (simp flip: append_assoc)

subsection \<open>What a chunked decoder promises\<close>

definition fresh :: "encoder \<Rightarrow> string_decoder" where
  "fresh e = \<lparr>sd_encoder = e, sd_buffer = [], sd_buffered_bytes = 0, sd_missing_bytes = 0\<rparr>"

fun write_all :: "codecs \<Rightarrow> u8 list list \<Rightarrow> string_decoder \<Rightarrow> sd_result" where
  "write_all k [] d = Some (Inr [], d)"
| "write_all k (c # cs) d =
     do { (r, d) \<leftarrow> decoder_write k (Some c) d;
          (case r of
             Inl e \<Rightarrow> Some (Inl e, d)
           | Inr s \<Rightarrow>
               do { (t, d) \<leftarrow> write_all k cs d;
                    Some (case t of Inl e \<Rightarrow> (Inl e, d) | Inr t \<Rightarrow> (Inr (s @ t), d)) }) }"

text \<open>A program that writes the chunks to a new decoder, ends it and joins the strings.\<close>

definition decode_chunks :: "codecs \<Rightarrow> ustring option \<Rightarrow> u8 list list \<Rightarrow> (ustring + ustring) option" where
  "decode_chunks k encoding chunks =
     (case decoder_new encoding of
        Inl e \<Rightarrow> Some (Inl e)
      | Inr d \<Rightarrow>
          do { (r, d) \<leftarrow> write_all k chunks d;
               (case r of
                  Inl e \<Rightarrow> Some (Inl e)
                | Inr s \<Rightarrow>
                    do { (t, d) \<leftarrow> decoder_end k None d;
                         Some (case t of Inl e \<Rightarrow> Inl e | Inr t \<Rightarrow> Inr (s @ t)) }) })"

text \<open>
  The laws: on bytes that are \<open>good\<close>, a write hands out a prefix of the decoded text and keeps bytes from
  which the rest can be decoded; the end hands out what is left.
\<close>

locale chunked =
  fixes k :: codecs and e :: encoder and good :: "u8 list \<Rightarrow> bool" and dec :: "u8 list \<Rightarrow> ustring"
    and wait :: "string_decoder \<Rightarrow> bool"
  assumes start_ok: "wait (fresh e)"
    and empty_ok: "dec [] = []"
    and write_ok: "wait d \<Longrightarrow> good (sd_buffer d @ data @ ys) \<Longrightarrow>
      \<exists>out d'. decode_data k data d = Some (Inr out, d') \<and> wait d' \<and> good (sd_buffer d' @ ys)
        \<and> dec (sd_buffer d @ data @ ys) = out @ dec (sd_buffer d' @ ys)"
    and finish_ok: "wait d \<Longrightarrow> good (sd_buffer d) \<Longrightarrow> \<exists>d'. flush k d = Some (Inr (dec (sd_buffer d)), d')"
begin

lemma write_all_ok:
  "wait d \<Longrightarrow> good (sd_buffer d @ concat chunks) \<Longrightarrow>
   \<exists>out d'. write_all k chunks d = Some (Inr out, d') \<and> wait d' \<and> good (sd_buffer d')
     \<and> dec (sd_buffer d @ concat chunks) = out @ dec (sd_buffer d')"
proof (induction chunks arbitrary: d)
  case (Cons c cs)
  obtain out d' where d': "decode_data k c d = Some (Inr out, d')" "wait d'" "good (sd_buffer d' @ concat cs)"
      "dec (sd_buffer d @ c @ concat cs) = out @ dec (sd_buffer d' @ concat cs)"
    using write_ok [of d c "concat cs"] Cons.prems by auto
  obtain out2 d2 where "write_all k cs d' = Some (Inr out2, d2)" "wait d2" "good (sd_buffer d2)"
      "dec (sd_buffer d' @ concat cs) = out2 @ dec (sd_buffer d2)"
    using Cons.IH [OF d'(2,3)] by auto
  with d' show ?case by (simp add: decoder_write_def)
qed simp

lemma decode_chunks_ok:
  assumes "encoder_from_str l = Inr e" "good (concat chunks)"
  shows "decode_chunks k (Some l) chunks = Some (Inr (dec (concat chunks)))"
proof -
  have new: "decoder_new (Some l) = Inr (fresh e)" using assms(1) by (simp add: decoder_new_def fresh_def)
  obtain out d where d: "write_all k chunks (fresh e) = Some (Inr out, d)" "wait d" "good (sd_buffer d)"
      "dec (concat chunks) = out @ dec (sd_buffer d)"
    using write_all_ok [OF start_ok, of chunks] assms(2) by (auto simp: fresh_def)
  obtain d' where "flush k d = Some (Inr (dec (sd_buffer d)), d')" using finish_ok d by blast
  with d new show ?thesis by (simp add: decode_chunks_def decoder_end_def)
qed

end

text \<open>The two parts of a write, for any encoding whose incomplete characters are kept in the buffer.\<close>

lemma write_parts:
  assumes e: "sd_encoder d \<in> {Utf8, Utf16le, Base64}"
    and fin: "sd_missing_bytes d > 0 \<Longrightarrow> \<exists>s rest d1. finish_previous k data d = Some (Inr s, rest, d1) \<and> W d1 \<and> G (sd_buffer d1 @ rest @ ys)
      \<and> (rest \<noteq> [] \<longrightarrow> sd_missing_bytes d1 = 0) \<and> D (sd_buffer d @ data @ ys) = s @ D (sd_buffer d1 @ rest @ ys)"
    and rest: "\<And>s rest d1. W d1 \<Longrightarrow> G (sd_buffer d1 @ rest @ ys) \<Longrightarrow> sd_missing_bytes d1 = 0 \<Longrightarrow> rest \<noteq> [] \<Longrightarrow>
      \<exists>out d2. decode_rest k s rest d1 = Some (Inr (s @ out), d2) \<and> W d2 \<and> G (sd_buffer d2 @ ys)
        \<and> D (sd_buffer d1 @ rest @ ys) = out @ D (sd_buffer d2 @ ys)"
    and d: "W d" "G (sd_buffer d @ data @ ys)"
  shows "\<exists>out d'. decode_data k data d = Some (Inr out, d') \<and> W d' \<and> G (sd_buffer d' @ ys)
    \<and> D (sd_buffer d @ data @ ys) = out @ D (sd_buffer d' @ ys)"
proof -
  obtain s rst d1 where f: "(if sd_missing_bytes d > 0 then finish_previous k data d else Some (Inr [], data, d)) = Some (Inr s, rst, d1)"
      "W d1" "G (sd_buffer d1 @ rst @ ys)" "rst \<noteq> [] \<longrightarrow> sd_missing_bytes d1 = 0"
      "D (sd_buffer d @ data @ ys) = s @ D (sd_buffer d1 @ rst @ ys)"
    using fin d by (cases "sd_missing_bytes d > 0") auto
  show ?thesis
  proof (cases "rst = []")
    case True
    with f e show ?thesis by (auto simp: decode_data_def)
  next
    case False
    with f obtain out d2 where "decode_rest k s rst d1 = Some (Inr (s @ out), d2)" "W d2" "G (sd_buffer d2 @ ys)"
        "D (sd_buffer d1 @ rst @ ys) = out @ D (sd_buffer d2 @ ys)"
      using rest [of d1 rst s] by auto
    with f e False show ?thesis by (auto simp: decode_data_def)
  qed
qed

subsection \<open>UTF-8: chunks do not matter\<close>

definition utf8_wait :: "string_decoder \<Rightarrow> bool" where
  "utf8_wait d \<longleftrightarrow> sd_encoder d = Utf8 \<and> sd_buffered_bytes d = length (sd_buffer d) \<and>
     (if sd_missing_bytes d = 0 then sd_buffer d = []
      else case sd_buffer d of [] \<Rightarrow> False
           | b # cs \<Rightarrow> list_all is_cont cs \<and> lead_len b = length (sd_buffer d) + sd_missing_bytes d)"

lemma first_non_cont_None:
  "first_non_cont data m i = None \<Longrightarrow> list_all is_cont (take (m - i) data)"
  by (induction data m i rule: first_non_cont.induct)
    (auto simp: is_cont_def take_Cons' Suc_diff_Suc split: if_splits)

lemma first_non_cont_Some:
  "first_non_cont data m i = Some j \<Longrightarrow>
   i \<le> j \<and> j < m \<and> j - i < length data \<and> list_all is_cont (take (j - i) data) \<and> \<not> is_cont (data ! (j - i))"
proof (induction data m i rule: first_non_cont.induct)
  case (2 b data m i)
  show ?case
  proof (cases "b AND 0xC0 \<noteq> 0x80")
    case False
    with 2 have "i + 1 \<le> j \<and> j < m \<and> j - (i + 1) < length data \<and> list_all is_cont (take (j - (i + 1)) data) \<and> \<not> is_cont (data ! (j - (i + 1)))"
      by (auto split: if_splits)
    moreover from this have "j - i = Suc (j - (i + 1))" by auto
    moreover have "is_cont b" using False by (simp add: is_cont_def)
    ultimately show ?thesis by simp
  qed (use 2 in \<open>auto simp: is_cont_def split: if_splits\<close>)
qed simp

lemma finish_utf8:
  assumes d: "utf8_wait d" and m: "sd_missing_bytes d > 0"
  shows "\<exists>s rest d'. finish_previous k data d = Some (Inr s, rest, d') \<and> utf8_wait d' \<and> (rest \<noteq> [] \<longrightarrow> sd_missing_bytes d' = 0)
    \<and> (\<forall>ys. from_utf8_lossy (sd_buffer d @ data @ ys) = s @ from_utf8_lossy (sd_buffer d' @ rest @ ys))"
proof -
  obtain b cs where b: "sd_buffer d = b # cs" "list_all is_cont cs" "lead_len b = Suc (length cs) + sd_missing_bytes d"
      "sd_encoder d = Utf8" "sd_buffered_bytes d = Suc (length cs)"
    using d m by (auto simp: utf8_wait_def split: list.splits)
  show ?thesis
  proof (cases "first_non_cont data (sd_missing_bytes d) 0")
    case (Some i)
    with first_non_cont_Some [OF Some] have i: "i < length data" "\<not> is_cont (data ! i)" by auto
    then have nc: "\<not> is_cont (byte_at (drop i data @ ys) 0)" for ys by (simp add: byte_at_def nth_append)
    have "from_utf8_lossy (sd_buffer d @ data @ ys)
        = from_utf8_lossy (b # cs @ take i data) @ from_utf8_lossy (drop i data @ ys)" for ys
      using lossy_cut [OF nc, of "b # cs @ take i data" ys] b(1) by simp
    with i b Some show ?thesis
      by (simp add: finish_previous_def align_utf8_def utf8_wait_def usub_def Let_def)
  next
    case None
    define n where "n = min (length data) (sd_missing_bytes d)"
    have n: "n \<le> length data" "n \<le> sd_missing_bytes d" by (simp_all add: n_def)
    have tk: "list_all is_cont (take n data)"
      using first_non_cont_None [OF None] by (auto simp: n_def list_all_iff min_def split: if_splits)
    show ?thesis
    proof (cases "n = sd_missing_bytes d")
      case True
      then have "from_utf8_lossy (sd_buffer d @ data @ ys)
          = from_utf8_lossy (b # cs @ take n data) @ from_utf8_lossy (drop n data @ ys)" for ys
        using lossy_complete [of "cs @ take n data" b "drop n data @ ys"] b tk n by simp
      with True b n None show ?thesis
        by (simp add: finish_previous_def align_utf8_def utf8_wait_def usub_def Let_def n_def [symmetric])
    next
      case False
      then have "n = length data" "n < sd_missing_bytes d" using n by (auto simp: n_def min_def split: if_splits)
      with b tk None show ?thesis
        by (simp add: finish_previous_def align_utf8_def utf8_wait_def usub_def Let_def n_def [symmetric])
    qed
  qed
qed

text \<open>
  What the search for an incomplete character at the end of \<open>data\<close> must find: nothing, when the data can be
  decoded up to its end, or the bytes of a lead byte that asks for more.
\<close>

definition utf8_tail :: "u8 list \<Rightarrow> string_decoder \<Rightarrow> bool" where
  "utf8_tail data d \<longleftrightarrow> sd_encoder d = Utf8 \<and> sd_buffer d = [] \<and> sd_buffered_bytes d \<le> length data \<and>
     (if sd_buffered_bytes d = 0 then sd_missing_bytes d = 0 \<and> (\<forall>ys. from_utf8_lossy (data @ ys) = from_utf8_lossy data @ from_utf8_lossy ys)
      else sd_missing_bytes d > 0 \<and> (case drop (length data - sd_buffered_bytes d) data of [] \<Rightarrow> False
           | b # cs \<Rightarrow> list_all is_cont cs \<and> lead_len b = sd_buffered_bytes d + sd_missing_bytes d))"

lemma lossy_full_tail:
  assumes "list_all is_cont cs" "lead_len b \<le> Suc (length cs)" "\<not> is_cont b"
  shows "from_utf8_lossy ((pre @ b # cs) @ ys) = from_utf8_lossy (pre @ b # cs) @ from_utf8_lossy ys"
  using lossy_cut [of "b # cs @ ys" pre] lossy_cut [of "b # cs" pre] lossy_complete [OF assms(1,2), of ys] assms(3) by simp

lemma lossy_four_conts:
  assumes "list_all is_cont cs" "length cs \<ge> 3"
  shows "from_utf8_lossy ((pre @ cs) @ ys) = from_utf8_lossy (pre @ cs) @ from_utf8_lossy ys"
proof (cases "list_all is_cont pre")
  case True
  with assms(1) show ?thesis using lossy_conts [of "pre @ cs" ys] by simp
next
  case False
  then obtain p b q where p: "pre = p @ b # q" "\<not> is_cont b" "list_all is_cont q"
    using split_list_last_prop [of pre "\<lambda>b. \<not> is_cont b"] by (auto simp: list_all_iff)
  have "lead_len b \<le> 4" by (simp add: lead_len_def)
  with p assms show ?thesis using lossy_full_tail [of "q @ cs" b p ys] by simp
qed

lemma tail_utf8_spec:
  assumes "i < length data" "sd_encoder d = Utf8" "sd_buffer d = []" "sd_missing_bytes d = 0"
    "sd_buffered_bytes d = length data - Suc i" "sd_buffered_bytes d \<le> 3" "list_all is_cont (drop (Suc i) data)"
  shows "\<exists>d'. tail_utf8 data i d = Some d' \<and> utf8_tail data d'"
  using assms
proof (induction data i d rule: tail_utf8.induct)
  case (1 data i d)
  let ?b = "data ! i"
  have split: "data = take i data @ ?b # drop (Suc i) data" using 1(2) by (simp add: id_take_nth_drop [symmetric])
  have n: "Suc (sd_buffered_bytes d) = length data - i" using 1(2,6) by simp
  show ?case
  proof (cases "is_cont ?b")
    case cont: True
    have c: "list_all is_cont (drop i data)" using cont 1(2,8) by (simp add: Cons_nth_drop_Suc [symmetric])
    show ?thesis
    proof (cases "sd_buffered_bytes d + 1 \<ge> 4 \<or> i = 0")
      case True
      then have "\<forall>ys. from_utf8_lossy (data @ ys) = from_utf8_lossy data @ from_utf8_lossy ys"
      proof
        assume "i = 0" then show ?thesis using lossy_conts c by simp
      next
        assume "sd_buffered_bytes d + 1 \<ge> 4"
        then show ?thesis using lossy_four_conts [OF c, of "take i data"] n by simp
      qed
      with True cont 1(2-5) show ?thesis
        by (subst tail_utf8.simps) (simp add: index_def is_cont_def utf8_tail_def)
    next
      case False
      have "\<exists>d'. tail_utf8 data (i - 1) (d\<lparr>sd_buffered_bytes := sd_buffered_bytes d + 1\<rparr>) = Some d' \<and> utf8_tail data d'"
        using False cont c 1(2-) by (intro 1(1)) (auto simp: index_def is_cont_def [symmetric])
      then show ?thesis using False cont 1(2) by (subst tail_utf8.simps) (simp add: index_def is_cont_def)
    qed
  next
    case lead: False
    have drop: "drop i data = ?b # drop (Suc i) data" using 1(2) by (simp add: Cons_nth_drop_Suc)
    have len: "length (drop (Suc i) data) = sd_buffered_bytes d" using 1(6) by simp
    have full: "\<forall>ys. from_utf8_lossy (data @ ys) = from_utf8_lossy data @ from_utf8_lossy ys" if "lead_len ?b \<le> Suc (sd_buffered_bytes d)"
      using lossy_full_tail [OF 1(8) _ lead, of "take i data"] that split len by metis
    have kept: "drop (length data - Suc (sd_buffered_bytes d)) data = ?b # drop (Suc i) data" using n drop 1(2) by simp
    show ?thesis
      using full kept lead 1(2-) n
      by (subst tail_utf8.simps)
        (auto simp: index_def is_cont_def [symmetric] utf8_tail_def lead_len_def usub_def Let_def)
  qed
qed

lemma ascii_lead: "b AND 0x80 = 0 \<Longrightarrow> \<not> is_cont b \<and> lead_len b = 1"
proof (rule all_bytes [where P = "\<lambda>b. b AND 0x80 = 0 \<longrightarrow> \<not> is_cont b \<and> lead_len b = 1", rule_format])
  have "\<forall>n \<in> set [0..<256]. (of_nat n :: u8) AND 0x80 = 0 \<longrightarrow> \<not> is_cont (of_nat n) \<and> lead_len (of_nat n) = 1" by code_simp
  then show "n \<in> set [0..<256] \<Longrightarrow> (of_nat n :: u8) AND 0x80 = 0 \<Longrightarrow> \<not> is_cont (of_nat n) \<and> lead_len (of_nat n) = 1" for n by blast
qed

lemma find_tail_utf8:
  assumes "data \<noteq> []" "sd_encoder d = Utf8" "sd_buffer d = []" "sd_missing_bytes d = 0" "sd_buffered_bytes d = 0"
  shows "\<exists>d'. find_tail data d = Some d' \<and> utf8_tail data d'"
proof (cases "last data AND 0x80 = 0")
  case True
  then have "\<not> is_cont (last data)" "lead_len (last data) = 1" by (simp_all add: ascii_lead)
  then have "\<forall>ys. from_utf8_lossy (data @ ys) = from_utf8_lossy data @ from_utf8_lossy ys"
    using lossy_full_tail [of "[]" "last data" "butlast data"] assms(1) by simp
  with True assms show ?thesis by (simp add: find_tail_def usub_def index_def last_conv_nth utf8_tail_def Suc_le_eq)
next
  case False
  have "\<exists>d'. tail_utf8 data (length data - 1) d = Some d' \<and> utf8_tail data d'"
    using assms by (intro tail_utf8_spec) auto
  with False assms show ?thesis by (simp add: find_tail_def usub_def index_def last_conv_nth Suc_le_eq)
qed

text \<open>The rest of a chunk is decoded up to the incomplete character that is kept.\<close>

lemma decode_rest_eq:
  assumes "find_tail data d = Some d'" "sd_buffered_bytes d' \<le> length data" "sd_buffer d' = []"
    "text_of k (sd_encoder d') [] = []" "data \<noteq> []"
  shows "\<exists>d2. decode_rest k s data d = Some (Inr (s @ text_of k (sd_encoder d') (take (length data - sd_buffered_bytes d') data)), d2)
    \<and> d2 = d'\<lparr>sd_buffer := drop (length data - sd_buffered_bytes d') data\<rparr>"
proof -
  define n where "n = length data - sd_buffered_bytes d'"
  have n: "n \<le> length data" "n = length data \<longleftrightarrow> sd_buffered_bytes d' = 0" using assms(2,5) by (auto simp: n_def)
  show ?thesis
  proof (cases "sd_buffered_bytes d' = 0")
    case True
    with assms n show ?thesis by (simp add: decode_rest_def usub_def)
  next
    case False
    with assms n show ?thesis by (cases "n = 0") (auto simp: decode_rest_def usub_def n_def [symmetric])
  qed
qed

lemma utf8_rest:
  assumes d: "utf8_wait d" "sd_missing_bytes d = 0" and data: "data \<noteq> []"
  shows "\<exists>out d'. decode_rest k s data d = Some (Inr (s @ out), d') \<and> utf8_wait d'
    \<and> (\<forall>ys. from_utf8_lossy (sd_buffer d @ data @ ys) = out @ from_utf8_lossy (sd_buffer d' @ ys))"
proof -
  obtain t where t: "find_tail data d = Some t" "utf8_tail data t"
    using find_tail_utf8 [OF data, of d] d by (auto simp: utf8_wait_def)
  define n where "n = length data - sd_buffered_bytes t"
  have e: "sd_encoder t = Utf8" "sd_buffer t = []" "sd_buffered_bytes t \<le> length data" using t(2) by (simp_all add: utf8_tail_def)
  have r: "decode_rest k s data d = Some (Inr (s @ from_utf8_lossy (take n data)), t\<lparr>sd_buffer := drop n data\<rparr>)"
    using decode_rest_eq [OF t(1) e(3,2) _ data, of k s] e by (simp add: n_def)
  have b: "sd_buffer d = []" using d by (simp add: utf8_wait_def)
  have "from_utf8_lossy (data @ ys) = from_utf8_lossy (take n data) @ from_utf8_lossy (drop n data @ ys)" for ys
  proof (cases "sd_buffered_bytes t = 0")
    case True
    with t(2) show ?thesis by (simp add: n_def utf8_tail_def)
  next
    case False
    then obtain b cs where "drop n data = b # cs" "lead_len b \<noteq> 1"
      using t(2) by (auto simp: n_def utf8_tail_def split: list.splits)
    then have "\<not> is_cont (byte_at (drop n data @ ys) 0)" using lead_len_ranges(4) by simp
    then show ?thesis using lossy_cut [of "drop n data @ ys" "take n data"] by simp
  qed
  moreover have "utf8_wait (t\<lparr>sd_buffer := drop n data\<rparr>)"
  proof -
    define kept where "kept = drop n data"
    have "length kept = sd_buffered_bytes t" "drop (length data - sd_buffered_bytes t) data = kept" using e by (simp_all add: n_def kept_def)
    then show ?thesis unfolding kept_def [symmetric]
      using t(2) e by (cases kept) (auto simp: utf8_wait_def utf8_tail_def split: if_splits)
  qed
  ultimately show ?thesis using r b by simp
qed

lemma utf8_write:
  assumes "utf8_wait d"
  shows "\<exists>out d'. decode_data k data d = Some (Inr out, d') \<and> utf8_wait d' \<and> True
    \<and> from_utf8_lossy (sd_buffer d @ data @ ys) = out @ from_utf8_lossy (sd_buffer d' @ ys)"
proof (rule write_parts [where W = utf8_wait and G = "\<lambda>_. True"])
  show "sd_encoder d \<in> {Utf8, Utf16le, Base64}" using assms by (simp add: utf8_wait_def)
qed (use assms finish_utf8 utf8_rest in blast)+

lemma utf8_flush:
  "utf8_wait d \<Longrightarrow> \<exists>d'. flush k d = Some (Inr (from_utf8_lossy (sd_buffer d)), d')"
  by (auto simp: flush_def utf8_wait_def usub_def)

interpretation utf8: chunked k Utf8 "\<lambda>_. True" from_utf8_lossy utf8_wait for k
proof unfold_locales
  show "utf8_wait (fresh Utf8)" by (simp add: utf8_wait_def fresh_def)
qed (simp_all add: utf8_flush utf8_write [simplified])

subsection \<open>Base64: groups of three bytes\<close>

text \<open>
  What the decoder needs of the Base64 codec: whole groups of three bytes are encoded on their own, as
  the format prescribes.
\<close>

definition b64_groups :: "codecs \<Rightarrow> bool" where
  "b64_groups k \<longleftrightarrow> (\<forall>xs ys. 3 dvd length xs \<longrightarrow> b64_encode k (xs @ ys) = b64_encode k xs @ b64_encode k ys)"

definition b64_wait :: "string_decoder \<Rightarrow> bool" where
  "b64_wait d \<longleftrightarrow> sd_encoder d = Base64 \<and> sd_buffered_bytes d = length (sd_buffer d) \<and>
     (if sd_missing_bytes d = 0 then sd_buffer d = [] else sd_buffer d \<noteq> [] \<and> length (sd_buffer d) + sd_missing_bytes d = 3)"

lemma text_of_b64: "text_of k Base64 data = map unat (b64_encode k data)"
  by (simp add: text_of_def encode_to_string_def bytes_to_b64_string_def)

lemma text_of_b64_append:
  "b64_groups k \<Longrightarrow> 3 dvd length xs \<Longrightarrow> text_of k Base64 (xs @ ys) = text_of k Base64 xs @ text_of k Base64 ys"
  by (simp add: b64_groups_def text_of_b64)

lemma text_of_b64_Nil: "b64_groups k \<Longrightarrow> text_of k Base64 [] = []"
  using text_of_b64_append [of k "[]" "[]"] by simp

lemma finish_b64:
  assumes k: "b64_groups k" and d: "b64_wait d" and m: "sd_missing_bytes d > 0"
  shows "\<exists>s rest d'. finish_previous k data d = Some (Inr s, rest, d') \<and> b64_wait d' \<and> (rest \<noteq> [] \<longrightarrow> sd_missing_bytes d' = 0)
    \<and> (\<forall>ys. text_of k Base64 (sd_buffer d @ data @ ys) = s @ text_of k Base64 (sd_buffer d' @ rest @ ys))"
proof -
  define n where "n = min (length data) (sd_missing_bytes d)"
  have n: "n \<le> length data" "n \<le> sd_missing_bytes d" by (simp_all add: n_def)
  show ?thesis
  proof (cases "n = sd_missing_bytes d")
    case True
    then have "3 dvd length (sd_buffer d @ take n data)" using d m n by (simp add: b64_wait_def)
    then have "text_of k Base64 (sd_buffer d @ data @ ys)
        = text_of k Base64 (sd_buffer d @ take n data) @ text_of k Base64 (drop n data @ ys)" for ys
      using text_of_b64_append [OF k, of "sd_buffer d @ take n data" "drop n data @ ys"] by simp
    with True n d m show ?thesis by (simp add: finish_previous_def usub_def Let_def n_def [symmetric] b64_wait_def)
  next
    case False
    then have "n = length data" "n < sd_missing_bytes d" using n by (auto simp: n_def min_def split: if_splits)
    with d m show ?thesis by (auto simp: finish_previous_def usub_def Let_def n_def [symmetric] b64_wait_def)
  qed
qed

lemma b64_rest:
  assumes k: "b64_groups k" and d: "b64_wait d" "sd_missing_bytes d = 0" and data: "data \<noteq> []"
  shows "\<exists>out d'. decode_rest k s data d = Some (Inr (s @ out), d') \<and> b64_wait d'
    \<and> (\<forall>ys. text_of k Base64 (sd_buffer d @ data @ ys) = out @ text_of k Base64 (sd_buffer d' @ ys))"
proof -
  define t where "t = tail_base64 data d"
  have t: "find_tail data d = Some t" "sd_encoder t = Base64" "sd_buffer t = []" "sd_buffered_bytes t = length data mod 3"
    "sd_missing_bytes t = (if length data mod 3 = 0 then 0 else 3 - length data mod 3)"
    using d data by (auto simp: t_def find_tail_def tail_base64_def b64_wait_def usub_def index_def Let_def Suc_le_eq)
  define n where "n = length data - length data mod 3"
  have n: "3 dvd n" "n \<le> length data" "length data - n = length data mod 3" by (simp_all add: n_def dvd_minus_mod)
  have "decode_rest k s data d = Some (Inr (s @ text_of k Base64 (take n data)), t\<lparr>sd_buffer := drop n data\<rparr>)"
    using decode_rest_eq [OF t(1) _ t(3) _ data, of k s] t text_of_b64_Nil [OF k] by (simp add: n_def)
  moreover have "text_of k Base64 (data @ ys) = text_of k Base64 (take n data) @ text_of k Base64 (drop n data @ ys)" for ys
    using text_of_b64_append [OF k, of "take n data" "drop n data @ ys"] n by simp
  moreover have "b64_wait (t\<lparr>sd_buffer := drop n data\<rparr>)" using t n by (auto simp: b64_wait_def)
  moreover have "sd_buffer d = []" using d by (simp add: b64_wait_def)
  ultimately show ?thesis by simp
qed

lemma b64_write:
  assumes "b64_groups k" "b64_wait d"
  shows "\<exists>out d'. decode_data k data d = Some (Inr out, d') \<and> b64_wait d' \<and> True
    \<and> text_of k Base64 (sd_buffer d @ data @ ys) = out @ text_of k Base64 (sd_buffer d' @ ys)"
proof (rule write_parts [where W = b64_wait and G = "\<lambda>_. True"])
  show "sd_encoder d \<in> {Utf8, Utf16le, Base64}" using assms(2) by (simp add: b64_wait_def)
qed (use assms finish_b64 b64_rest in blast)+

lemma b64_chunked:
  assumes "b64_groups k"
  shows "chunked k Base64 (\<lambda>_. True) (text_of k Base64) b64_wait"
proof unfold_locales
  show "b64_wait (fresh Base64)" by (simp add: b64_wait_def fresh_def)
  show "\<exists>d'. flush k d = Some (Inr (text_of k Base64 (sd_buffer d)), d')" if "b64_wait d" for d
    using that text_of_b64_Nil [OF assms] by (auto simp: flush_def b64_wait_def usub_def)
qed (simp_all add: b64_write [OF assms, simplified] text_of_b64_Nil assms)

subsection \<open>UTF-16: characters of two and four bytes\<close>

text \<open>
  A character whose last unit has one of the bytes \<open>0xD8\<close> to \<open>0xDB\<close> in its low half is taken for the start of another
  surrogate pair; every other character of Unicode is decoded whatever the chunks are.
\<close>

definition plain16 :: "nat \<Rightarrow> bool" where
  "plain16 c \<longleftrightarrow> is_scalar c \<and> (0x10000 \<le> c \<longrightarrow> \<not> (0xD8 \<le> c mod 256 \<and> c mod 256 \<le> 0xDB))"

definition le16 :: "ustring \<Rightarrow> u8 list" where
  "le16 s = concat (map u16_to_le_bytes (encode_utf16 s))"

definition high_half :: "u8 \<Rightarrow> bool" where
  "high_half b \<longleftrightarrow> b AND 0xFC = 0xD8"

lemma high_half_range: "high_half b \<longleftrightarrow> 0xD8 \<le> b \<and> b \<le> 0xDB"
proof (rule all_bytes [where P = "\<lambda>b. high_half b \<longleftrightarrow> 0xD8 \<le> b \<and> b \<le> 0xDB"])
  have "\<forall>n \<in> set [0..<256]. high_half (of_nat n) \<longleftrightarrow> 0xD8 \<le> (of_nat n :: u8) \<and> (of_nat n :: u8) \<le> 0xDB" by code_simp
  then show "n \<in> set [0..<256] \<Longrightarrow> high_half (of_nat n) \<longleftrightarrow> 0xD8 \<le> (of_nat n :: u8) \<and> (of_nat n :: u8) \<le> 0xDB" for n by blast
qed

lemma high_half_of: "n < 256 \<Longrightarrow> high_half (of_nat n) \<longleftrightarrow> 0xD8 \<le> n \<and> n \<le> 0xDB"
  by (simp add: high_half_range word_le_nat_alt unat_of_small)

lemma le16_Nil [simp]: "le16 [] = []"
  by (simp add: le16_def encode_utf16_def)

lemma le16_Cons: "le16 (c # s) = le16 [c] @ le16 s"
  by (simp add: le16_def encode_utf16_def)

lemma le16_append: "le16 (s @ t) = le16 s @ le16 t"
  by (simp add: le16_def encode_utf16_def)

lemma plain16_cases:
  assumes "plain16 c"
  obtains (two) lo hi where "le16 [c] = [lo, hi]" "\<not> high_half hi"
    | (four) lo hi lo2 hi2 where "le16 [c] = [lo, hi, lo2, hi2]" "high_half hi" "\<not> high_half lo2" "\<not> high_half hi2"
proof (cases "c < 0x10000")
  case True
  define hi where "hi = c div 256"
  have "hi < 256" "\<not> (0xD8 \<le> hi \<and> hi \<le> 0xDB)" using True assms by (auto simp: hi_def plain16_def is_scalar_def)
  with two True show thesis by (simp add: le16_def encode_utf16_def utf16_char_def u16_to_le_bytes_def unat_of_u16 high_half_of hi_def)
next
  case False
  define a b where "a = (c - 0x10000) div 1024" "b = (c - 0x10000) mod 1024"
  have l: "a < 1024" "b < 1024" using False assms by (auto simp: a_b_def plain16_def is_scalar_def)
  have "c = b + 256 * (256 + a * 4)" using False div_mult_mod_eq [of "c - 0x10000" 1024] by (simp add: a_b_def)
  then have m: "c mod 256 = b mod 256" by (metis mod_mult_self2)
  have q: "(0xD800 + a) div 256 = 0xD8 + a div 256" "(0xDC00 + b) div 256 = 0xDC + b div 256" "(0xDC00 + b) mod 256 = b mod 256"
    using mod_mult_self3 [of 220 256 b] by simp_all
  have "a div 256 < 4" "b div 256 < 4" using l by auto
  then have h: "high_half (of_nat (0xD8 + a div 256))" "\<not> high_half (of_nat (0xDC + b div 256))" "\<not> high_half (of_nat (b mod 256))"
    using False assms m by (simp_all add: high_half_of plain16_def del: of_nat_add)
  have "le16 [c] = [of_nat ((0xD800 + a) mod 256), of_nat (0xD8 + a div 256), of_nat (b mod 256), of_nat (0xDC + b div 256)]"
    using q False l by (simp add: le16_def encode_utf16_def utf16_char_def u16_to_le_bytes_def unat_of_u16 a_b_def [symmetric] del: of_nat_add)
  with four h show thesis by blast
qed

text \<open>The bytes of a text, and the bytes of a character of which some are still missing.\<close>

definition good16 :: "u8 list \<Rightarrow> bool" where
  "good16 bs \<longleftrightarrow> (\<exists>s. list_all plain16 s \<and> bs = le16 s)"

fun pending16 :: "u8 list \<Rightarrow> nat \<Rightarrow> bool" where
  "pending16 [] m = (m = 0)"
| "pending16 [_] m = (m = 1)"
| "pending16 [_, hi] m = (high_half hi \<and> m = 2)"
| "pending16 [_, hi, _] m = (high_half hi \<and> m = 1)"
| "pending16 _ m = False"

definition utf16_wait :: "string_decoder \<Rightarrow> bool" where
  "utf16_wait d \<longleftrightarrow> sd_encoder d = Utf16le \<and> sd_buffered_bytes d = length (sd_buffer d) \<and> pending16 (sd_buffer d) (sd_missing_bytes d)"

lemma text_of_le16:
  assumes "list_all plain16 s"
  shows "text_of k Utf16le (le16 s) = s"
proof -
  have "\<forall>c \<in> set s. is_scalar c" using assms by (auto simp: list_all_iff plain16_def)
  then show ?thesis
    by (simp add: text_of_def encode_to_string_def bytes_to_utf16_string_def le16_def pairs_concat from_encode_utf16 Let_def)
qed

lemma good16_Nil [simp]: "good16 []"
  unfolding good16_def by (rule exI [of _ "[]"]) simp

lemma has_high_surrogate_take: "has_high_surrogate data m i \<longleftrightarrow> (\<exists>b \<in> set (take (m - i) data). high_half b)"
  by (induction data m i rule: has_high_surrogate.induct) (auto simp: high_half_def take_Cons' Suc_diff_Suc split: if_splits)

definition missing16 :: "u8 list \<Rightarrow> nat \<Rightarrow> nat" where
  "missing16 data m = (if \<exists>b \<in> set (take m data). high_half b then 3 else m)"

text \<open>The bytes that are kept and those that are asked for make up the character.\<close>

lemma missing16_length:
  assumes "pending16 buf m" "0 < m" "data \<noteq> []" "plain16 c" "buf @ data @ ys = le16 [c] @ zs"
  shows "length buf + missing16 data m = length (le16 [c])
    \<and> (length data < missing16 data m \<longrightarrow> pending16 (buf @ data) (missing16 data m - length data))"
  using assms(4)
proof (cases rule: plain16_cases)
  case (two lo hi)
  with assms show ?thesis
    by (cases "(buf, m)" rule: pending16.cases) (auto simp: missing16_def neq_Nil_conv)
next
  case (four lo hi lo2 hi2)
  with assms show ?thesis
    by (cases "(buf, m)" rule: pending16.cases) (auto simp: missing16_def neq_Nil_conv take_Cons' append_eq_Cons_conv numeral_eq_Suc)
qed

lemma finish_utf16:
  assumes d: "utf16_wait d" and m: "sd_missing_bytes d > 0" and g: "good16 (sd_buffer d @ data @ ys)"
  shows "\<exists>s rest d1. finish_previous k data d = Some (Inr s, rest, d1) \<and> utf16_wait d1 \<and> good16 (sd_buffer d1 @ rest @ ys)
    \<and> (rest \<noteq> [] \<longrightarrow> sd_missing_bytes d1 = 0)
    \<and> text_of k Utf16le (sd_buffer d @ data @ ys) = s @ text_of k Utf16le (sd_buffer d1 @ rest @ ys)"
proof (cases "data = []")
  case True
  with d m g show ?thesis by (simp add: finish_previous_def utf16_wait_def align_utf16_def usub_def Let_def slice_def)
next
  case False
  obtain s where s: "list_all plain16 s" "sd_buffer d @ data @ ys = le16 s" using g by (auto simp: good16_def)
  obtain c t where c: "s = c # t" "plain16 c" "list_all plain16 t"
    using s False m d by (cases s) (auto simp: utf16_wait_def)
  have eq: "sd_buffer d @ data @ ys = le16 [c] @ le16 t" using s(2) c(1) by (simp add: le16_Cons [of c t])
  define M n where "M = missing16 data (sd_missing_bytes d)" "n = min (length data) M"
  have M: "length (sd_buffer d) + M = length (le16 [c])" "length data < M \<longrightarrow> pending16 (sd_buffer d @ data) (M - length data)"
    using missing16_length [OF _ m False c(2) eq] d by (simp_all add: utf16_wait_def M_n_def)
  have a: "align_utf16 data d = d\<lparr>sd_missing_bytes := M\<rparr>"
    by (simp add: align_utf16_def M_n_def missing16_def has_high_surrogate_take)
  show ?thesis
  proof (cases "M \<le> length data")
    case True
    then have n: "n = M" by (simp add: M_n_def)
    have "sd_buffer d @ take M data = le16 [c] \<and> drop M data @ ys = le16 t"
      using eq M(1) True by (intro append_eq_append_conv [THEN iffD1]) auto
    moreover have "text_of k Utf16le (le16 [c]) = [c]" "text_of k Utf16le (le16 t) = t" "text_of k Utf16le (le16 [c] @ le16 t) = c # t"
      using c text_of_le16 [of "[c]" k] text_of_le16 [of t k] text_of_le16 [of "c # t" k] by (simp_all add: le16_Cons [of c t])
    moreover have "good16 (le16 t)" using c(3) by (auto simp: good16_def)
    ultimately show ?thesis using a n True d eq
      by (simp add: finish_previous_def utf16_wait_def usub_def Let_def M_n_def(2) [symmetric])
  next
    case False
    then have "n = length data" by (simp add: M_n_def)
    with a False M(2) d g show ?thesis
      by (simp add: finish_previous_def utf16_wait_def usub_def Let_def M_n_def(2) [symmetric])
  qed
qed

text \<open>A prefix of the bytes of a text ends in the middle of a character or between two.\<close>

lemma le16_prefix:
  "list_all plain16 s \<Longrightarrow> data @ ys = le16 s \<Longrightarrow>
   \<exists>s1 s2 p q. s = s1 @ s2 \<and> data = le16 s1 @ p \<and> p @ ys = le16 s2 \<and> (p \<noteq> [] \<longrightarrow> (\<exists>c t. s2 = c # t \<and> p @ q = le16 [c] \<and> q \<noteq> []))"
proof (induction s arbitrary: data)
  case (Cons c s)
  have "data @ ys = le16 [c] @ le16 s" using Cons.prems(2) by (simp add: le16_Cons [of c s])
  then consider (whole) rest where "data = le16 [c] @ rest" "rest @ ys = le16 s"
    | (part) q where "data @ q = le16 [c]" "q \<noteq> []"
    unfolding append_eq_append_conv2 by (metis append_Nil append_Nil2)
  then show ?case
  proof cases
    case whole
    have "list_all plain16 s" using Cons.prems(1) by simp
    then obtain s1 s2 p q where "s = s1 @ s2" "rest = le16 s1 @ p" "p @ ys = le16 s2"
        "p \<noteq> [] \<longrightarrow> (\<exists>c t. s2 = c # t \<and> p @ q = le16 [c] \<and> q \<noteq> [])" using Cons.IH whole(2) by metis
    with whole show ?thesis by (intro exI [of _ "c # s1"] exI [of _ s2] exI [of _ p] exI [of _ q]) (simp add: le16_Cons [of c s1])
  next
    case part
    with Cons.prems(2) show ?thesis
      by (intro exI [of _ "[]"] exI [of _ "c # s"] exI [of _ data] exI [of _ q]) simp
  qed
qed simp

lemma le16_last:
  assumes "list_all plain16 s" "s \<noteq> []"
  shows "\<exists>xs a b. le16 s = xs @ [a, b] \<and> \<not> high_half b"
proof -
  obtain t c where s: "s = t @ [c]" using assms(2) by (cases s rule: rev_cases) auto
  then have "plain16 c" using assms(1) by simp
  then show ?thesis
  proof (cases rule: plain16_cases)
    case (two lo hi)
    with s show ?thesis by (intro exI [of _ "le16 t"]) (simp add: le16_append)
  next
    case (four lo hi lo2 hi2)
    with s show ?thesis by (intro exI [of _ "le16 t @ [lo, hi]"]) (simp add: le16_append)
  qed
qed

lemma even_le16: "even (length (le16 s))"
  by (simp add: le16_def)

lemma prefix_pending:
  assumes "plain16 c" "p @ q = le16 [c]" "q \<noteq> []"
  shows "\<exists>m. pending16 p m"
  using assms(1)
proof (cases rule: plain16_cases)
  case (two lo hi)
  with assms(2,3) show ?thesis by (auto simp: append_eq_Cons_conv)
next
  case (four lo hi lo2 hi2)
  with assms(2,3) show ?thesis by (auto simp: append_eq_Cons_conv)
qed

lemma tail_utf16_spec:
  assumes s: "list_all plain16 s" and d: "sd_missing_bytes d = 0" "sd_buffered_bytes d = 0" and data: "data = le16 s @ p" "data \<noteq> []"
    and p: "pending16 p m"
  shows "tail_utf16 data d = Some (d\<lparr>sd_buffered_bytes := length p, sd_missing_bytes := m\<rparr>)"
proof (cases "(p, m)" rule: pending16.cases)
  case (1 m')
  then have "s \<noteq> []" using data by auto
  then obtain xs a b where l: "le16 s = xs @ [a, b]" "\<not> high_half b" using le16_last s by blast
  then have "even (length xs)" using even_le16 [of s] by simp
  with l 1 data p d show ?thesis by (simp add: tail_utf16_def index_def usub_def nth_append high_half_def even_iff_mod_2_eq_zero)
next
  case (2 x m')
  show ?thesis
  proof (cases "s = []")
    case True
    with 2 data p show ?thesis by (simp add: tail_utf16_def)
  next
    case False
    then obtain xs a b where l: "le16 s = xs @ [a, b]" "\<not> high_half b" using le16_last s by blast
    then have "even (length xs)" using even_le16 [of s] by simp
    with l 2 data p show ?thesis by (simp add: tail_utf16_def index_def nth_append high_half_def) presburger
  qed
next
  case (3 x hi m')
  with even_le16 [of s] data p show ?thesis by (simp add: tail_utf16_def index_def usub_def nth_append high_half_def even_iff_mod_2_eq_zero)
next
  case (4 x hi y m')
  with even_le16 [of s] data p show ?thesis by (simp add: tail_utf16_def index_def nth_append high_half_def) presburger
qed (use p in simp)

lemma utf16_rest:
  assumes d: "utf16_wait d" "sd_missing_bytes d = 0" and data: "data \<noteq> []" and g: "good16 (sd_buffer d @ data @ ys)"
  shows "\<exists>out d2. decode_rest k s data d = Some (Inr (s @ out), d2) \<and> utf16_wait d2 \<and> good16 (sd_buffer d2 @ ys)
    \<and> text_of k Utf16le (sd_buffer d @ data @ ys) = out @ text_of k Utf16le (sd_buffer d2 @ ys)"
proof -
  have e: "sd_encoder d = Utf16le" "sd_buffer d = []" "sd_buffered_bytes d = 0"
    using d by (cases "(sd_buffer d, sd_missing_bytes d)" rule: pending16.cases; simp add: utf16_wait_def)+
  obtain u where u: "list_all plain16 u" "data @ ys = le16 u" using g e(2) by (auto simp: good16_def)
  then obtain s1 s2 p q where p: "u = s1 @ s2" "data = le16 s1 @ p" "p @ ys = le16 s2"
      "p \<noteq> [] \<longrightarrow> (\<exists>c t. s2 = c # t \<and> p @ q = le16 [c] \<and> q \<noteq> [])" using le16_prefix by metis
  have l: "list_all plain16 s1" "list_all plain16 s2" using u(1) p(1) by simp_all
  obtain m where m: "pending16 p m"
  proof (cases "p = []")
    case False
    with p(4) obtain c t where "s2 = c # t" "p @ q = le16 [c]" "q \<noteq> []" by blast
    with l(2) that show thesis using prefix_pending [of c p q] by auto
  qed (use that [of 0] in simp)
  define t where "t = d\<lparr>sd_buffered_bytes := length p, sd_missing_bytes := m\<rparr>"
  have "find_tail data d = Some t"
    using tail_utf16_spec [OF l(1) d(2) e(3) p(2) data m] e data by (simp add: t_def find_tail_def usub_def index_def Suc_le_eq)
  then have "decode_rest k s data d = Some (Inr (s @ s1), t\<lparr>sd_buffer := p\<rparr>)"
    using decode_rest_eq [of data d t k s] data e p(2) text_of_le16 [OF l(1), of k] text_of_le16 [of "[]" k] by (simp add: t_def)
  moreover have "utf16_wait (t\<lparr>sd_buffer := p\<rparr>)" using e m by (simp add: utf16_wait_def t_def)
  moreover have "good16 (p @ ys)" using p(3) l(2) by (auto simp: good16_def)
  moreover have "text_of k Utf16le (data @ ys) = s1 @ text_of k Utf16le (p @ ys)"
    using u p(1,3) l by (simp add: text_of_le16)
  ultimately show ?thesis using e(2) by simp
qed

lemma utf16_write:
  assumes "utf16_wait d" "good16 (sd_buffer d @ data @ ys)"
  shows "\<exists>out d'. decode_data k data d = Some (Inr out, d') \<and> utf16_wait d' \<and> good16 (sd_buffer d' @ ys)
    \<and> text_of k Utf16le (sd_buffer d @ data @ ys) = out @ text_of k Utf16le (sd_buffer d' @ ys)"
proof (rule write_parts [where W = utf16_wait and G = good16])
  show "sd_encoder d \<in> {Utf8, Utf16le, Base64}" using assms by (simp add: utf16_wait_def)
qed (use assms finish_utf16 utf16_rest in blast)+

lemma utf16_flush:
  assumes "utf16_wait d" "good16 (sd_buffer d)"
  shows "\<exists>d'. flush k d = Some (Inr (text_of k Utf16le (sd_buffer d)), d')"
proof -
  obtain s where s: "list_all plain16 s" "sd_buffer d = le16 s" using assms(2) by (auto simp: good16_def)
  have "s = []"
  proof (rule ccontr)
    assume "s \<noteq> []"
    then obtain xs a b where "le16 s = xs @ [a, b]" "\<not> high_half b" using le16_last s(1) by blast
    with s(2) even_le16 [of s] assms(1) show False
      by (cases "(sd_buffer d, sd_missing_bytes d)" rule: pending16.cases) (auto simp: utf16_wait_def)
  qed
  with s assms(1) text_of_le16 [of "[]" k] show ?thesis by (simp add: flush_def utf16_wait_def)
qed

interpretation utf16: chunked k Utf16le good16 "text_of k Utf16le" utf16_wait for k
proof unfold_locales
  show "utf16_wait (fresh Utf16le)" by (simp add: utf16_wait_def fresh_def)
  show "text_of k Utf16le [] = []" using text_of_le16 [of "[]" k] by simp
qed (fact utf16_write utf16_flush)+

subsection \<open>No panics\<close>

definition sd_safe :: "string_decoder \<Rightarrow> bool" where
  "sd_safe d \<longleftrightarrow> (sd_missing_bytes d = 0 \<longrightarrow> sd_buffered_bytes d = 0) \<and> sd_buffered_bytes d \<le> length (sd_buffer d)"

lemma align_utf8_safe:
  assumes "sd_safe d" "sd_missing_bytes d > 0"
  shows "\<exists>rest d'. align_utf8 data d = Some (rest, d') \<and> sd_encoder d' = sd_encoder d \<and> sd_buffered_bytes d' \<le> length (sd_buffer d')"
proof (cases "first_non_cont data (sd_missing_bytes d) 0")
  case (Some i)
  with first_non_cont_Some [OF Some] assms show ?thesis by (simp add: align_utf8_def sd_safe_def)
qed (use assms in \<open>simp add: align_utf8_def sd_safe_def\<close>)

lemma finish_previous_safe:
  assumes "sd_safe d" "sd_missing_bytes d > 0"
  shows "\<exists>s rest d'. finish_previous k data d = Some (Inr s, rest, d') \<and> sd_safe d' \<and> sd_encoder d' = sd_encoder d
    \<and> (rest \<noteq> [] \<longrightarrow> sd_missing_bytes d' = 0)"
proof -
  obtain data1 d1 where d1: "(if sd_encoder d = Utf8 then align_utf8 data d else if sd_encoder d = Utf16le then Some (data, align_utf16 data d)
      else Some (data, d)) = Some (data1, d1)" "sd_encoder d1 = sd_encoder d" "sd_buffered_bytes d1 \<le> length (sd_buffer d1)"
    using align_utf8_safe [OF assms, of data] assms by (cases "sd_encoder d") (auto simp: align_utf16_def sd_safe_def)
  define n where "n = min (length data1) (sd_missing_bytes d1)"
  have "n \<le> length data1" "n \<le> sd_missing_bytes d1" "n < length data1 \<longrightarrow> n = sd_missing_bytes d1" by (auto simp: n_def)
  with d1 show ?thesis
    by (auto simp: finish_previous_def n_def [symmetric] usub_def Let_def sd_safe_def)
qed

lemma tail_utf8_safe:
  "i < length data \<Longrightarrow> sd_missing_bytes d = 0 \<Longrightarrow> sd_buffered_bytes d = length data - Suc i \<Longrightarrow>
   \<exists>d'. tail_utf8 data i d = Some d' \<and> sd_encoder d' = sd_encoder d \<and> sd_buffered_bytes d' \<le> length data
     \<and> (sd_missing_bytes d' = 0 \<longrightarrow> sd_buffered_bytes d' = 0)"
proof (induction data i d rule: tail_utf8.induct)
  case (1 data i d)
  show ?case
  proof (cases "data ! i AND 0xC0 = 0x80 \<and> \<not> (sd_buffered_bytes d + 1 \<ge> 4 \<or> i = 0)")
    case True
    have "\<exists>d'. tail_utf8 data (i - 1) (d\<lparr>sd_buffered_bytes := sd_buffered_bytes d + 1\<rparr>) = Some d' \<and> sd_encoder d' = sd_encoder d
        \<and> sd_buffered_bytes d' \<le> length data \<and> (sd_missing_bytes d' = 0 \<longrightarrow> sd_buffered_bytes d' = 0)"
      using True 1(2-) 1(1) [of "data ! i" "d\<lparr>sd_buffered_bytes := sd_buffered_bytes d + 1\<rparr>"] by (simp add: index_def Suc_diff_Suc)
    with True 1(2) show ?thesis by (subst tail_utf8.simps) (simp add: index_def)
  next
    case False
    with 1(2-4) show ?thesis by (subst tail_utf8.simps) (auto simp: index_def usub_def Let_def)
  qed
qed

lemma find_tail_safe:
  assumes "data \<noteq> []" "sd_missing_bytes d = 0" "sd_buffered_bytes d = 0"
  shows "\<exists>d'. find_tail data d = Some d' \<and> sd_encoder d' = sd_encoder d \<and> sd_buffered_bytes d' \<le> length data
    \<and> (sd_missing_bytes d' = 0 \<longrightarrow> sd_buffered_bytes d' = 0)"
proof -
  have l: "length data - 1 < length data" "1 \<le> length data" using assms(1) by (simp_all add: Suc_le_eq)
  note t = tail_utf8_safe [OF l(1) assms(2)]
  have "\<exists>d'. tail_utf16 data d = Some d' \<and> sd_encoder d' = sd_encoder d \<and> sd_buffered_bytes d' \<le> length data
      \<and> (sd_missing_bytes d' = 0 \<longrightarrow> sd_buffered_bytes d' = 0)"
    using l assms by (auto simp: tail_utf16_def index_def usub_def)
  moreover have "length data mod 3 \<le> length data" by simp
  ultimately show ?thesis
    using t l assms by (auto simp: find_tail_def usub_def index_def tail_base64_def Let_def)
qed

lemma decode_rest_safe:
  assumes "sd_safe d" "sd_missing_bytes d = 0" "data \<noteq> []"
  shows "\<exists>s' d'. decode_rest k s data d = Some (Inr s', d') \<and> sd_safe d' \<and> sd_encoder d' = sd_encoder d"
proof -
  obtain t where "find_tail data d = Some t" "sd_encoder t = sd_encoder d" "sd_buffered_bytes t \<le> length data"
      "sd_missing_bytes t = 0 \<longrightarrow> sd_buffered_bytes t = 0"
    using find_tail_safe [OF assms(3,2)] assms by (auto simp: sd_safe_def)
  then show ?thesis by (auto simp: decode_rest_def usub_def sd_safe_def Let_def)
qed

lemma decode_data_safe:
  assumes "sd_safe d"
  shows "\<exists>s d'. decode_data k data d = Some (Inr s, d') \<and> sd_safe d' \<and> sd_encoder d' = sd_encoder d"
proof (cases "sd_encoder d \<in> {Utf8, Utf16le, Base64}")
  case True
  obtain s rest d1 where f: "(if sd_missing_bytes d > 0 then finish_previous k data d else Some (Inr [], data, d)) = Some (Inr s, rest, d1)"
      "sd_safe d1" "sd_encoder d1 = sd_encoder d" "rest \<noteq> [] \<longrightarrow> sd_missing_bytes d1 = 0"
    using finish_previous_safe [OF assms, of k data] assms by (cases "sd_missing_bytes d > 0") auto
  show ?thesis
  proof (cases "rest = []")
    case False
    with f obtain s' d' where "decode_rest k s rest d1 = Some (Inr s', d')" "sd_safe d'" "sd_encoder d' = sd_encoder d1"
      using decode_rest_safe [of d1 rest k s] by auto
    with f True False show ?thesis by (auto simp: decode_data_def)
  qed (use f True in \<open>auto simp: decode_data_def\<close>)
qed (use assms in \<open>auto simp: decode_data_def\<close>)

lemma flush_safe:
  assumes "sd_safe d"
  shows "\<exists>s d'. flush k d = Some (Inr s, d') \<and> sd_safe d' \<and> sd_encoder d' = sd_encoder d"
proof (cases "sd_encoder d = Utf16le \<and> sd_buffered_bytes d mod 2 = 1")
  case True
  then have "1 \<le> sd_buffered_bytes d" by (cases "sd_buffered_bytes d") auto
  then have "1 \<le> sd_missing_bytes d" "1 \<le> length (sd_buffer d)" using assms by (auto simp: sd_safe_def intro: le_less_trans)
  with True \<open>1 \<le> sd_buffered_bytes d\<close> assms show ?thesis
    by (auto simp: flush_def usub_def index_def sd_safe_def Let_def)
next
  case False
  with assms show ?thesis by (auto simp: flush_def usub_def sd_safe_def)
qed

datatype sd_op = SdWrite "u8 list option" | SdEnd "u8 list option"

fun sd_exec :: "codecs \<Rightarrow> sd_op list \<Rightarrow> string_decoder \<Rightarrow> ((ustring + ustring) list \<times> string_decoder) option" where
  "sd_exec k [] d = Some ([], d)"
| "sd_exec k (x # xs) d =
     do { (r, d) \<leftarrow> (case x of SdWrite b \<Rightarrow> decoder_write k b d | SdEnd b \<Rightarrow> decoder_end k b d);
          (rs, d) \<leftarrow> sd_exec k xs d;
          Some (r # rs, d) }"

lemma decoder_op_safe:
  assumes "sd_safe d"
  shows "\<exists>r d'. (case x of SdWrite b \<Rightarrow> decoder_write k b d | SdEnd b \<Rightarrow> decoder_end k b d) = Some (r, d') \<and> sd_safe d'
    \<and> ((\<exists>s. r = Inr s) \<or> x = SdWrite None)"
proof (cases x)
  case (SdWrite b)
  with decode_data_safe [OF assms] assms show ?thesis by (cases b) (fastforce simp: decoder_write_def)+
next
  case (SdEnd b)
  obtain s d1 where d1: "(case b of Some data \<Rightarrow> decode_data k data d | None \<Rightarrow> Some (Inr [], d)) = Some (Inr s, d1)" "sd_safe d1"
    using decode_data_safe [OF assms, of k "the b"] assms by (cases b) auto
  obtain t d2 where "flush k d1 = Some (Inr t, d2)" "sd_safe d2" using flush_safe [OF d1(2)] by blast
  with d1 SdEnd show ?thesis by (auto simp: decoder_end_def)
qed

lemma sd_exec_safe:
  "sd_safe d \<Longrightarrow> \<exists>rs d'. sd_exec k xs d = Some (rs, d') \<and> length rs = length xs
     \<and> (\<forall>i < length xs. (\<exists>s. rs ! i = Inr s) \<or> xs ! i = SdWrite None)"
proof (induction xs arbitrary: d)
  case (Cons x xs)
  obtain r d1 where r: "(case x of SdWrite b \<Rightarrow> decoder_write k b d | SdEnd b \<Rightarrow> decoder_end k b d) = Some (r, d1)" "sd_safe d1"
      "(\<exists>s. r = Inr s) \<or> x = SdWrite None"
    using decoder_op_safe [OF Cons.prems] by blast
  obtain rs d2 where "sd_exec k xs d1 = Some (rs, d2)" "length rs = length xs"
      "\<forall>i < length xs. (\<exists>s. rs ! i = Inr s) \<or> xs ! i = SdWrite None"
    using Cons.IH [OF r(2)] by blast
  with r show ?case by (auto simp: less_Suc_eq_0_disj)
qed simp

subsection \<open>What holds of every decoder\<close>

lemma new_decoder: "decoder_new l = Inr d \<Longrightarrow> sd_safe d"
  by (auto simp: decoder_new_def Let_def sd_safe_def split: sum.splits)

text \<open>
  (C15) Whatever the encoding and whatever is written, also after the end, no call panics: no index is
  out of range and no count goes below zero.  Every call with bytes returns a string.
\<close>

theorem decoder_never_panics:
  assumes "decoder_new l = Inr d"
  shows "\<exists>rs d'. sd_exec k xs d = Some (rs, d') \<and> length rs = length xs
    \<and> (\<forall>i < length xs. (\<exists>s. rs ! i = Inr s) \<or> xs ! i = SdWrite None)"
  using new_decoder [OF assms] by (rule sd_exec_safe)

theorem decoder_never_panics_witness:
  "\<forall>k. \<exists>rs d'. sd_exec k [SdWrite (Some [0xE2, 0x82]), SdEnd None] (fresh Utf8) = Some (rs, d') \<and> length rs = 2
    \<and> (\<exists>s. rs ! 0 = Inr s) \<and> (\<exists>s. rs ! 1 = Inr s)"
proof
  fix k
  have "decoder_new None = Inr (fresh Utf8)" by (simp add: fresh_def) code_simp
  from decoder_never_panics [OF this, of k "[SdWrite (Some [0xE2, 0x82]), SdEnd None]"]
  show "\<exists>rs d'. sd_exec k [SdWrite (Some [0xE2, 0x82]), SdEnd None] (fresh Utf8) = Some (rs, d') \<and> length rs = 2
    \<and> (\<exists>s. rs ! 0 = Inr s) \<and> (\<exists>s. rs ! 1 = Inr s)"
    by (auto simp: numeral_2_eq_2 All_less_Suc simp del: sd_exec.simps)
qed

text \<open>
  (C14) The chunks of UTF-8 input do not matter: however any bytes, well formed or not, are cut into
  chunks, the strings that the decoder returns join up to the text that decoding all bytes at once gives.
\<close>

theorem utf8_chunks: "decode_chunks k None chunks = Some (Inr (from_utf8_lossy (concat chunks)))"
proof -
  have "decoder_new None = decoder_new (Some (str ''utf-8''))" by (simp add: decoder_new_def)
  then have "decode_chunks k None chunks = decode_chunks k (Some (str ''utf-8'')) chunks" by (simp add: decode_chunks_def)
  also have "\<dots> = Some (Inr (from_utf8_lossy (concat chunks)))"
    by (rule utf8.decode_chunks_ok) (code_simp, simp)
  finally show ?thesis .
qed

text \<open>
  (C17) The chunks of Base64 output do not matter either, for every codec that encodes groups of three bytes
  on their own.
\<close>

theorem b64_chunks:
  assumes "b64_groups k"
  shows "decode_chunks k (Some (str ''base64'')) chunks = Some (Inr (map unat (b64_encode k (concat chunks))))"
proof -
  have "encoder_from_str (str ''base64'') = Inr Base64" by code_simp
  from chunked.decode_chunks_ok [OF b64_chunked [OF assms] this] show ?thesis by (simp add: text_of_b64)
qed

text \<open>A Base64 codec, for the witness.\<close>

definition b64_digit :: "nat \<Rightarrow> u8" where
  "b64_digit n = of_nat (if n < 26 then n + 65 else if n < 52 then n + 71 else if n < 62 then n - 4 else if n = 62 then 43 else 47)"

fun b64_text :: "u8 list \<Rightarrow> u8 list" where
  "b64_text [] = []"
| "b64_text [a] = [b64_digit (unat a div 4), b64_digit (unat a mod 4 * 16), 61, 61]"
| "b64_text [a, b] = [b64_digit (unat a div 4), b64_digit (unat a mod 4 * 16 + unat b div 16), b64_digit (unat b mod 16 * 4), 61]"
| "b64_text (a # b # c # bs) =
     [b64_digit (unat a div 4), b64_digit (unat a mod 4 * 16 + unat b div 16), b64_digit (unat b mod 16 * 4 + unat c div 64),
      b64_digit (unat c mod 64)] @ b64_text bs"

definition b64_codec :: codecs where
  "b64_codec = \<lparr>hex_encode = \<lambda>bs. [], hex_decode = \<lambda>_. Inl [], b64_encode = b64_text, b64_forgiving_decode = \<lambda>_. Inl [],
     b64_decode = \<lambda>_. Inl [], b64_url_encode = b64_text, b64_url_decode = \<lambda>_. Inl []\<rparr>"

lemma b64_text_append: "3 dvd length xs \<Longrightarrow> b64_text (xs @ ys) = b64_text xs @ b64_text ys"
proof (induction xs rule: b64_text.induct)
  case (4 a b c bs)
  then have "3 dvd length bs" by simp presburger
  with 4 show ?case by simp
qed (simp_all add: nat_dvd_not_less)

theorem b64_chunks_witness:
  "b64_groups b64_codec \<and>
   decode_chunks b64_codec (Some (str ''base64'')) [[77], [97, 110, 77], [97]] = Some (Inr (str ''TWFuTWE=''))"
proof
  show g: "b64_groups b64_codec" by (simp add: b64_groups_def b64_codec_def b64_text_append)
  show "decode_chunks b64_codec (Some (str ''base64'')) [[77], [97, 110, 77], [97]] = Some (Inr (str ''TWFuTWE=''))"
    unfolding b64_chunks [OF g] by code_simp
qed

text \<open>
  (C16) UTF-16 text is decoded the same whatever the chunks are, also when they split a surrogate pair or a
  unit, for every text without a character beyond the first plane whose number has a low byte from \<open>0xD8\<close> to \<open>0xDB\<close>.
\<close>

theorem utf16_chunks:
  assumes "list_all plain16 s" "concat chunks = le16 s"
  shows "decode_chunks k (Some (str ''utf16le'')) chunks = Some (Inr s)"
proof -
  have "encoder_from_str (str ''utf16le'') = Inr Utf16le" by code_simp
  moreover have "good16 (concat chunks)" using assms by (auto simp: good16_def)
  ultimately show ?thesis using utf16.decode_chunks_ok [of "str ''utf16le''" chunks k] text_of_le16 assms by metis
qed

theorem utf16_chunks_witness:
  "decode_chunks b64_codec (Some (str ''utf16le'')) [[0x3D], [0xD8, 0x00], [0xDE, 0x61, 0x00]] = Some (Inr [0x1F600, 0x61])"
proof (rule utf16_chunks)
  show "list_all plain16 [0x1F600, 0x61]" "concat [[0x3D], [0xD8, 0x00], [0xDE, 0x61, 0x00]] = le16 [0x1F600, 0x61]"
    by (simp_all add: plain16_def is_scalar_def le16_def encode_utf16_def utf16_char_def u16_to_le_bytes_def)
qed

text \<open>
  A character that is left out above: the low byte of its second unit looks like a high surrogate, the decoder
  asks for three more bytes instead of two and the rest of the text is lost.
\<close>

lemma new_utf16: "decoder_new (Some (str ''utf16le'')) = Inr (fresh Utf16le)"
  by code_simp

lemmas decode_evaluation = decode_chunks_def new_utf16 fresh_def decoder_write_def decoder_end_def decode_data_def finish_previous_def
  align_utf16_def decode_rest_def find_tail_def tail_utf16_def usub_def slice_def index_def flush_def text_of_def encode_to_string_def
  bytes_to_utf16_string_def from_utf16_lossy_def u16_from_le_bytes_def Let_def

lemma utf16_pair_swallows_byte:
  "concat [[0x3D, 0xD8], [0xD8, 0xDC, 0x61, 0x00]] = le16 [0x1F4D8, 0x61] \<and>
   decode_chunks k (Some (str ''utf16le'')) [[0x3D, 0xD8], [0xD8, 0xDC, 0x61, 0x00]] = Some (Inr [0x1F4D8, REPLACEMENT])"
  by (simp add: le16_def encode_utf16_def utf16_char_def u16_to_le_bytes_def decode_evaluation)

text \<open>Ending a decoder that holds half a unit leaves this byte in the buffer, where it spoils later text.\<close>

lemma utf16_end_keeps_byte:
  "map_option fst (sd_exec k [SdWrite (Some [0x41]), SdEnd None, SdWrite (Some [0x62]), SdWrite (Some [0x00])] (fresh Utf16le))
   = Some [Inr [], Inr [], Inr [], Inr [0x6241, REPLACEMENT]]"
  by (simp add: decode_evaluation)

end
