(* ===== verification/PackageResolver.thy ===== *)
theory PackageResolver
  imports PathModule
begin

text \<open>
  \<^verbatim>\<open>llrt_modules/src/package/resolver.rs\<close>: how a module specifier becomes the path of a file, after the
  algorithm of Node's \<^verbatim>\<open>require\<close>.  The operating system is an argument: a record of the questions that the
  code asks it (files, directories, symbolic links, the bytes of a file, the working and home directories, the
  platform variable) and of the JSON parser, a third-party library.  The answers do not change during a call.
  The cache of \<^verbatim>\<open>node_modules\<close> directories, a global variable, is passed and returned.
\<close>

datatype json = JStatic | JString string | JArray "json list" | JObject "(string \<times> json) list"

record sys_env =
  is_file :: "string \<Rightarrow> bool"
  is_dir :: "string \<Rightarrow> bool"
  path_exists :: "string \<Rightarrow> bool"
  read_link :: "string \<Rightarrow> string option"
  read_bytes :: "string \<Rightarrow> u8 list option"
  parse_json :: "u8 list \<Rightarrow> json option"
  working_dir :: string
  home_dir :: "string option"
  platform_var :: "string option"

datatype resolve_error = NotFound string string | ReadFailed | ParseFailed

type_synonym 'a resolved = "resolve_error + 'a"

type_synonym dir_cache = "string \<rightharpoonup> string list option"

subsection \<open>Strings and paths of the standard library\<close>

definition has_prefix :: "string \<Rightarrow> string \<Rightarrow> bool" where
  "has_prefix pat s \<longleftrightarrow> take (length pat) s = pat"

function trim_start_matches :: "string \<Rightarrow> string \<Rightarrow> string" where
  "trim_start_matches pat s =
     (if pat \<noteq> [] \<and> has_prefix pat s then trim_start_matches pat (drop (length pat) s) else s)"
  by pat_completeness auto
termination
proof (relation "measure (\<lambda>(pat, s). length s)", simp)
  fix pat s :: string
  assume "pat \<noteq> [] \<and> has_prefix pat s"
  then have "pat \<noteq> []" "s \<noteq> []" by (auto simp: has_prefix_def)
  then show "((pat, drop (length pat) s), pat, s) \<in> measure (\<lambda>(pat, s). length s)" by simp
qed

declare trim_start_matches.simps [simp del]

definition trim_end_matches :: "string \<Rightarrow> string \<Rightarrow> string" where
  "trim_end_matches pat s = rev (trim_start_matches (rev pat) (rev s))"

text \<open>
  \<^verbatim>\<open>std::path\<close> on Unix.  Components are read from the back: the text after the last separator beyond the first
  \<open>lb\<close> characters (the root, or a leading dot), where empty components and dots are passed over.
\<close>

definition include_cur_dir :: "string \<Rightarrow> bool" where
  "include_cur_dir s \<longleftrightarrow> s = ''.'' \<or> take 2 s = ''./''"

definition len_before_body :: "string \<Rightarrow> nat" where
  "len_before_body s = (if is_absolute s \<or> include_cur_dir s then 1 else 0)"

definition back_comp :: "nat \<Rightarrow> string \<Rightarrow> nat \<times> string" where
  "back_comp lb s =
     (let body = drop lb s in
      case rfind_char MAIN_SEPARATOR body of
        None \<Rightarrow> (length body, body)
      | Some i \<Rightarrow> (length body - i, drop (i + 1) body))"

lemma rfind_char_less: "rfind_char c s = Some i \<Longrightarrow> i < length s"
  by (auto simp: rfind_char_def split: if_splits) (metis Suc_pred diff_less_Suc length_pos_if_in_set diff_Suc_less less_imp_diff_less)

lemma back_comp_size: "lb < length s \<Longrightarrow> back_comp lb s = (n, c) \<Longrightarrow> 0 < n \<and> n \<le> length s"
  by (auto simp: back_comp_def Let_def split: option.splits dest: rfind_char_less)

function trim_right :: "nat \<Rightarrow> string \<Rightarrow> string" where
  "trim_right lb s =
     (if length s \<le> lb then s
      else (case back_comp lb s of (n, nm) \<Rightarrow>
        if nm \<noteq> [] \<and> nm \<noteq> ''.'' then s else trim_right lb (take (length s - n) s)))"
  by pat_completeness auto
termination
proof (relation "measure (\<lambda>(lb, s). length s)", simp)
  fix lb n :: nat and s nm :: string
  assume "\<not> length s \<le> lb" "(n, nm) = back_comp lb s" "\<not> (nm \<noteq> [] \<and> nm \<noteq> ''.'')"
  then have "0 < n" "n \<le> length s" using back_comp_size [of lb s n nm] by simp_all
  then show "((lb, take (length s - n) s), lb, s) \<in> measure (\<lambda>(lb, s). length s)" by simp
qed

declare trim_right.simps [simp del]

definition parent :: "string \<Rightarrow> string option" where
  "parent s =
     (let lb = len_before_body s; t = trim_right lb s in
      if lb < length t then Some (trim_right lb (take (length t - fst (back_comp lb t)) t))
      else if \<not> is_absolute s \<and> include_cur_dir s then Some []
      else None)"

definition file_name :: "string \<Rightarrow> string option" where
  "file_name s =
     (let lb = len_before_body s; t = trim_right lb s in
      if lb < length t \<and> snd (back_comp lb t) \<noteq> ''..'' then Some (snd (back_comp lb t)) else None)"

definition path_push :: "string \<Rightarrow> string \<Rightarrow> string" where
  "path_push s name =
     (if is_absolute name then name
      else if s \<noteq> [] \<and> last s \<noteq> MAIN_SEPARATOR then s @ MAIN_SEPARATOR # name else s @ name)"

text \<open>\<^verbatim>\<open>PathBuf::pop\<close>; without a parent the path stays as it is.\<close>

lemma trim_right_length: "length (trim_right lb s) \<le> length s"
proof (induction lb s rule: trim_right.induct)
  case (1 lb s)
  then show ?case by (subst trim_right.simps) (auto split: prod.split intro: le_trans)
qed

lemma parent_shorter: "parent s = Some t \<Longrightarrow> length t < length s"
proof -
  assume p: "parent s = Some t"
  define lb u where "lb = len_before_body s" and "u = trim_right lb s"
  have u: "length u \<le> length s" by (simp add: u_def trim_right_length)
  show ?thesis
  proof (cases "lb < length u")
    case True
    obtain n c where n: "back_comp lb u = (n, c)" by fastforce
    then have "0 < n" "n \<le> length u" using back_comp_size True by blast+
    moreover have "t = trim_right lb (take (length u - n) u)" using p True n by (simp add: parent_def lb_def [symmetric] u_def [symmetric] Let_def)
    ultimately show ?thesis using trim_right_length [of lb "take (length u - n) u"] u by simp
  next
    case False
    then show ?thesis using p by (auto simp: parent_def lb_def [symmetric] u_def [symmetric] Let_def include_cur_dir_def split: if_splits)
  qed
qed

subsection \<open>Package descriptions\<close>

definition SUPPORTED_EXTENSIONS :: "string list" where
  "SUPPORTED_EXTENSIONS = [''.js'', ''.mjs'', ''.cjs'', ''.lrt'']"

definition JS_EXTENSIONS :: "string list" where
  "JS_EXTENSIONS = [''.js'', ''.mjs'', ''.cjs'']"

definition is_supported_ext :: "string \<Rightarrow> bool" where
  "is_supported_ext ext \<longleftrightarrow> ext = ''.js'' \<or> ext = ''.mjs'' \<or> ext = ''.cjs'' \<or> ext = ''.lrt''"

definition CJS_IMPORT_PREFIX :: string where
  "CJS_IMPORT_PREFIX = ''__cjs:''"

definition CJS_LOADER_PREFIX :: string where
  "CJS_LOADER_PREFIX = ''__cjsm:''"

definition LLRT_PLATFORM :: "sys_env \<Rightarrow> string" where
  "LLRT_PLATFORM env = (case platform_var env of Some p \<Rightarrow> if p = ''node'' then p else ''browser'' | None \<Rightarrow> ''browser'')"

definition HOME_NODE_MODULES :: "sys_env \<Rightarrow> string list" where
  "HOME_NODE_MODULES env =
     (case home_dir env of
        None \<Rightarrow> []
      | Some home \<Rightarrow>
          filter (is_dir env) [path_push home ''.node_modules'', path_push home ''.node_libraries''])"

definition read_package :: "sys_env \<Rightarrow> string \<Rightarrow> json resolved" where
  "read_package env path =
     (case read_bytes env path of
        None \<Rightarrow> Inl ReadFailed
      | Some bytes \<Rightarrow> (case parse_json env bytes of None \<Rightarrow> Inl ParseFailed | Some j \<Rightarrow> Inr j))"

definition get_string_field :: "json \<Rightarrow> string \<Rightarrow> string option" where
  "get_string_field package_json k =
     (case package_json of
        JObject m \<Rightarrow> (case map_of m k of Some (JString v) \<Rightarrow> Some v | _ \<Rightarrow> None)
      | _ \<Rightarrow> None)"

definition is_exports_field_exists :: "json \<Rightarrow> bool" where
  "is_exports_field_exists package_json =
     (case package_json of
        JObject m \<Rightarrow> (case map_of m ''exports'' of Some (JObject _) \<Rightarrow> True | _ \<Rightarrow> False)
      | _ \<Rightarrow> False)"

function find_the_closest_package_scope :: "sys_env \<Rightarrow> string \<Rightarrow> string option" where
  "find_the_closest_package_scope env current_dir =
     (let package_json_path = path_push current_dir ''package.json'' in
      if path_exists env package_json_path then Some package_json_path
      else (case parent current_dir of
              Some dir \<Rightarrow> find_the_closest_package_scope env dir
            | None \<Rightarrow> None))"
  by pat_completeness auto
termination
  by (relation "measure (\<lambda>(env, s). length s)") (auto dest: parent_shorter)

declare find_the_closest_package_scope.simps [simp del]

text \<open>\<open>(0..n).try_fold(x.len(), |p, _| x[..p].rfind('/'))\<close>: the position of the \<open>n\<close>th separator from the end.\<close>

fun rfind_nth :: "nat \<Rightarrow> string \<Rightarrow> nat \<Rightarrow> nat option" where
  "rfind_nth 0 x p = Some p"
| "rfind_nth (Suc n) x p =
     (case rfind_char MAIN_SEPARATOR (take p x) of None \<Rightarrow> None | Some q \<Rightarrow> rfind_nth n x q)"

definition get_name_and_scope :: "string \<Rightarrow> nat \<Rightarrow> string \<times> string \<times> bool" where
  "get_name_and_scope x n =
     (case rfind_nth n x (length x) of
        Some pos \<Rightarrow> (drop (pos + 1) x, take pos x, False)
      | None \<Rightarrow> (''.'', x, True))"

lemma rfind_nth_bound: "rfind_nth n x p = Some q \<Longrightarrow> q + n \<le> p"
proof (induction n arbitrary: p)
  case (Suc n)
  then obtain r where "rfind_char MAIN_SEPARATOR (take p x) = Some r" "rfind_nth n x r = Some q" by (auto split: option.splits)
  then show ?case using Suc.IH rfind_char_less by fastforce
qed simp

lemma get_name_and_scope_last: "length x < n \<Longrightarrow> get_name_and_scope x n = (''.'', x, True)"
  using rfind_nth_bound [of n x "length x"] by (cases "rfind_nth n x (length x)") (auto simp: get_name_and_scope_def)

lemma get_name_and_scope_more: "(name, scope, False) = get_name_and_scope x n \<Longrightarrow> n \<le> length x"
  using get_name_and_scope_last [of x n] by (cases "length x < n") auto

definition replace_star :: "string \<Rightarrow> string \<Rightarrow> string" where
  "replace_star scope name = concat (map (\<lambda>c. if c = CHR ''*'' then name else [c]) scope)"

text \<open>A string below nested objects: \<^verbatim>\<open>if let Some(Object(a)) = map.get(k) { if let Some(String(s)) = a.get(l) { ... } }\<close>.\<close>

fun string_at :: "string list \<Rightarrow> json \<Rightarrow> string option" where
  "string_at [] (JString s) = Some s"
| "string_at (k # ks) (JObject m) = (case map_of m k of Some j \<Rightarrow> string_at ks j | None \<Rightarrow> None)"
| "string_at _ _ = None"

fun first_some :: "'a option list \<Rightarrow> 'a option" where
  "first_some [] = None"
| "first_some (Some x # xs) = Some x"
| "first_some (None # xs) = first_some xs"

definition second_last_sep :: "string \<Rightarrow> nat option" where
  "second_last_sep s = rfind_nth 2 s (length s)"

definition package_exports_resolve :: "sys_env \<Rightarrow> json \<Rightarrow> string \<Rightarrow> bool \<Rightarrow> string \<times> string option \<times> bool" where
  "package_exports_resolve env package_json modules_name is_esm =
     (let ident = (if is_esm then ''import'' else ''require'');
          modules_name = (if modules_name \<noteq> ''.'' then ''./'' @ modules_name else modules_name);
          wildcard = (case second_last_sep modules_name of
              Some pos \<Rightarrow> (case get_name_and_scope modules_name pos of (name, scope, _) \<Rightarrow> Some (name, scope @ ''/*''))
            | None \<Rightarrow> None);
          platform = LLRT_PLATFORM env;
          is_cjs = (string_at [''type''] package_json \<noteq> Some ''module'');
          plain = map_option (\<lambda>p. (p, None, is_cjs));
          conditions = (\<lambda>entry. [[entry, platform, ident], [entry, ident, ''default''], [entry, platform], [entry, ident], [entry, ''default'']]);
          exports = (\<lambda>ks. string_at (''exports'' # ks) package_json);
          starred = (case wildcard of
              Some (name, scope) \<Rightarrow> map (\<lambda>ks. map_option (\<lambda>p. (p, Some (replace_star p name), is_cjs)) (exports ks)) (conditions scope)
            | None \<Rightarrow> [])
      in case first_some
           (map (\<lambda>ks. plain (exports ks)) (conditions modules_name) @
            starred @
            [plain (exports [ident, ''default'']), plain (exports [ident])] @
            (if is_esm then [] else [plain (exports [''default''])]) @
            [plain (string_at [platform] package_json)] @
            (if is_esm then [map_option (\<lambda>p. (p, None, False)) (string_at [''module''] package_json)] else []) @
            [plain (string_at [''main''] package_json)]) of
           Some r \<Rightarrow> r
         | None \<Rightarrow> (''./index.js'', None, True))"

definition package_imports_resolve :: "sys_env \<Rightarrow> json \<Rightarrow> string \<Rightarrow> string option" where
  "package_imports_resolve env package_json modules_name =
     first_some [string_at [''imports'', modules_name, LLRT_PLATFORM env] package_json,
                 string_at [''imports'', modules_name, ''require''] package_json,
                 string_at [''imports'', modules_name, ''module-sync''] package_json,
                 string_at [''imports'', modules_name, ''default''] package_json,
                 string_at [''imports'', modules_name] package_json]"


subsection \<open>Files and directories\<close>

fun split_sep :: "string \<Rightarrow> string list" where
  "split_sep [] = [[]]"
| "split_sep (c # s) =
     (if c = MAIN_SEPARATOR then [] # split_sep s
      else (case split_sep s of [] \<Rightarrow> [[c]] | w # ws \<Rightarrow> (c # w) # ws))"

definition normalize_absolute_path :: "string \<Rightarrow> string option" where
  "normalize_absolute_path path =
     (if path = ''/'' \<or> is_absolute path \<and> list_all (\<lambda>part. part \<noteq> [] \<and> part \<noteq> ''.'' \<and> part \<noteq> ''..'') (split_sep (tl path))
      then None else Some (normalize path))"

definition to_abs_path :: "sys_env \<Rightarrow> string \<Rightarrow> string" where
  "to_abs_path env path0 =
     (let path = (if is_absolute path0 then path0 else resolve_path (working_dir env) [path0]) in
      case normalize_absolute_path path of
        Some normalized \<Rightarrow> if normalized \<noteq> path then normalized else path
      | None \<Rightarrow> path)"

definition correct_extensions :: "sys_env \<Rightarrow> string \<Rightarrow> string" where
  "correct_extensions env x =
     (if is_file env x then x
      else
        let base_path = x @ (if is_dir env x then ''/index'' else []) in
        case find (is_file env) (map (\<lambda>extension. base_path @ extension) JS_EXTENSIONS) of
          Some current_path \<Rightarrow> current_path
        | None \<Rightarrow> x)"

text \<open>The loop over the extensions; \<^term>\<open>None\<close> when it ends without a result.\<close>

fun as_file_loop :: "sys_env \<Rightarrow> string \<Rightarrow> string list \<Rightarrow> string option resolved option" where
  "as_file_loop env x [] = None"
| "as_file_loop env x (extension # es) =
     (let current_file = x @ extension in
      if is_file env current_file then
        Some (case find_the_closest_package_scope env x of
            None \<Rightarrow> Inr (Some current_file)
          | Some path \<Rightarrow>
              (case read_package env path of
                 Inl e \<Rightarrow> Inl e
               | Inr package_json \<Rightarrow>
                   (case get_string_field package_json ''type'' of
                      Some t \<Rightarrow> if t = ''module'' \<or> t = ''commonjs'' then Inr (Some current_file) else Inr (Some current_file)
                    | None \<Rightarrow> Inr (Some current_file))))
      else as_file_loop env x es)"

definition load_as_file :: "sys_env \<Rightarrow> string \<Rightarrow> string option resolved" where
  "load_as_file env x =
     (if is_file env x then Inr (Some x)
      else (case as_file_loop env x SUPPORTED_EXTENSIONS of
          Some r \<Rightarrow> r
        | None \<Rightarrow> if is_file env (x @ ''.json'') then Inr (Some (x @ ''.json'')) else Inr None))"

fun index_loop :: "sys_env \<Rightarrow> string \<Rightarrow> string list \<Rightarrow> string option resolved option" where
  "index_loop env x [] = None"
| "index_loop env x (extension # es) =
     (let file = x @ ''/index'' @ extension in
      if is_file env file then
        Some (case find_the_closest_package_scope env x of
            None \<Rightarrow> Inr (Some file)
          | Some path \<Rightarrow>
              (case read_package env path of
                 Inl e \<Rightarrow> Inl e
               | Inr package_json \<Rightarrow>
                   (case get_string_field package_json ''type'' of
                      Some t \<Rightarrow> if t = ''module'' then Inr (Some file) else Inr (Some file)
                    | None \<Rightarrow> Inr (Some file))))
      else index_loop env x es)"

definition load_index :: "sys_env \<Rightarrow> string \<Rightarrow> string option resolved" where
  "load_index env x =
     (case index_loop env x SUPPORTED_EXTENSIONS of
        Some r \<Rightarrow> r
      | None \<Rightarrow> if is_file env (x @ ''/index.json'') then Inr (Some (x @ ''/index.json'')) else Inr None)"

definition load_as_directory :: "sys_env \<Rightarrow> string \<Rightarrow> string option resolved" where
  "load_as_directory env x =
     (let index = (case load_index env x of Inr (Some path) \<Rightarrow> Inr (Some path) | _ \<Rightarrow> Inr None);
          file = x @ ''/package.json'' in
      if is_file env file then
        (case read_package env file of
           Inl e \<Rightarrow> Inl e
         | Inr package_json \<Rightarrow>
             (case get_string_field package_json ''main'' of
                Some main \<Rightarrow>
                  (let m = x @ ''/'' @ main in
                   case load_as_file env m of
                     Inr (Some path) \<Rightarrow> Inr (Some path)
                   | _ \<Rightarrow> (case load_index env m of
                             Inr (Some path) \<Rightarrow> Inr (Some path)
                           | _ \<Rightarrow> Inl (NotFound [] x)))
              | None \<Rightarrow> index))
      else index)"

subsection \<open>Packages\<close>

text \<open>The longest prefix of \<open>x\<close> with a package description; the last candidate is \<open>x\<close> itself.\<close>

function exports_scope :: "sys_env \<Rightarrow> string \<Rightarrow> string \<Rightarrow> nat \<Rightarrow> string \<times> string \<times> bool" where
  "exports_scope env dir x n =
     (case get_name_and_scope x n of (name, scope, is_last) \<Rightarrow>
        let package_json_exists = path_exists env (dir @ ''/'' @ scope @ ''/package.json'') in
        if package_json_exists \<or> is_last then (name, scope, package_json_exists)
        else exports_scope env dir x (n + 1))"
  by pat_completeness auto
termination
  by (relation "measure (\<lambda>(env, dir, x, n). Suc (length x) - n)") (auto dest!: get_name_and_scope_more)

declare exports_scope.simps [simp del]

definition resolve_exports :: "sys_env \<Rightarrow> string \<Rightarrow> string \<Rightarrow> string \<Rightarrow> string option \<Rightarrow> bool \<Rightarrow> string resolved" where
  "resolve_exports env scope name dir sub_module is_esm =
     (case read_package env (dir @ ''/'' @ scope @ ''/package.json'') of
        Inl e \<Rightarrow> Inl e
      | Inr package_json \<Rightarrow>
          (case sub_module of
             Some sub_module \<Rightarrow>
               (if get_string_field package_json ''type'' \<noteq> Some ''module'' then
                  (let sub_module = to_abs_path env sub_module in
                   Inr (if is_esm then CJS_LOADER_PREFIX @ sub_module else sub_module))
                else Inr sub_module)
           | None \<Rightarrow>
               (case package_exports_resolve env package_json name is_esm of (module_path, starred, is_cjs) \<Rightarrow>
                  let module_path = (case starred of Some p \<Rightarrow> p | None \<Rightarrow> module_path);
                      module_path = to_abs_path env (correct_extensions env (dir @ ''/'' @ scope @ ''/'' @ module_path)) in
                  Inr (if is_cjs \<and> is_esm then CJS_LOADER_PREFIX @ module_path else module_path))))"

definition load_package_exports :: "sys_env \<Rightarrow> string \<Rightarrow> string \<Rightarrow> bool \<Rightarrow> string resolved" where
  "load_package_exports env x dir is_esm =
     (case exports_scope env dir x 1 of (name, scope, package_json_exists) \<Rightarrow>
        if name \<noteq> ''.'' \<and> \<not> package_json_exists then
          (if \<not> path_exists env (dir @ ''/'' @ x @ ''/package.json'') then Inl (NotFound dir x)
           else resolve_exports env x ''.'' dir None is_esm)
        else
          (let trimmed_name = trim_start_matches ''.'' name;
               path = dir @ ''/'' @ scope @ (if trimmed_name \<noteq> [] then ''/'' else []) @ trimmed_name in
           case find (\<lambda>ext. path_exists env (path @ ext)) JS_EXTENSIONS of
             Some ext \<Rightarrow> if ext = ''.mjs'' then Inr (path @ ext) else resolve_exports env scope name dir (Some (path @ ext)) is_esm
           | None \<Rightarrow> resolve_exports env scope name dir None is_esm))"

text \<open>The prefix of \<open>x\<close> that is the name of the package itself.\<close>

function self_scope :: "json \<Rightarrow> string \<Rightarrow> nat \<Rightarrow> string option" where
  "self_scope package_json x n =
     (case get_name_and_scope x n of (name, scope, is_last) \<Rightarrow>
        if is_exports_field_exists package_json \<and> get_string_field package_json ''name'' = Some scope then Some name
        else if is_last then None
        else self_scope package_json x (n + 1))"
  by pat_completeness auto
termination
  by (relation "measure (\<lambda>(j, x, n). Suc (length x) - n)") (auto dest!: get_name_and_scope_more)

declare self_scope.simps [simp del]

definition load_package_self :: "sys_env \<Rightarrow> string \<Rightarrow> string \<Rightarrow> bool \<Rightarrow> string option resolved" where
  "load_package_self env x dir is_esm =
     (case find_the_closest_package_scope env dir of
        None \<Rightarrow> Inr None
      | Some package_json_path \<Rightarrow>
          (case read_package env package_json_path of
             Inl e \<Rightarrow> Inl e
           | Inr package_json \<Rightarrow>
               (case self_scope package_json x 1 of
                  None \<Rightarrow> Inr None
                | Some name \<Rightarrow>
                    (case package_exports_resolve env package_json name is_esm of (path, starred, _) \<Rightarrow>
                       let path = (case starred of Some p \<Rightarrow> p | None \<Rightarrow> path);
                           dir = trim_end_matches ''package.json'' package_json_path in
                       Inr (Some (correct_extensions env (dir @ path)))))))"

definition load_package_imports :: "sys_env \<Rightarrow> string \<Rightarrow> string \<Rightarrow> string option resolved" where
  "load_package_imports env x dir =
     (case find_the_closest_package_scope env dir of
        None \<Rightarrow> Inr None
      | Some path \<Rightarrow>
          (case read_package env path of
             Inl e \<Rightarrow> Inl e
           | Inr package_json \<Rightarrow>
               (case package_imports_resolve env package_json x of
                  Some module_path \<Rightarrow>
                    (let dir = trim_end_matches ''package.json'' path in
                     Inr (Some (to_abs_path env (correct_extensions env (dir @ module_path)))))
                | None \<Rightarrow> Inr None)))"

subsection \<open>The directories named node\_modules\<close>

definition search_dir :: "sys_env \<Rightarrow> string \<Rightarrow> string \<Rightarrow> bool \<Rightarrow> string option" where
  "search_dir env dir x is_esm =
     (case load_package_exports env x dir is_esm of
        Inr path \<Rightarrow> Some path
      | Inl _ \<Rightarrow>
          (case load_as_file env (dir @ ''/'' @ x) of
             Inr (Some path) \<Rightarrow> Some path
           | _ \<Rightarrow> (case load_as_directory env (dir @ ''/'' @ x) of
                     Inr (Some path) \<Rightarrow> Some path
                   | _ \<Rightarrow> None)))"

definition search_dirs :: "sys_env \<Rightarrow> string list \<Rightarrow> string \<Rightarrow> bool \<Rightarrow> string option" where
  "search_dirs env dirs x is_esm = first_some (map (\<lambda>dir. search_dir env dir x is_esm) dirs)"

record walk =
  wk_results :: "string list"
  wk_paths_to_cache :: "string list"
  wk_i :: nat
  wk_last_found_index :: nat

text \<open>From the directory up to the root, or to a directory that is in the cache.\<close>

function walk_up :: "sys_env \<Rightarrow> dir_cache \<Rightarrow> string \<Rightarrow> walk \<Rightarrow> walk" where
  "walk_up env cache dir w =
     (case cache dir of
        Some dirs \<Rightarrow>
          w\<lparr>wk_results := wk_results w @ (case dirs of Some ds \<Rightarrow> ds | None \<Rightarrow> []), wk_last_found_index := wk_i w\<rparr>
      | None \<Rightarrow>
          (let node_modules = path_push dir ''node_modules'';
               w = (if (case file_name dir of Some name \<Rightarrow> name \<noteq> ''node_modules'' | None \<Rightarrow> False) \<and> is_dir env node_modules
                    then w\<lparr>wk_last_found_index := wk_i w, wk_results := wk_results w @ [node_modules]\<rparr> else w);
               w = w\<lparr>wk_paths_to_cache := wk_paths_to_cache w @ [dir], wk_i := wk_i w + 1\<rparr> in
           case parent dir of Some up \<Rightarrow> walk_up env cache up w | None \<Rightarrow> w))"
  by pat_completeness auto
termination
  by (relation "measure (\<lambda>(env, cache, dir, w). length dir)") (auto dest: parent_shorter)

declare walk_up.simps [simp del]

fun store_paths :: "string list \<Rightarrow> nat \<Rightarrow> nat \<Rightarrow> string list \<Rightarrow> dir_cache \<Rightarrow> dir_cache" where
  "store_paths results last_found i [] cache = cache"
| "store_paths results last_found i (path # ps) cache =
     (if i \<le> last_found then store_paths results last_found (i + 1) ps (cache(path \<mapsto> Some results))
      else cache(path \<mapsto> None))"

definition load_node_modules :: "sys_env \<Rightarrow> dir_cache \<Rightarrow> string \<Rightarrow> string \<Rightarrow> bool \<Rightarrow> string option \<times> dir_cache" where
  "load_node_modules env cache x start is_esm =
     (case (case cache start of Some (Some dirs) \<Rightarrow> search_dirs env dirs x is_esm | _ \<Rightarrow> None) of
        Some path \<Rightarrow> (Some path, cache)
      | None \<Rightarrow>
          (let w = walk_up env cache start \<lparr>wk_results = [], wk_paths_to_cache = [], wk_i = 0, wk_last_found_index = 0\<rparr>;
               cache = store_paths (wk_results w) (wk_last_found_index w) 0 (wk_paths_to_cache w) cache in
           case search_dirs env (wk_results w) x is_esm of
             Some path \<Rightarrow> (Some path, cache)
           | None \<Rightarrow> (search_dirs env (HOME_NODE_MODULES env) x is_esm, cache)))"

subsection \<open>Resolving a specifier\<close>

definition FILESYSTEM_ROOT :: string where
  "FILESYSTEM_ROOT = ''/''"

definition follow_link :: "sys_env \<Rightarrow> string \<Rightarrow> string" where
  "follow_link env y =
     (case read_link env y of
        Some path \<Rightarrow> if is_absolute path then path else y @ ''/../'' @ path
      | None \<Rightarrow> y)"

definition dirname_of :: "sys_env \<Rightarrow> string \<Rightarrow> string" where
  "dirname_of env y =
     (if is_dir env y then resolve_path (working_dir env) [y] else resolve_path (working_dir env) [dirname y])"

text \<open>Specifiers that start with a dot or the root: a file or a directory at this place.\<close>

definition resolve_relative :: "sys_env \<Rightarrow> string \<Rightarrow> string \<Rightarrow> string \<Rightarrow> string resolved" where
  "resolve_relative env x y dirname_y =
     (let y_plus_x = (if is_absolute x then x
                      else if has_prefix ''./'' x then dirname_y @ ''/'' @ drop 2 x
                      else dirname_y @ ''/'' @ x) in
      case load_as_file env y_plus_x of
        Inr (Some path) \<Rightarrow> Inr (to_abs_path env path)
      | _ \<Rightarrow> (case load_as_directory env y_plus_x of
                Inr (Some path) \<Rightarrow> Inr (to_abs_path env path)
              | _ \<Rightarrow> Inl (NotFound y x)))"

text \<open>Other specifiers: the imports of the package, the package itself, the directories of modules, a file.\<close>

definition resolve_bare :: "sys_env \<Rightarrow> dir_cache \<Rightarrow> string \<Rightarrow> string \<Rightarrow> string \<Rightarrow> bool \<Rightarrow> string resolved \<times> dir_cache" where
  "resolve_bare env cache x y dirname_y is_esm =
     (case (if has_prefix ''#'' x then load_package_imports env x dirname_y else Inr None) of
        Inr (Some path) \<Rightarrow> (Inr path, cache)
      | _ \<Rightarrow>
          (case load_package_self env x dirname_y is_esm of
             Inr (Some path) \<Rightarrow> (Inr (to_abs_path env path), cache)
           | _ \<Rightarrow>
               (case load_node_modules env cache x dirname_y is_esm of
                  (Some path, cache) \<Rightarrow> (Inr path, cache)
                | (None, cache) \<Rightarrow>
                    (case load_as_file env x of
                       Inr (Some path) \<Rightarrow> (Inr (to_abs_path env path), cache)
                     | _ \<Rightarrow> (Inl (NotFound y x), cache)))))"

text \<open>The hook answers with a path or throws, which counts as not found.\<close>

definition require_resolve ::
    "sys_env \<Rightarrow> dir_cache \<Rightarrow> string \<Rightarrow> string \<Rightarrow> (string \<Rightarrow> string \<Rightarrow> string option) option \<Rightarrow> bool \<Rightarrow> string resolved \<times> dir_cache" where
  "require_resolve env cache x0 y0 hooked_fn is_esm =
     (let x = trim_start_matches ''file://'' x0;
          y = follow_link env y0 in
      case (case hooked_fn of Some hook \<Rightarrow> hook x y | None \<Rightarrow> None) of
        Some path \<Rightarrow> (Inr path, cache)
      | None \<Rightarrow>
          (let supported = is_supported_ext (snd (name_extname x));
               x_normalized = normalize x in
           if supported \<and> is_file env x then (Inr (to_abs_path env x), cache)
           else if \<not> has_prefix ''..'' x \<and> supported \<and> is_file env x_normalized then (Inr (to_abs_path env x_normalized), cache)
           else
             let y = (if is_absolute x then FILESYSTEM_ROOT else y);
                 dirname_y = dirname_of env y in
             if has_prefix ''./'' x \<or> is_absolute x \<or> has_prefix ''..'' x then (resolve_relative env x y dirname_y, cache)
             else resolve_bare env cache x y dirname_y is_esm))"

definition package_resolver_resolve :: "sys_env \<Rightarrow> dir_cache \<Rightarrow> string \<Rightarrow> string \<Rightarrow> string resolved \<times> dir_cache" where
  "package_resolver_resolve env cache base name =
     (if has_prefix CJS_IMPORT_PREFIX name then (Inr name, cache)
      else require_resolve env cache name (trim_start_matches CJS_IMPORT_PREFIX base) None True)"

subsection \<open>Canonical directories\<close>

text \<open>An absolute path without empty components and dots, by its components.\<close>

abbreviation abs_path :: "string list \<Rightarrow> string" where
  "abs_path cs \<equiv> MAIN_SEPARATOR # sep_join cs"

lemma sep_join_snoc_if: "sep_join (cs @ [c]) = (if cs = [] then c else sep_join cs @ MAIN_SEPARATOR # c)"
  by (simp add: sep_join_snoc)

lemma rfind_char_none: "c \<notin> set s \<Longrightarrow> rfind_char c s = None"
  by (simp add: rfind_char_def)

lemma len_before_abs [simp]: "len_before_body (MAIN_SEPARATOR # s) = Suc 0"
  by (simp add: len_before_body_def is_absolute_def)

lemma back_comp_abs:
  "canonical c \<Longrightarrow> back_comp 1 (abs_path (cs @ [c])) = (length (abs_path (cs @ [c])) - length (abs_path cs), c)
    \<or> cs = [] \<and> back_comp 1 (abs_path (cs @ [c])) = (length c, c)"
  by (auto simp: back_comp_def sep_join_snoc_if rfind_char_last rfind_char_none canonicalD)

lemma trim_right_abs: "canonical c \<Longrightarrow> trim_right 1 (abs_path (cs @ [c])) = abs_path (cs @ [c])"
  using back_comp_abs [of c cs] by (subst trim_right.simps) (auto simp: canonical_def)

lemma trim_right_root [simp]: "trim_right (Suc 0) ''/'' = ''/''"
  by (simp add: trim_right.simps)

lemma take_parent: "cs \<noteq> [] \<Longrightarrow> take (length (abs_path cs)) (abs_path (cs @ [c])) = abs_path cs"
  by (simp add: sep_join_snoc_if)

lemma parent_abs:
  assumes "\<forall>c \<in> set (cs @ [c]). canonical c"
  shows "parent (abs_path (cs @ [c])) = Some (abs_path cs)"
proof -
  have c: "canonical c" using assms by simp
  have ne: "sep_join (cs @ [c]) \<noteq> []" using canonicalD [OF c] by (simp add: sep_join_snoc_if)
  show ?thesis
  proof (cases cs rule: rev_cases)
    case Nil
    then show ?thesis using c ne back_comp_abs [OF c, of cs] trim_right_abs [OF c, of cs]
      by (auto simp: parent_def Let_def)
  next
    case (snoc ds d)
    then have "trim_right 1 (abs_path cs) = abs_path cs" using assms trim_right_abs [of d ds] by simp
    moreover have "back_comp 1 (abs_path (cs @ [c])) = (length (abs_path (cs @ [c])) - length (abs_path cs), c)"
      using back_comp_abs [OF c, of cs] snoc by auto
    moreover have "length (abs_path cs) \<le> length (abs_path (cs @ [c]))" by (simp add: sep_join_snoc_if)
    ultimately show ?thesis using c ne trim_right_abs [OF c, of cs] take_parent [of cs c] snoc
      by (simp add: parent_def Let_def)
  qed
qed

lemma parent_root: "parent ''/'' = None"
  by (simp add: parent_def len_before_body_def is_absolute_def include_cur_dir_def trim_right.simps)



lemma last_abs_path:
  assumes "\<forall>c \<in> set cs. canonical c" "cs \<noteq> []"
  shows "last (abs_path cs) \<noteq> MAIN_SEPARATOR"
proof -
  obtain ds d where cs: "cs = ds @ [d]" using assms(2) by (cases cs rule: rev_cases) auto
  then have "d \<noteq> []" "MAIN_SEPARATOR \<notin> set d" using assms(1) by (auto simp: canonical_def)
  moreover from this have "last (abs_path cs) = last d" unfolding cs by (simp add: sep_join_snoc_if)
  ultimately show ?thesis using last_in_set by metis
qed

lemma path_push_abs:
  assumes "\<forall>c \<in> set cs. canonical c" "canonical nm"
  shows "path_push (abs_path cs) nm = abs_path (cs @ [nm])"
proof -
  have "\<not> is_absolute nm" using assms(2) by (cases nm) (auto simp: is_absolute_def canonical_def)
  then show ?thesis using last_abs_path [OF assms(1)] by (cases "cs = []") (simp_all add: path_push_def sep_join_snoc_if)
qed

text \<open>The prefixes of a list of components, the longest first.\<close>

fun ups :: "string list \<Rightarrow> string list list" where
  "ups [] = [[]]"
| "ups cs = cs # ups (butlast cs)"

lemma ups_snoc [simp]: "ups (cs @ [c]) = (cs @ [c]) # ups cs"
proof -
  have "ups ds = ds # ups (butlast ds)" if "ds \<noteq> []" for ds using that by (cases ds) simp_all
  from this [of "cs @ [c]"] show ?thesis by simp
qed

lemma canonical_names [simp]: "canonical ''package.json''" "canonical ''node_modules''"
  by (simp_all add: canonical_def)

lemma closest_scope_eq:
  "\<forall>c \<in> set cs. canonical c \<Longrightarrow>
   find_the_closest_package_scope env (abs_path cs)
   = find (path_exists env) (map (\<lambda>ds. abs_path (ds @ [''package.json''])) (ups cs))"
proof (induction cs rule: rev_induct)
  case Nil
  then show ?case
    using path_push_abs [of "[]" "''package.json''"] by (subst find_the_closest_package_scope.simps) (simp add: parent_root Let_def)
next
  case (snoc c cs)
  then show ?case
    using path_push_abs [of "cs @ [c]" "''package.json''"] parent_abs [of cs c]
    by (subst find_the_closest_package_scope.simps) (simp add: Let_def)
qed

subsection \<open>Searching the directories of modules\<close>














text \<open>
  (C22) The description of a package that governs a directory is the one in the nearest directory above it that
  has one; the search ends at the root on every path.
\<close>

theorem closest_scope_nearest:
  assumes "\<forall>c \<in> set cs. canonical c"
  shows "find_the_closest_package_scope env (abs_path cs)
    = find (path_exists env) (map (\<lambda>ds. abs_path (ds @ [''package.json''])) (ups cs))"
  using assms by (rule closest_scope_eq)

subsection \<open>Absolute paths\<close>

lemma sep_join_split: "sep_join (split_sep s) = s \<and> split_sep s \<noteq> [] \<and> (\<forall>c \<in> set (split_sep s). MAIN_SEPARATOR \<notin> set c)"
proof (induction s)
  case (Cons a s)
  then obtain w ws where "split_sep s = w # ws" by (cases "split_sep s") auto
  with Cons show ?case by (cases ws) auto
qed simp

lemma normalize_plain:
  assumes "is_absolute path" "list_all (\<lambda>part. part \<noteq> [] \<and> part \<noteq> ''.'' \<and> part \<noteq> ''..'') (split_sep (tl path))"
  shows "normalize path = path"
proof -
  define cs where "cs = split_sep (tl path)"
  have path: "path = abs_path cs" using assms(1) sep_join_split [of "tl path"] by (cases path) (auto simp: cs_def is_absolute_def)
  have c: "\<forall>c \<in> set cs. canonical c" using assms(2) sep_join_split [of "tl path"] by (auto simp: cs_def canonical_def list_all_iff)
  then have "pieces (sep_join cs) = cs" by (intro pieces_sep_join) (blast dest: canonicalD)
  then have "join_absolute [path] = True" "join_comps [path] = cs"
    unfolding path by (simp_all add: join_absolute_def join_comps_def starts_with_sep_def)
  then show ?thesis using fold_norm_names [OF c, of True 0 "[]"] path
    by (simp add: normalize_def join_path_spec join_spec_def show_path_def norm_comps_def)
qed

text \<open>
  Every path that is handed out is normalised: the test that saves the work for paths without dots and
  doubled separators never changes the result.
\<close>

lemma to_abs_path_normalizes:
  "to_abs_path env path = normalize (if is_absolute path then path else resolve_path (working_dir env) [path])"
proof -
  have "normalize ''/'' = ''/''" by code_simp
  then show ?thesis using normalize_plain by (auto simp: to_abs_path_def normalize_absolute_path_def Let_def)
qed

subsection \<open>Files and directories by candidates\<close>












subsection \<open>Specifiers of files\<close>




text \<open>A file system given by the lists of its files and directories; a package description has the bytes \<open>[]\<close>.\<close>

definition disk :: "string list \<Rightarrow> string list \<Rightarrow> json \<Rightarrow> sys_env" where
  "disk files dirs j = \<lparr>is_file = (\<lambda>p. p \<in> set files), is_dir = (\<lambda>p. p \<in> set dirs), path_exists = (\<lambda>p. p \<in> set files \<or> p \<in> set dirs),
     read_link = (\<lambda>_. None), read_bytes = (\<lambda>p. if p \<in> set files then Some [] else None), parse_json = (\<lambda>_. Some j),
     working_dir = ''/srv'', home_dir = None, platform_var = None\<rparr>"




theorem closest_scope_nearest_witness:
  "find_the_closest_package_scope (disk [''/a/package.json'', ''/package.json''] [] JStatic) ''/a/b'' = Some ''/a/package.json''"
proof -
  let ?e = "disk [''/a/package.json'', ''/package.json''] [] JStatic"
  have "find_the_closest_package_scope ?e (abs_path [''a'', ''b''])
      = find (path_exists ?e) (map (\<lambda>ds. abs_path (ds @ [''package.json''])) (ups [''a'', ''b'']))"
    by (rule closest_scope_nearest) (simp add: canonical_def)
  also have "\<dots> = Some ''/a/package.json''" by code_simp
  finally show ?thesis by simp
qed

subsection \<open>Where the code departs from the algorithm\<close>

text \<open>
  A relative specifier with an extension is first looked up in the working directory of the process,
  whatever the module that contains it.
\<close>

lemma extension_prefers_working_directory:
  "fst (require_resolve (disk [''./util.js'', ''/srv/util.js'', ''/srv/lib/util.js''] [] JStatic) Map.empty ''./util.js'' ''/srv/lib/main.js'' None True)
   = Inr ''/srv/util.js''"
  by code_simp

text \<open>The directory of modules of a child is cached for its parent too, and then used from there.\<close>

lemma cache_shows_children:
  "let e = disk [''/a/b/node_modules/p.js''] [''/a/b/node_modules'', ''/a/node_modules''] JStatic in
   fst (load_node_modules e Map.empty ''p'' ''/a'' False) = None \<and>
   fst (load_node_modules e (snd (load_node_modules e Map.empty ''p'' ''/a/b'' False)) ''p'' ''/a'' False) = Some ''/a/b/node_modules/p.js''"
  by code_simp

text \<open>The directory of modules at the root is never searched.\<close>

lemma root_modules_ignored:
  "fst (load_node_modules (disk [''/node_modules/p.js''] [''/node_modules''] JStatic) Map.empty ''p'' ''/a'' False) = None"
  by code_simp

text \<open>A pattern of exports matches or not depending on the length of the directories' names.\<close>

lemma export_pattern_by_length:
  "let j = JObject [(''exports'', JObject [(''./lib/*'', JObject [(''import'', JString ''./dist/*'')])])];
       k = JObject [(''exports'', JObject [(''./*'', JObject [(''import'', JString ''./dist/*'')])])] in
   package_exports_resolve (disk [] [] JStatic) j ''lib/a'' True = (''./dist/*'', Some ''./dist/a'', True) \<and>
   package_exports_resolve (disk [] [] JStatic) k ''l/a/b'' True = (''./dist/*'', Some ''./dist/l/a/b'', True) \<and>
   package_exports_resolve (disk [] [] JStatic) k ''lib/a/b'' True = (''./index.js'', None, True)"
  by code_simp

text \<open>The default entry counts as a CommonJS module even when the package says that it is not.\<close>

lemma default_entry_is_cjs:
  "package_exports_resolve env (JObject [(''type'', JString ''module'')]) ''.'' True = (''./index.js'', None, True)"
  by (auto simp: package_exports_resolve_def second_last_sep_def rfind_char_def LLRT_PLATFORM_def numeral_2_eq_2 Let_def split: option.split)

end
