(* ===== verification/Spec2Isabelle.thy ===== *)
theory Spec2Isabelle
  imports ReuseList JsonEscape WritableRun PathModule EventRun FetchHeaders Timers ReadableRun ByteRun StringDecoder PackageResolver
begin

text \<open>
  LLRT is a JavaScript runtime written in Rust around the QuickJS engine.  Its own logic is in the
  crates under \<^verbatim>\<open>libs/\<close> (utilities) and \<^verbatim>\<open>modules/\<close> (the Web and Node APIs it provides); the engine and the
  network, cryptography and compression libraries are third-party code.  This development models the
  parts of LLRT that are algorithms or state machines of its own, and proves what makes them correct.

  \<^bold>\<open>How the parts interact.\<close>  The Web streams queue chunks with sizes, call the functions of their
  underlying sink or source and react to promises; a writable stream owns an abort controller.  Abort
  signals are event emitters; timeouts of signals use the timers.  Headers, paths, the JSON escaper and
  the slot list are used by the rest of the runtime through plain calls.  In all stateful parts
  user code runs in the middle of operations: size functions, sinks and sources, getters, listeners and
  timer callbacks call back into the same objects.  That re-entrance is the hard behaviour of this
  program, and the models have it: user code is a parameter, a program that maps each call the runtime
  makes to a list of API operations and an outcome, and the interpreter of such programs
  (\<^verbatim>\<open>cb\<close>, \<^verbatim>\<open>rcb\<close>, \<^verbatim>\<open>bcb\<close>, \<^verbatim>\<open>ev_cb\<close>, \<^verbatim>\<open>timer_cb\<close>) performs those operations on the current state, nested to any depth.

  \<^bold>\<open>Theories and sources\<close> (paths under \<^verbatim>\<open>src/\<close>).

  \<^item> \<^verbatim>\<open>Prelude\<close>: machine types, Rust's checked slice and integer operations (a panic is \<^term>\<open>None\<close>),
    lemmas and automation shared by the components.

  \<^item> \<^verbatim>\<open>ReuseList\<close>: \<^verbatim>\<open>libs/llrt_utils/src/reuse_list.rs\<close>, every operation on the record \<^verbatim>\<open>reuse_list\<close>.  The
    locale \<^verbatim>\<open>slot_store\<close> states what clients rely on and is interpreted by the code's model.  No sequence of
    operations indexes out of range, an index stays bound until it is removed; free slots can be lost.

  \<^item> \<^verbatim>\<open>JsonEscape\<close>: \<^verbatim>\<open>libs/llrt_json/src/escape.rs\<close>, the escaper that examines eight bytes at once in a
    64-bit word.  The locale \<^verbatim>\<open>swar_mask\<close> states what the mask must give.  The optimised function returns on
    every input, is memory safe, equals the reference that looks at one byte at a time, and its output
    is a JSON string that reads back as the input.

  \<^item> \<^verbatim>\<open>Float64\<close>, \<^verbatim>\<open>JsPromise\<close>, \<^verbatim>\<open>QueueSizes\<close>: the numbers, promises, queues and strategies of the streams
    (\<^verbatim>\<open>modules/llrt_stream_web/src/utils/\<close>, \<^verbatim>\<open>queuing_strategy/mod.rs\<close>).  A promise is an index into a store of
    states; a settled promise stays settled.  Sizes are finite and non-negative and their sum is exact
    below \<^verbatim>\<open>2^53\<close>.

  \<^item> \<^verbatim>\<open>WritableStream\<close>, \<^verbatim>\<open>WritableInv\<close>, \<^verbatim>\<open>WritableRun\<close>: \<^verbatim>\<open>modules/llrt_stream_web/src/writable/\<close>.  The first
    has one definition per method of the stream, the default controller and the writer, over one
    record of the world (stream, controller, writers, promises, pending reactions); the second the
    invariant and its preservation inside the locale \<^verbatim>\<open>user_code\<close>, which assumes of user code only that
    it keeps the invariant; the third the runs, where that locale is interpreted by arbitrary programs
    by induction on the depth of calls.  No run panics, the state only moves forward; four defects are
    shown by runs.

  \<^item> \<^verbatim>\<open>ReadableStream\<close>, \<^verbatim>\<open>ReadableInv\<close>, \<^verbatim>\<open>ReadableRun\<close>: \<^verbatim>\<open>modules/llrt_stream_web/src/readable/\<close>, streams with a
    default controller and default readers, in the same three layers (locale \<^verbatim>\<open>ruser_code\<close>).  No run
    panics, chunks are delivered in order and exactly once, a read stays pending only for want of data.

  \<^item> \<^verbatim>\<open>ByteStream\<close>, \<^verbatim>\<open>ByteInv\<close>, \<^verbatim>\<open>ByteOps\<close>, \<^verbatim>\<open>ByteRun\<close>: readable byte streams, \<^verbatim>\<open>readable/byte_controller.rs\<close> and
    \<^verbatim>\<open>readable/byob_reader.rs\<close>, with the views of \<^verbatim>\<open>libs/llrt_utils/src/bytes.rs\<close>.  The world adds a store of array buffers that
    can be detached and transferred, and the list of the buffers user code can reach.  \<^verbatim>\<open>ByteInv\<close> has the invariant
    (which buffers the controller owns, which of them are hidden from user code, that descriptors and requests match)
    and the loops; \<^verbatim>\<open>ByteOps\<close> the operations under the contract of user code (locale \<^verbatim>\<open>buser_code\<close>); \<^verbatim>\<open>ByteRun\<close> interprets
    that locale by arbitrary programs.  Without automatic allocation no run panics or hangs, the loops end, and the bytes a
    source enqueues are copied to the waiting reads as in a reference function; three defects are shown by runs.

  \<^item> \<^verbatim>\<open>PathModule\<close>: \<^verbatim>\<open>modules/llrt_path/src/lib.rs\<close> as compiled for Unix.  Joining, resolving and
    relativising on a flat string with a stack of lengths equal reference functions on lists of
    components; \<^verbatim>\<open>relative\<close> inverts \<^verbatim>\<open>join\<close>.

  \<^item> \<^verbatim>\<open>Events\<close>, \<^verbatim>\<open>AbortSignal\<close>, \<^verbatim>\<open>EventInv\<close>, \<^verbatim>\<open>EventRun\<close>: \<^verbatim>\<open>modules/llrt_events/src/lib.rs\<close>,
    \<^verbatim>\<open>modules/llrt_abort/src/\<close>.  Emitters refine a map from events to lists of listeners (refinement), a
    listener registered once is called at most once and a signal aborts at most once in every
    re-entrant run (locale \<^verbatim>\<open>listener_code\<close>).

  \<^item> \<^verbatim>\<open>FetchHeaders\<close>: \<^verbatim>\<open>modules/llrt_fetch/src/headers.rs\<close>.  Every way to make and change a \<^verbatim>\<open>Headers\<close> object
    keeps names and values valid and respects the guard; the in-place normalisation of values is safe
    and correct; iteration is sorted.

  \<^item> \<^verbatim>\<open>Timers\<close>: \<^verbatim>\<open>modules/llrt_timers/src/lib.rs\<close>, timers, polling and the tasks that wait for deadlines, with
    re-entrant callbacks (locale \<^verbatim>\<open>timer_program\<close>).  Every timer has a task that wakes in time, and a poll
    calls the due timers in the order of their keys.

  \<^item> \<^verbatim>\<open>Encoding\<close>: \<^verbatim>\<open>libs/llrt_encoding/src/lib.rs\<close>, the text encodings and their labels, with the UTF-8 and
    UTF-16 algorithms of the standard library the code calls.  Text survives the round trip through every
    Unicode encoding; Base64 input is accepted in both alphabets.

  \<^item> \<^verbatim>\<open>StringDecoder\<close>: \<^verbatim>\<open>modules/llrt_string_decoder/src/string_decoder.rs\<close>, the decoder that keeps an
    incomplete character between writes.  The locale \<^verbatim>\<open>chunked\<close> states what an encoding must give for the
    decoding of pieces to equal the decoding of the whole; it is interpreted for UTF-8 and UTF-16.  No sequence
    of calls panics.

  \<^item> \<^verbatim>\<open>PackageResolver\<close>: \<^verbatim>\<open>llrt_modules/src/package/resolver.rs\<close>, the CommonJS and ES module
    resolution over a file system given as functions.  The directories searched for packages, the closest
    package scope and the candidates of a relative specifier are those of the documented algorithm.

  \<^bold>\<open>Depth and termination.\<close>  Every definition is total.  Loops whose recursion is not structural have a
  termination proof; a Rust panic is the value \<^term>\<open>None\<close>, so statements that a result is \<^term>\<open>Some\<close> say that
  the code neither panics nor runs away.  The three loops of the byte controller whose end depends on the invariant are partial functions
  with the value \<^term>\<open>None\<close> when they do not end, and are proved to return.  The only bound is the number \<^verbatim>\<open>n\<close> of nested calls of user code:
  at depth 0 a call throws, as the engine does when its stack is exhausted.  The theorems hold for
  every \<^verbatim>\<open>n\<close>, so they do not depend on its choice; witnesses use a depth larger than their nesting.

  \<^bold>\<open>Assumptions.\<close>  User code is any program over the modelled operations.  Objects that a thenable check
  would inspect have no \<^verbatim>\<open>then\<close> inherited from the prototype of all objects.  Functions that are not in the
  sources are arguments: the sorting function of the timers, with the documented property of an unstable
  sort, the working directory of paths, the contents of the file system and the environment read by the resolver,
  the Base64 and hexadecimal codecs of the encodings (with their round trip as hypothesis), and
  conversions of engine values to strings.  Array buffers have a fixed length, their method
  \<^verbatim>\<open>transfer\<close> is the original one, allocating a buffer does not fail, byte counts stay below \<^verbatim>\<open>2^53\<close>, and Rust code that enqueues without
  transfer hands over a buffer nobody else has.  Floating-point numbers
  are modelled with rounding to nearest even as far as the queues use them.

  \<^bold>\<open>Not modelled.\<close>  Tee, pipes, iteration and transform streams; network,
  file system and process I/O (\<^verbatim>\<open>llrt_net\<close>, \<^verbatim>\<open>llrt_fs\<close>, \<^verbatim>\<open>llrt_child_process\<close>, the transport of \<^verbatim>\<open>llrt_fetch\<close>), which
  is asynchronous I/O of tokio and hyper; \<^verbatim>\<open>llrt_crypto\<close>, \<^verbatim>\<open>llrt_zlib\<close>, \<^verbatim>\<open>llrt_temporal\<close> and \<^verbatim>\<open>llrt_intl\<close>, which wrap
  third-party libraries and data; the glue that converts engine values and registers classes; garbage
  collection traces; Windows branches.

  \<^bold>\<open>Plan.\<close>  Next are the search parameters of URLs (\<^verbatim>\<open>llrt_url\<close>), number formatting (\<^verbatim>\<open>llrt_numbers\<close>), then the operations that combine
  streams (pipe, tee, transform).
\<close>

end
